(* ===== verification/Prelude.thy ===== *)
theory Prelude
  imports Main "HOL-Library.Word"
begin

unbundle bit_operations_syntax

text \<open>
  What every component of the model shares: bytes, the faults of a C execution, the result
  type of a C function, and the functions of \<^verbatim>\<open>string.h\<close> that the sources call.

  A C object in memory is the list of its bytes, as long as the object is allocated. A read or
  a write outside of it is not a value of the model but a \<open>fault\<close>: a function whose execution
  would be undefined behaviour returns \<open>Inl\<close> of the fault, and a function that returns
  (an error code of its own included) returns \<open>Inr\<close>.
\<close>

section \<open>Bytes, faults and results\<close>

type_synonym byte = "8 word"

datatype fault =
    OobRead      \<comment> \<open>a read outside of the object, or of a missing terminator\<close>
  | OobWrite     \<comment> \<open>a write outside of the object\<close>
  | NullDeref    \<comment> \<open>a null pointer is followed\<close>
  | UseAfterFree \<comment> \<open>an object is used, or freed again, after \<open>free\<close>\<close>
  | DivByZero    \<comment> \<open>a division by zero\<close>
  | BadFormat    \<comment> \<open>a \<open>printf\<close> directive without its argument\<close>

type_synonym 'a res = "fault + 'a"

text \<open>Sequencing of two statements: the second one runs when the first has not faulted.\<close>

definition bindR :: "'e + 'a \<Rightarrow> ('a \<Rightarrow> 'e + 'b) \<Rightarrow> 'e + 'b" where
  "bindR m f = (case m of Inl e \<Rightarrow> Inl e | Inr x \<Rightarrow> f x)"

lemma bindR_simps [simp]:
  "bindR (Inl e) f = Inl e"
  "bindR (Inr x) f = f x"
  by (simp_all add: bindR_def)

lemma bindR_cong [fundef_cong]:
  assumes "m = m'" and "\<And>x. m' = Inr x \<Longrightarrow> f x = f' x"
  shows "bindR m f = bindR m' f'"
  using assms by (cases m') auto

text \<open>Sequencing with a function that may run out of fuel (\<open>Inr None\<close>)\<close>

definition bindF :: "'a option res \<Rightarrow> ('a \<Rightarrow> 'b option res) \<Rightarrow> 'b option res" where
  "bindF m f = bindR m (\<lambda>r. case r of None \<Rightarrow> Inr None | Some x \<Rightarrow> f x)"

lemma bindF_cong [fundef_cong]:
  "m = m' \<Longrightarrow> (\<And>x. m' = Inr (Some x) \<Longrightarrow> f x = f' x) \<Longrightarrow> bindF m f = bindF m' f'"
  by (cases m') (auto simp: bindF_def split: option.split)

lemma bindR_eq_Inr_iff:
  "bindR m f = Inr y \<longleftrightarrow> (\<exists>x. m = Inr x \<and> f x = Inr y)"
  by (cases m) auto

lemma bindR_eq_Inl_iff:
  "bindR m f = Inl e \<longleftrightarrow> m = Inl e \<or> (\<exists>x. m = Inr x \<and> f x = Inl e)"
  by (cases m) auto

text \<open>A conversion to \<open>size_t\<close>: negative values wrap to the top of the 64-bit range.\<close>

definition to_size_t :: "int \<Rightarrow> nat" where
  "to_size_t i = nat (i mod 2 ^ 64)"

lemma to_size_t_nonneg: "0 \<le> i \<Longrightarrow> i < 2 ^ 64 \<Longrightarrow> to_size_t i = nat i"
  by (simp add: to_size_t_def)

lemma to_size_t_minus_one [simp]: "to_size_t (-1) = 2 ^ 64 - 1"
  by (simp add: to_size_t_def)

lemma to_size_t_of_nat [simp]: "n < 2 ^ 64 \<Longrightarrow> to_size_t (int n) = n"
  by (simp add: to_size_t_def)

section \<open>Objects in memory\<close>

definition rd :: "byte list \<Rightarrow> nat \<Rightarrow> byte res" where
  "rd b i = (if i < length b then Inr (b ! i) else Inl OobRead)"

definition wr :: "byte list \<Rightarrow> nat \<Rightarrow> byte \<Rightarrow> byte list res" where
  "wr b i v = (if i < length b then Inr (b[i := v]) else Inl OobWrite)"

text \<open>\<open>memcpy(dst + off, src, n)\<close>\<close>

definition memcpy :: "byte list \<Rightarrow> nat \<Rightarrow> byte list \<Rightarrow> nat \<Rightarrow> byte list res" where
  "memcpy dst off src n =
     (if length src < n then Inl OobRead
      else if length dst < off + n then Inl OobWrite
      else Inr (take off dst @ take n src @ drop (off + n) dst))"

text \<open>\<open>strlen\<close>: the bytes before the terminator; without one the read leaves the object.\<close>

fun strlen :: "byte list \<Rightarrow> nat res" where
  "strlen [] = Inl OobRead"
| "strlen (c # cs) = (if c = 0 then Inr 0 else bindR (strlen cs) (\<lambda>n. Inr (Suc n)))"

text \<open>The bytes that \<open>strncpy\<close> writes: the source up to its terminator, then zeros up to \<open>n\<close>.\<close>

fun strncpy_bytes :: "byte list \<Rightarrow> nat \<Rightarrow> byte list res" where
  "strncpy_bytes s 0 = Inr []"
| "strncpy_bytes [] (Suc n) = Inl OobRead"
| "strncpy_bytes (c # cs) (Suc n) =
     (if c = 0 then Inr (replicate (Suc n) 0)
      else bindR (strncpy_bytes cs n) (\<lambda>r. Inr (c # r)))"

definition strncpy :: "byte list \<Rightarrow> nat \<Rightarrow> byte list \<Rightarrow> nat \<Rightarrow> byte list res" where
  "strncpy dst off src n = bindR (strncpy_bytes src n) (\<lambda>w. memcpy dst off w n)"

text \<open>A C string: its content has no zero byte, the object holds the content and a terminator.\<close>

definition c_content :: "byte list \<Rightarrow> bool" where
  "c_content s \<longleftrightarrow> 0 \<notin> set s"

abbreviation bytes_of :: "string \<Rightarrow> byte list" where
  "bytes_of s \<equiv> map of_char s"

named_theorems mem_simps \<open>what the memory operations do when they stay inside their objects\<close>

lemma rd_in [mem_simps]: "i < length b \<Longrightarrow> rd b i = Inr (b ! i)"
  by (simp add: rd_def)

lemma wr_in [mem_simps]: "i < length b \<Longrightarrow> wr b i v = Inr (b[i := v])"
  by (simp add: wr_def)

lemma memcpy_in [mem_simps]:
  "n \<le> length src \<Longrightarrow> off + n \<le> length dst \<Longrightarrow>
     memcpy dst off src n = Inr (take off dst @ take n src @ drop (off + n) dst)"
  by (simp add: memcpy_def)

lemma memcpy_length: "memcpy dst off src n = Inr d \<Longrightarrow> length d = length dst"
  by (auto simp: memcpy_def split: if_splits)

lemma memcpy_nonempty_huge:
  "length src < n \<Longrightarrow> memcpy dst off src n = Inl OobRead"
  by (simp add: memcpy_def)

lemma strlen_content [mem_simps]:
  "c_content s \<Longrightarrow> strlen (s @ 0 # r) = Inr (length s)"
  by (induction s) (auto simp: c_content_def)

lemma strlen_SomeD:
  "strlen b = Inr n \<Longrightarrow> \<exists>s r. b = s @ 0 # r \<and> c_content s \<and> length s = n"
proof (induction b arbitrary: n)
  case Nil
  then show ?case by simp
next
  case (Cons c cs)
  show ?case
  proof (cases "c = 0")
    case True
    with Cons.prems show ?thesis
      by (intro exI [of _ "[]"] exI [of _ cs]) (auto simp: c_content_def)
  next
    case False
    with Cons.prems obtain m where m: "strlen cs = Inr m" "n = Suc m"
      by (auto simp: bindR_eq_Inr_iff)
    with Cons.IH obtain s r where "cs = s @ 0 # r" "c_content s" "length s = m"
      by blast
    with False m show ?thesis
      by (intro exI [of _ "c # s"] exI [of _ r]) (auto simp: c_content_def)
  qed
qed

lemma strncpy_bytes_content:
  "c_content s \<Longrightarrow>
     strncpy_bytes (s @ 0 # r) n = Inr (take n s @ replicate (n - length s) 0)"
proof (induction s arbitrary: n)
  case Nil
  then show ?case by (cases n) auto
next
  case (Cons c cs)
  then show ?case by (cases n) (auto simp: c_content_def)
qed

lemma strncpy_bytes_length: "strncpy_bytes s n = Inr w \<Longrightarrow> length w = n"
  by (induction s n arbitrary: w rule: strncpy_bytes.induct)
    (auto simp: bindR_eq_Inr_iff split: if_splits)

lemma strncpy_length: "strncpy dst off src n = Inr d \<Longrightarrow> length d = length dst"
  by (auto simp: strncpy_def bindR_eq_Inr_iff dest: memcpy_length)

section \<open>Bits and bounds\<close>

lemma bit_nat_bound:
  assumes "(q::nat) < 2 ^ k" and "k \<le> n"
  shows "\<not> bit q n"
proof -
  have "q < 2 ^ n" using assms by (meson less_le_trans one_le_numeral power_increasing)
  then show ?thesis by (simp add: bit_iff_odd)
qed

lemma nat_less_pow2I:
  assumes "\<And>n. k \<le> n \<Longrightarrow> \<not> bit (a::nat) n"
  shows "a < 2 ^ k"
proof -
  have "take_bit k a = a"
    using assms by (intro bit_eqI) (auto simp: bit_take_bit_iff intro: leI)
  then show ?thesis by (metis take_bit_nat_less_exp)
qed

section \<open>Facts on lists that several components use\<close>

lemma foldl_invariant:
  assumes "P a" and "\<And>a x. x \<in> set xs \<Longrightarrow> P a \<Longrightarrow> P (f a x)"
  shows "P (foldl f a xs)"
  using assms by (induction xs arbitrary: a) auto

text \<open>Replacing an element of a list, under \<open>concat (map f _)\<close> and under a count.\<close>

lemma concat_map_update:
  assumes "i < length xs"
  obtains A B where "concat (map f xs) = A @ f (xs ! i) @ B"
    and "\<And>y. concat (map f (xs[i := y])) = A @ f y @ B"
proof -
  have "xs = take i xs @ xs ! i # drop (Suc i) xs" using assms by (simp add: id_take_nth_drop)
  then have "concat (map f xs) = concat (map f (take i xs)) @ f (xs ! i) @ concat (map f (drop (Suc i) xs))"
    by (metis concat.simps(2) concat_append list.simps(9) map_append)
  moreover have "concat (map f (xs[i := y])) =
      concat (map f (take i xs)) @ f y @ concat (map f (drop (Suc i) xs))" for y
    using assms by (simp add: upd_conv_take_nth_drop)
  ultimately show ?thesis by (rule that)
qed

definition count_if :: "('a \<Rightarrow> bool) \<Rightarrow> 'a list \<Rightarrow> nat" where
  "count_if P xs = length (filter P xs)"

lemma count_if_update:
  assumes "i < length xs"
  shows "count_if P (xs[i := y]) + (if P (xs ! i) then 1 else 0) =
    count_if P xs + (if P y then 1 else 0)"
proof -
  have "xs = take i xs @ xs ! i # drop (Suc i) xs" using assms by (simp add: id_take_nth_drop)
  then have "count_if P xs = count_if P (take i xs @ xs ! i # drop (Suc i) xs)" by simp
  moreover have "xs[i := y] = take i xs @ y # drop (Suc i) xs"
    using assms by (simp add: upd_conv_take_nth_drop)
  ultimately show ?thesis by (simp add: count_if_def)
qed

lemma count_if_pos: "i < length xs \<Longrightarrow> P (xs ! i) \<Longrightarrow> 0 < count_if P xs"
  by (auto simp: count_if_def filter_empty_conv)

lemma count_if_0: "count_if P xs = 0 \<longleftrightarrow> (\<forall>i<length xs. \<not> P (xs ! i))"
  by (auto simp: count_if_def filter_empty_conv set_conv_nth)

lemma c_content_Nil [simp]: "c_content []"
  by (simp add: c_content_def)

lemma c_content_Cons [simp]: "c_content (c # s) \<longleftrightarrow> c \<noteq> 0 \<and> c_content s"
  by (auto simp: c_content_def)

lemma c_content_append [simp]: "c_content (s @ t) \<longleftrightarrow> c_content s \<and> c_content t"
  by (auto simp: c_content_def)

section \<open>Decimal numbers\<close>

text \<open>The digits that \<open>printf\<close> writes for \<open>%u\<close> and \<open>%d\<close>.\<close>

fun digits :: "nat \<Rightarrow> byte list" where
  "digits n = (if n < 10 then [of_nat (48 + n)] else digits (n div 10) @ [of_nat (48 + n mod 10)])"

declare digits.simps [simp del]

definition print_int :: "int \<Rightarrow> byte list" where
  "print_int i = (if i < 0 then 45 # digits (nat (- i)) else digits (nat i))"

text \<open>The value of a string of digits.\<close>

definition digits_value :: "byte list \<Rightarrow> nat" where
  "digits_value ds = foldl (\<lambda>v d. v * 10 + (unat d - 48)) 0 ds"

lemma unat_digit: "d < 10 \<Longrightarrow> unat (of_nat (48 + d) :: byte) = 48 + d"
  by (simp add: unat_of_nat del: of_nat_add)

lemma digits_value_digits: "digits_value (digits n) = n"
proof (induction n rule: digits.induct)
  case (1 n)
  then show ?case
    by (subst digits.simps) (auto simp: digits_value_def unat_of_nat simp del: of_nat_add)
qed

lemma digits_inj: "digits a = digits b \<longleftrightarrow> a = b"
  by (metis digits_value_digits)

lemma digits_range: "d \<in> set (digits n) \<Longrightarrow> 48 \<le> unat d \<and> unat d \<le> 57"
proof (induction n rule: digits.induct)
  case (1 n)
  show ?case
  proof (cases "n < 10")
    case True
    with "1.prems" show ?thesis by (simp add: digits.simps [of n] unat_digit del: of_nat_add)
  next
    case False
    with 1 have "d \<in> set (digits (n div 10)) \<or> d = of_nat (48 + n mod 10)"
      by (auto simp: digits.simps [of n])
    with "1.IH" [OF False] show ?thesis by (auto simp: unat_of_nat simp del: of_nat_add)
  qed
qed

lemma digits_length:
  assumes "n < 10 ^ k" and "0 < k"
  shows "length (digits n) \<le> k"
  using assms
proof (induction n arbitrary: k rule: digits.induct)
  case (1 n)
  show ?case
  proof (cases "n < 10")
    case True
    with "1.prems" show ?thesis by (simp add: digits.simps [of n])
  next
    case False
    with "1.prems" obtain j where j: "k = Suc j" "0 < j"
      by (cases k; cases "k - 1") auto
    with "1.prems" have "n div 10 < 10 ^ j" by (simp add: less_mult_imp_div_less mult.commute)
    with "1.IH" [OF False this j(2)] j False show ?thesis by (simp add: digits.simps [of n])
  qed
qed

lemma digits_nonempty [simp]: "digits n \<noteq> []"
  by (subst digits.simps) simp

lemma print_int_inj: "print_int a = print_int b \<longleftrightarrow> a = b"
proof -
  have "hd (digits n) \<noteq> 45" for n
    using digits_range [of "hd (digits n)" n] by auto
  then have "digits m \<noteq> 45 # digits n" for m n by (metis list.sel(1))
  then show ?thesis by (auto simp: print_int_def digits_inj dest: sym split: if_splits)
qed

lemma print_int_length:
  assumes "- (2 ^ 31) \<le> i" and "i < 2 ^ 31"
  shows "length (print_int i) \<le> 11"
proof -
  have "nat \<bar>i\<bar> < 10 ^ 10" using assms by auto
  then have "length (digits (nat \<bar>i\<bar>)) \<le> 10" by (rule digits_length) simp
  then show ?thesis by (auto simp: print_int_def split: if_splits)
qed

section \<open>Comparing the beginning of strings\<close>

text \<open>\<open>strncmp(s, find, n) == 0\<close>\<close>

fun strncmp_eq :: "byte list \<Rightarrow> byte list \<Rightarrow> nat \<Rightarrow> bool res" where
  "strncmp_eq s f 0 = Inr True"
| "strncmp_eq (a # s) (b # f) (Suc n) =
     (if a \<noteq> b then Inr False else if a = 0 then Inr True else strncmp_eq s f n)"
| "strncmp_eq s f (Suc n) = Inl OobRead"

lemma strncmp_eq_spec:
  "c_content f \<Longrightarrow> c_content c \<Longrightarrow> strncmp_eq (c @ 0 # r) (f @ q) (length f) = Inr (take (length f) c = f)"
proof (induction f arbitrary: c)
  case (Cons x f)
  then show ?case by (cases c) auto
qed simp

text \<open>A string literal is an object with its terminator.\<close>

definition lit :: "byte list \<Rightarrow> byte list" where
  "lit s = s @ [0]"

end
