(* ===== verification/Crc8.thy ===== *)
theory Crc8
  imports Prelude
begin

text \<open>
  The checksum of every client frame (\<^verbatim>\<open>common/crc8.c\<close>): the shift register over 32-bit
  words as the C code computes it, the functions that append and check the checksum, and the
  polynomial arithmetic over GF(2) that says what the register computes.
\<close>

section \<open>The code\<close>

text \<open>One turn of the inner loop of \<open>crc8\<close>: reduce when bit 15 is set, then shift.\<close>

definition crc8_bit :: "32 word \<Rightarrow> 32 word" where
  "crc8_bit crc =
     push_bit 1 (if crc AND 0x8000 \<noteq> 0 then crc XOR push_bit 3 0x1070 else crc)"

definition crc8_byte :: "32 word \<Rightarrow> byte \<Rightarrow> 32 word" where
  "crc8_byte crc d = (crc8_bit ^^ 8) (crc XOR push_bit 8 (ucast d))"

text \<open>
  The outer loop \<open>for (j = len; j; j--, data++)\<close>: it stops when \<open>j\<close> is zero and
  reads outside of the object when the bytes run out first (a negative \<open>len\<close> never gets
  to zero before that).
\<close>

fun crc8_loop :: "byte list \<Rightarrow> int \<Rightarrow> 32 word \<Rightarrow> 32 word res" where
  "crc8_loop data j crc =
     (if j = 0 then Inr crc
      else case data of
        [] \<Rightarrow> Inl OobRead
      | d # ds \<Rightarrow> crc8_loop ds (j - 1) (crc8_byte crc d))"

declare crc8_loop.simps [simp del]

definition crc8 :: "byte list \<Rightarrow> int \<Rightarrow> byte res" where
  "crc8 vptr len = bindR (crc8_loop vptr len 0) (\<lambda>crc. Inr (ucast (drop_bit 8 crc)))"

definition is_data_integrity :: "byte list \<Rightarrow> int \<Rightarrow> int res" where
  "is_data_integrity vptr len = bindR (crc8 vptr len) (\<lambda>c. Inr (uint c))"

text \<open>
  \<open>crc_data\<close> returns the new length and leaves the message and its checksum in \<open>buf\<close>.
  A null \<open>vptr\<close> is \<open>None\<close>. \<open>szBuf\<close> is the two-byte array through which the checksum is
  copied with \<open>strncpy(szBuf, &crcVal, 1)\<close>.
\<close>

definition crc_data :: "byte list option \<Rightarrow> int \<Rightarrow> byte list \<Rightarrow> (int \<times> byte list) res" where
  "crc_data vptr len buf =
     (case vptr of
        None \<Rightarrow> Inr (-1, buf)
      | Some v \<Rightarrow>
          bindR (crc8 v len) (\<lambda>crcVal.
          bindR (strncpy [0, 0] 0 [crcVal] 1) (\<lambda>szBuf.
          bindR (memcpy buf 0 v (to_size_t len)) (\<lambda>buf1.
          bindR (memcpy buf1 (nat len) szBuf 1) (\<lambda>buf2.
          Inr (len + 1, buf2))))))"

definition reverse_crc_data ::
  "byte list option \<Rightarrow> int \<Rightarrow> byte list option \<Rightarrow> (int \<times> byte list option) res" where
  "reverse_crc_data vptr len buf =
     (case (vptr, buf) of
        (Some v, Some b) \<Rightarrow>
          bindR (is_data_integrity v len) (\<lambda>r.
          if r = 0
          then bindR (memcpy b 0 v (to_size_t (len - 1))) (\<lambda>b'. Inr (0, Some b'))
          else Inr (-1, buf))
      | _ \<Rightarrow> Inr (-1, buf))"

section \<open>The register as a function of the bytes\<close>

text \<open>The checksum of a whole byte list, without the loop counter.\<close>

definition crc8_of :: "byte list \<Rightarrow> byte" where
  "crc8_of ds = ucast (drop_bit 8 (foldl crc8_byte 0 ds))"

lemma crc8_loop_take:
  "j \<le> length ds \<Longrightarrow> crc8_loop ds (int j) crc = Inr (foldl crc8_byte crc (take j ds))"
proof (induction ds arbitrary: j crc)
  case Nil
  then show ?case by (simp add: crc8_loop.simps)
next
  case (Cons d ds)
  then show ?case
    by (cases j) (auto simp: crc8_loop.simps [of "d # ds"] crc8_loop.simps [of "d # ds" 0])
qed

lemma crc8_loop_runs_out:
  "(j < 0 \<or> int (length ds) < j) \<Longrightarrow> crc8_loop ds j crc = Inl OobRead"
proof (induction ds arbitrary: j crc)
  case Nil
  then show ?case by (auto simp: crc8_loop.simps)
next
  case (Cons d ds)
  then show ?case by (subst crc8_loop.simps) auto
qed

lemma crc8_eq: "n \<le> length ds \<Longrightarrow> crc8 ds (int n) = Inr (crc8_of (take n ds))"
  by (simp add: crc8_def crc8_loop_take crc8_of_def)

lemma crc8_length: "crc8 ds (int (length ds)) = Inr (crc8_of ds)"
  by (simp add: crc8_eq)

section \<open>Polynomials over GF(2)\<close>

text \<open>
  A polynomial is the natural number of its coefficients; addition is exclusive or.
  \<open>times_poly q\<close> is \<open>q\<close> times the generator \<open>x^8 + x^2 + x + 1\<close> that the comment
  of the C function names.
\<close>

definition times_poly :: "nat \<Rightarrow> nat" where
  "times_poly q = push_bit 8 q XOR push_bit 2 q XOR push_bit 1 q XOR q"

text \<open>The polynomial of a message: its bits, first byte and top bit first.\<close>

definition msg_poly :: "byte list \<Rightarrow> nat" where
  "msg_poly ds = foldl (\<lambda>m d. push_bit 8 m XOR unat d) 0 ds"

lemma bit_times_poly:
  "bit (times_poly q) n \<longleftrightarrow>
     ((n \<ge> 8 \<and> bit q (n - 8)) \<noteq> ((n \<ge> 2 \<and> bit q (n - 2)) \<noteq> ((n \<ge> 1 \<and> bit q (n - 1)) \<noteq> bit q n)))"
  unfolding times_poly_def bit_xor_iff bit_push_bit_iff_nat by blast

lemma times_poly_0 [simp]: "times_poly 0 = 0"
  by (simp add: times_poly_def)

lemma times_poly_xor: "times_poly (p XOR q) = times_poly p XOR times_poly q"
  by (simp add: times_poly_def ac_simps)

lemma times_poly_push_bit: "times_poly (push_bit n q) = push_bit n (times_poly q)"
  by (simp add: times_poly_def ac_simps)

lemma nat_top_bit:
  assumes "(q::nat) \<noteq> 0"
  shows "\<exists>n. bit q n \<and> (\<forall>m > n. \<not> bit q m)"
proof -
  let ?S = "{n. bit q n}"
  have sub: "?S \<subseteq> {..q}"
  proof
    fix n assume "n \<in> ?S"
    then have "odd (q div 2 ^ n)" by (simp add: bit_iff_odd)
    then have "q div 2 ^ n \<noteq> 0" by (metis even_zero)
    then have "2 ^ n \<le> q" by (meson div_less not_le)
    moreover have "n < 2 ^ n" by (rule less_exp)
    ultimately show "n \<in> {..q}" by (simp only: atMost_iff)
  qed
  then have fin: "finite ?S" by (rule finite_subset) simp
  have "?S \<noteq> {}" using assms by (auto simp: bit_eq_iff)
  with fin have "Max ?S \<in> ?S" by (rule Max_in)
  moreover have "\<forall>m > Max ?S. \<not> bit q m" using fin Max_ge not_le by blast
  ultimately show ?thesis by auto
qed

text \<open>A non-zero multiple of the generator has degree at least 8.\<close>

lemma times_poly_small:
  assumes "times_poly q < 256"
  shows "q = 0"
proof (rule ccontr)
  assume "q \<noteq> 0"
  then obtain n where n: "bit q n" and above: "\<forall>m > n. \<not> bit q m"
    using nat_top_bit by blast
  have "bit (times_poly q) (n + 8)"
    using n above by (simp add: bit_times_poly)
  moreover have "\<not> bit (times_poly q) (n + 8)"
    by (rule bit_nat_bound [where k = 8]) (use assms in simp_all)
  ultimately show False by contradiction
qed

lemma times_poly_even: "even (times_poly q) \<longleftrightarrow> even q"
proof -
  have "bit (times_poly q) 0 \<longleftrightarrow> bit q 0" by (simp only: bit_times_poly) simp
  then show ?thesis by (simp add: bit_0)
qed

text \<open>Multiplying by a power of \<open>x\<close> creates no new multiple of the generator.\<close>

lemma times_poly_eq_push_bit:
  "times_poly q = push_bit k e \<Longrightarrow> \<exists>p. e = times_poly p"
proof (induction k arbitrary: q)
  case 0
  then show ?case by auto
next
  case (Suc k)
  have "even (times_poly q)" by (simp add: Suc.prems push_bit_Suc)
  then have "even q" by (simp add: times_poly_even)
  then have q: "q = push_bit 1 (q div 2)" by (simp add: push_bit_eq_mult)
  have "push_bit 1 (times_poly (q div 2)) = push_bit 1 (push_bit k e)"
    using Suc.prems by (subst times_poly_push_bit [symmetric], subst q [symmetric]) simp
  then have "times_poly (q div 2) = push_bit k e" by (simp add: push_bit_eq_mult)
  then show ?case by (rule Suc.IH)
qed

lemma xor_less_pow2: "(a::nat) < 2 ^ k \<Longrightarrow> b < 2 ^ k \<Longrightarrow> a XOR b < 2 ^ k"
  by (metis take_bit_nat_eq_self take_bit_nat_less_exp take_bit_xor)

lemma times_poly_unique:
  assumes "A XOR r = times_poly p" "A XOR s = times_poly q" "r < 256" "s < 256"
  shows "r = s"
proof -
  have "times_poly (p XOR q) = (A XOR r) XOR (A XOR s)"
    by (simp only: assms times_poly_xor)
  also have "\<dots> = r XOR s"
    by (rule bit_eqI) (auto simp: bit_xor_iff)
  finally have rs: "times_poly (p XOR q) = r XOR s" .
  have "r XOR s < 2 ^ 8" by (rule xor_less_pow2) (use assms in simp_all)
  with rs have "p XOR q = 0" by (intro times_poly_small) simp
  with rs have "r XOR s = 0" by simp
  then show ?thesis by (simp add: bit_eq_iff bit_xor_iff)
qed

section \<open>The register holds the remainder\<close>

text \<open>The register on natural numbers: what one turn of the inner loop adds to it.\<close>

definition reg_step :: "nat \<Rightarrow> nat" where
  "reg_step R = push_bit 1 R XOR (if bit R 15 then push_bit 8 (times_poly 1) else 0)"

lemma bit_reg_step:
  "bit (reg_step R) n \<longleftrightarrow>
     (n \<ge> 1 \<and> bit R (n - 1)) \<noteq> (bit R 15 \<and> n \<in> {8, 9, 10, 16})"
proof -
  define G where "G = push_bit 8 (times_poly 1)"
  have G: "bit G n \<longleftrightarrow> n \<in> {8, 9, 10, 16}"
    unfolding G_def bit_push_bit_iff_nat bit_times_poly bit_1_iff by auto
  have "bit (reg_step R) n \<longleftrightarrow> (1 \<le> n \<and> bit R (n - 1)) \<noteq> (bit R 15 \<and> bit G n)"
    unfolding reg_step_def G_def [symmetric] bit_xor_iff bit_push_bit_iff_nat by simp
  then show ?thesis by (simp only: G)
qed

lemma reg_step_bound:
  assumes "R < 2 ^ 16"
  shows "reg_step R < 2 ^ 16"
proof (rule nat_less_pow2I)
  fix n :: nat
  assume n: "16 \<le> n"
  show "\<not> bit (reg_step R) n"
  proof (cases "n = 16")
    case True
    then show ?thesis by (simp add: bit_reg_step)
  next
    case False
    with n have "\<not> bit R (n - 1)" by (intro bit_nat_bound [OF assms]) simp
    with False n show ?thesis by (auto simp: bit_reg_step)
  qed
qed

lemma word_test_bit_mask:
  "(R :: 32 word) AND 0x8000 \<noteq> 0 \<longleftrightarrow> bit R 15"
proof -
  have "(0x8000 :: 32 word) = push_bit 15 1" by simp
  then show ?thesis by (simp only: and_exp_eq_0_iff_not_bit push_bit_of_1) simp
qed

lemma crc8_bit_reg:
  assumes "unat R < 2 ^ 16"
  shows "unat (crc8_bit R) = reg_step (unat R)"
proof -
  have 15: "R AND 0x8000 \<noteq> 0 \<longleftrightarrow> bit (unat R) 15"
    by (simp only: word_test_bit_mask bit_unsigned_iff) simp
  have big: "\<not> bit R n" if "16 \<le> n" for n
    using bit_nat_bound [OF assms that] by (auto simp: bit_unsigned_iff dest: bit_imp_le_length)
  have mask: "bit (push_bit 3 0x1070 :: 32 word) n \<longleftrightarrow> n \<in> {7, 8, 9, 15}" for n
  proof -
    have "(push_bit 3 0x1070 :: 32 word) =
        push_bit 15 1 OR (push_bit 9 1 OR (push_bit 8 1 OR push_bit 7 1))" by simp
    then show ?thesis
      by (simp only: bit_or_iff bit_push_bit_iff bit_1_iff possible_bit_word) auto
  qed
  have bits: "bit (crc8_bit R) n \<longleftrightarrow> bit (reg_step (unat R)) n" for n
  proof (cases n)
    case 0
    then show ?thesis unfolding crc8_bit_def bit_push_bit_iff bit_reg_step by auto
  next
    case (Suc m)
    have code: "bit (crc8_bit R) (Suc m) \<longleftrightarrow>
        Suc m < 32 \<and> (bit R m \<noteq> (bit R 15 \<and> m \<in> {7, 8, 9, 15}))"
      unfolding crc8_bit_def word_test_bit_mask bit_push_bit_iff possible_bit_word
      by (cases "bit R 15") (simp_all only: if_True if_False bit_xor_iff mask, simp_all)
    have reg: "bit (reg_step (unat R)) (Suc m) \<longleftrightarrow>
        bit R m \<noteq> (bit R 15 \<and> Suc m \<in> {8, 9, 10, 16})"
      by (simp add: bit_reg_step bit_unsigned_iff)
    have sets: "Suc m \<in> {8, 9, 10, 16} \<longleftrightarrow> m \<in> {7, 8, 9, 15}" by auto
    have less: "m \<in> {7, 8, 9, 15} \<Longrightarrow> Suc m < 32" "bit R m \<Longrightarrow> Suc m < 32"
      using big [of m] by (auto simp: not_le intro: ccontr)
    show ?thesis
      unfolding Suc code reg sets using less by blast
  qed
  show ?thesis
    by (intro bit_eqI) (auto simp: bit_unsigned_iff bits dest: bit_imp_le_length)
qed


lemma reg_steps:
  "R < 2 ^ 16 \<Longrightarrow> (reg_step ^^ n) R < 2 ^ 16 \<and>
     (\<exists>q. (reg_step ^^ n) R = push_bit n R XOR push_bit 8 (times_poly q))"
proof (induction n)
  case 0
  then show ?case by (auto intro: exI [of _ 0])
next
  case (Suc n)
  define S where "S = (reg_step ^^ n) R"
  from Suc obtain q where S: "S < 2 ^ 16" and q: "S = push_bit n R XOR push_bit 8 (times_poly q)"
    by (auto simp: S_def)
  define u where "u = (if bit S 15 then 1 else 0 :: nat)"
  have "reg_step S = push_bit 1 S XOR push_bit 8 (times_poly u)"
    by (simp add: reg_step_def u_def)
  also have "\<dots> = push_bit (Suc n) R XOR push_bit 8 (times_poly (push_bit 1 q XOR u))"
    unfolding q times_poly_xor times_poly_push_bit push_bit_xor
    by (simp add: push_bit_push_bit ac_simps del: push_bit_of_Suc_0 push_bit_Suc)
  finally show ?case using reg_step_bound [OF S] by (auto simp: S_def)
qed

lemma crc8_bits_reg:
  "unat R < 2 ^ 16 \<Longrightarrow> unat ((crc8_bit ^^ n) R) = (reg_step ^^ n) (unat R)"
  using reg_steps [of "unat R"] by (induction n) (auto simp: crc8_bit_reg)

text \<open>
  The register between two bytes is a remainder shifted into its upper byte: bits above 15 are
  never set, although the C variable is 32 bits wide and is never masked.
\<close>

definition reg_holds :: "32 word \<Rightarrow> byte \<Rightarrow> bool" where
  "reg_holds R c \<longleftrightarrow> unat R = push_bit 8 (unat c)"

lemma reg_holds_byte:
  assumes "reg_holds R c"
  obtains c' q where "reg_holds (crc8_byte R d) c'"
    and "unat c' = push_bit 8 (unat c XOR unat d) XOR times_poly q"
proof -
  define e where "e = unat c XOR unat d"
  have e: "e < 2 ^ 8"
    unfolding e_def by (rule xor_less_pow2) (use unsigned_less [of c] unsigned_less [of d] in simp_all)
  have S: "unat (R XOR push_bit 8 (ucast d)) = push_bit 8 e"
  proof -
    have "unat (push_bit 8 (ucast d :: 32 word)) = push_bit 8 (unat d)"
      by (rule bit_eqI) (auto simp: bit_unsigned_iff bit_push_bit_iff dest: bit_imp_le_length)
    then show ?thesis
      using assms by (simp only: unsigned_xor_eq reg_holds_def e_def push_bit_xor)
  qed
  have "push_bit 8 e < 2 ^ 16" using e by (simp add: push_bit_eq_mult)
  from reg_steps [OF this, of 8] obtain q where
    less: "(reg_step ^^ 8) (push_bit 8 e) < 2 ^ 16" and
    eq: "(reg_step ^^ 8) (push_bit 8 e) = push_bit 8 (push_bit 8 e) XOR push_bit 8 (times_poly q)"
    by auto
  define r where "r = push_bit 8 e XOR times_poly q"
  have r: "(reg_step ^^ 8) (push_bit 8 e) = push_bit 8 r" unfolding eq r_def push_bit_xor ..
  with less have "r < 256" by (simp add: push_bit_eq_mult)
  then have "unat (of_nat r :: byte) = r" by (simp add: unat_of_nat)
  moreover have "unat (crc8_byte R d) = push_bit 8 r"
    unfolding crc8_byte_def using \<open>push_bit 8 e < 2 ^ 16\<close> by (simp only: crc8_bits_reg S r)
  ultimately show ?thesis
    by (intro that [of "of_nat r" q]) (simp_all only: reg_holds_def r_def e_def)
qed

lemma reg_holds_crc8:
  assumes "reg_holds R c"
  shows "(ucast (drop_bit 8 R) :: byte) = c"
proof -
  have "bit R (n + 8) \<longleftrightarrow> bit c n" if "n < 8" for n
  proof -
    have "bit (unat R) (n + 8) \<longleftrightarrow> bit (unat c) n"
      using assms by (simp only: reg_holds_def bit_push_bit_iff_nat) simp
    then show ?thesis using that by (simp add: bit_unsigned_iff)
  qed
  then show ?thesis
    by (intro bit_word_eqI) (simp add: bit_unsigned_iff bit_drop_bit_eq add.commute)
qed

lemma reg_holds_foldl:
  "reg_holds R c \<Longrightarrow> push_bit 8 m XOR unat c = times_poly q \<Longrightarrow>
     \<exists>c' q'. reg_holds (foldl crc8_byte R ds) c' \<and>
       push_bit 8 (foldl (\<lambda>m d. push_bit 8 m XOR unat d) m ds) XOR unat c' = times_poly q'"
proof (induction ds arbitrary: R c m q)
  case Nil
  then show ?case by auto
next
  case (Cons d ds)
  from reg_holds_byte [OF Cons.prems(1)] obtain c1 q1 where
    c1: "reg_holds (crc8_byte R d) c1" and
    eq: "unat c1 = push_bit 8 (unat c XOR unat d) XOR times_poly q1"
    by metis
  have "push_bit 8 (push_bit 8 m XOR unat d) XOR unat c1 =
      push_bit 8 (push_bit 8 m XOR unat c) XOR times_poly q1"
    unfolding eq push_bit_xor by (rule bit_eqI) (auto simp: bit_xor_iff)
  also have "\<dots> = times_poly (push_bit 8 q XOR q1)"
    by (simp only: Cons.prems(2) times_poly_xor times_poly_push_bit)
  finally have "push_bit 8 (push_bit 8 m XOR unat d) XOR unat c1 = times_poly (push_bit 8 q XOR q1)" .
  from Cons.IH [OF c1 this] show ?case by simp
qed

lemma crc8_of_remainder: "\<exists>q. push_bit 8 (msg_poly ds) XOR unat (crc8_of ds) = times_poly q"
proof -
  have "reg_holds 0 0" by (simp add: reg_holds_def)
  moreover have "push_bit 8 0 XOR unat (0 :: byte) = times_poly 0" by simp
  ultimately obtain c q where "reg_holds (foldl crc8_byte 0 ds) c"
    and q: "push_bit 8 (msg_poly ds) XOR unat c = times_poly q"
    unfolding msg_poly_def using reg_holds_foldl by blast
  then have "crc8_of ds = c" by (simp only: crc8_of_def reg_holds_crc8)
  with q show ?thesis by blast
qed

text \<open>The checksum is the only byte that makes the message divisible by the generator.\<close>

lemma crc8_of_iff:
  "crc8_of ds = c \<longleftrightarrow> (\<exists>q. push_bit 8 (msg_poly ds) XOR unat c = times_poly q)"
proof
  show "crc8_of ds = c \<Longrightarrow> \<exists>q. push_bit 8 (msg_poly ds) XOR unat c = times_poly q"
    using crc8_of_remainder by blast
next
  assume "\<exists>q. push_bit 8 (msg_poly ds) XOR unat c = times_poly q"
  moreover have "unat x < 256" for x :: byte using unsigned_less [of x] by simp
  ultimately have "unat (crc8_of ds) = unat c"
    using crc8_of_remainder [of ds] times_poly_unique by blast
  then show "crc8_of ds = c" by (rule unsigned_word_eqI)
qed

lemma msg_poly_snoc: "msg_poly (ds @ [d]) = push_bit 8 (msg_poly ds) XOR unat d"
  by (simp add: msg_poly_def)

lemma crc8_of_zero_iff: "crc8_of ds = 0 \<longleftrightarrow> (\<exists>q. msg_poly ds = times_poly q)"
proof
  assume "crc8_of ds = 0"
  then obtain q where "push_bit 8 (msg_poly ds) = times_poly q"
    using crc8_of_remainder [of ds] by auto
  then show "\<exists>q. msg_poly ds = times_poly q" by (metis times_poly_eq_push_bit)
next
  assume "\<exists>q. msg_poly ds = times_poly q"
  then obtain q where "push_bit 8 (msg_poly ds) XOR unat (0 :: byte) = times_poly (push_bit 8 q)"
    by (auto simp: times_poly_push_bit)
  then show "crc8_of ds = 0" unfolding crc8_of_iff by blast
qed

lemma crc8_of_append_crc: "crc8_of (ds @ [crc8_of ds]) = 0"
  unfolding crc8_of_zero_iff msg_poly_snoc by (rule crc8_of_remainder)


section \<open>Corrupted messages\<close>

text \<open>A corruption is the list of the bytes that are added to the message.\<close>

definition corrupt :: "byte list \<Rightarrow> byte list \<Rightarrow> byte list" where
  "corrupt ds es = map2 (XOR) ds es"

lemma foldl_msg_xor:
  "length ds = length es \<Longrightarrow>
     foldl (\<lambda>m d. push_bit 8 m XOR unat d) (m XOR n) (map2 (XOR) ds es) =
     foldl (\<lambda>m d. push_bit 8 m XOR unat d) m ds XOR foldl (\<lambda>m d. push_bit 8 m XOR unat d) n es"
proof (induction ds es arbitrary: m n rule: list_induct2)
  case Nil
  then show ?case by simp
next
  case (Cons d ds e es)
  have "push_bit 8 (m XOR n) XOR unat (d XOR e) =
      (push_bit 8 m XOR unat d) XOR (push_bit 8 n XOR unat e)"
    unfolding push_bit_xor unsigned_xor_eq by (rule bit_eqI) (auto simp: bit_xor_iff)
  with Cons.IH show ?case by simp
qed

lemma msg_poly_corrupt:
  "length ds = length es \<Longrightarrow> msg_poly (corrupt ds es) = msg_poly ds XOR msg_poly es"
  using foldl_msg_xor [of ds es 0 0] by (simp add: msg_poly_def corrupt_def)

lemma corrupt_length: "length ds = length es \<Longrightarrow> length (corrupt ds es) = length ds"
  by (simp add: corrupt_def)

text \<open>A valid message stays valid exactly when the corruption is a valid message.\<close>

lemma crc8_of_corrupt:
  assumes "crc8_of ds = 0" and "length ds = length es"
  shows "crc8_of (corrupt ds es) = 0 \<longleftrightarrow> crc8_of es = 0"
proof -
  from assms(1) obtain q where q: "msg_poly ds = times_poly q" by (auto simp: crc8_of_zero_iff)
  have "msg_poly ds XOR (msg_poly ds XOR msg_poly es) = msg_poly es"
    by (rule bit_eqI) (auto simp: bit_xor_iff)
  then show ?thesis
    unfolding crc8_of_zero_iff msg_poly_corrupt [OF assms(2)] q
    by (metis times_poly_xor)
qed

text \<open>A burst: the bits that differ lie within eight consecutive bits.\<close>

lemma crc8_of_burst:
  assumes "msg_poly es = push_bit k e" and "0 < e" and "e < 256"
  shows "crc8_of es \<noteq> 0"
proof
  assume "crc8_of es = 0"
  then obtain p where "e = times_poly p"
    using assms(1) times_poly_eq_push_bit by (metis crc8_of_zero_iff)
  with assms(3) have "p = 0" by (intro times_poly_small) simp
  with \<open>e = times_poly p\<close> assms(2) show False by simp
qed

section \<open>Building and checking a checksummed message\<close>

lemma crc_data_eq:
  assumes "length d < 2 ^ 31" and "Suc (length d) \<le> length buf"
  shows "crc_data (Some d) (int (length d)) buf =
    Inr (int (length d) + 1, d @ crc8_of d # drop (Suc (length d)) buf)"
proof -
  have cpy: "strncpy [0, 0] 0 [c] (Suc 0) = Inr [c, 0]" for c :: byte
    by (simp add: strncpy_def memcpy_def)
  have "to_size_t (int (length d)) = length d" using assms(1) by simp
  then show ?thesis
    using assms(2) by (simp add: crc_data_def crc8_length cpy mem_simps)
qed

lemma reverse_crc_data_ok:
  assumes "crc8_of f = 0" and "f \<noteq> []" and "length f < 2 ^ 31" and "length f \<le> Suc (length b)"
  shows "reverse_crc_data (Some f) (int (length f)) (Some b) =
    Inr (0, Some (butlast f @ drop (length f - 1) b))"
proof -
  have "to_size_t (int (length f) - 1) = length f - 1"
    using assms(2,3) by (subst to_size_t_nonneg) (auto simp: nat_diff_distrib Suc_le_eq)
  then show ?thesis using assms
    by (simp add: reverse_crc_data_def is_data_integrity_def crc8_length mem_simps butlast_conv_take)
qed

lemma reverse_crc_data_bad:
  assumes "crc8_of f \<noteq> 0"
  shows "reverse_crc_data (Some f) (int (length f)) (Some b) = Inr (-1, Some b)"
  using assms
  by (simp add: reverse_crc_data_def is_data_integrity_def crc8_length unsigned_eq_0_iff)

section \<open>Properties\<close>

text \<open>
  C9: the checksum computed by the bit loop over an unmasked 32-bit register is the remainder
  of the message, shifted by eight bits, modulo the generator \<open>x^8 + x^2 + x + 1\<close>: a byte \<open>c\<close> is
  the result exactly when the shifted message plus \<open>c\<close> is a multiple of the generator.
\<close>

theorem crc8_is_remainder:
  "crc8 ds (int (length ds)) = Inr c \<longleftrightarrow>
     (\<exists>q. push_bit 8 (msg_poly ds) XOR unat c = times_poly q)"
  by (simp add: crc8_length crc8_of_iff)

text \<open>
  What \<open>crc_data\<close> builds from a message, \<open>reverse_crc_data\<close> accepts and gives the message
  back, in buffers of the sizes that the header asks for.
\<close>

theorem crc_data_roundtrip:
  assumes "length d < 2 ^ 31 - 1" and "length buf = Suc (length d)" and "length out = length d"
  shows "\<exists>frame. crc_data (Some d) (int (length d)) buf = Inr (int (length frame), frame) \<and>
    reverse_crc_data (Some frame) (int (length frame)) (Some out) = Inr (0, Some d)"
proof (intro exI conjI)
  show "crc_data (Some d) (int (length d)) buf =
      Inr (int (length (d @ [crc8_of d])), d @ [crc8_of d])"
    using assms by (simp add: crc_data_eq)
  show "reverse_crc_data (Some (d @ [crc8_of d])) (int (length (d @ [crc8_of d]))) (Some out) =
      Inr (0, Some d)"
    using assms by (subst reverse_crc_data_ok) (simp_all add: crc8_of_append_crc)
qed

theorem crc_data_roundtrip_witness:
  "\<exists>frame. crc_data (Some [104, 105]) 2 [0, 0, 0] = Inr (int (length frame), frame) \<and>
    reverse_crc_data (Some frame) (int (length frame)) (Some [0, 0]) = Inr (0, Some [104, 105])"
  using crc_data_roundtrip [of "[104, 105]" "[0, 0, 0]" "[0, 0]"] by simp

text \<open>
  C37: every error burst of at most eight bits, anywhere in a checksummed message (across byte
  boundaries and in the checksum itself), is detected: \<open>reverse_crc_data\<close> returns -1 and leaves the
  output buffer alone.
\<close>

theorem crc_burst_detected:
  assumes "length es = Suc (length d)"
    and "msg_poly es = push_bit k e" and "0 < e" and "e < 256"
  shows "reverse_crc_data (Some (corrupt (d @ [crc8_of d]) es)) (int (Suc (length d))) (Some out) =
    Inr (-1, Some out)"
proof -
  let ?f = "corrupt (d @ [crc8_of d]) es"
  have "crc8_of ?f \<noteq> 0"
    using assms crc8_of_burst by (subst crc8_of_corrupt) (auto simp: crc8_of_append_crc)
  moreover have "length ?f = Suc (length d)" using assms(1) by (simp add: corrupt_def)
  ultimately show ?thesis using reverse_crc_data_bad by metis
qed

theorem crc_burst_detected_witness:
  "reverse_crc_data (Some (corrupt ([104, 105] @ [crc8_of [104, 105]]) [0, 3, 0x80])) (int (Suc (Suc (Suc 0))))
     (Some [7, 7]) = Inr (-1, Some [7, 7])"
proof -
  have "msg_poly [0, 3, 0x80] = push_bit 7 7" by (simp add: msg_poly_def)
  then show ?thesis
    using crc_burst_detected [of "[0, 3, 0x80]" "[104, 105]" 7 7 "[7, 7]"] by simp
qed

text \<open>
  A frame with no byte at all passes the integrity check (its checksum is 0), and
  \<open>reverse_crc_data\<close> then copies \<open>len - 1\<close> bytes, which as a \<open>size_t\<close> is the whole address space: the
  function never returns from an empty frame.
\<close>

theorem reverse_crc_data_empty:
  assumes "length v < 2 ^ 64 - 1"
  shows "is_data_integrity v 0 = Inr 0 \<and> reverse_crc_data (Some v) 0 (Some b) = Inl OobRead"
  using assms
  by (simp add: reverse_crc_data_def is_data_integrity_def crc8_def crc8_loop.simps
      memcpy_nonempty_huge)

theorem reverse_crc_data_empty_witness:
  "is_data_integrity [0, 1] 0 = Inr 0 \<and> reverse_crc_data (Some [0, 1]) 0 (Some []) = Inl OobRead"
  by (rule reverse_crc_data_empty) simp

end
