(* ===== verification/Base64.thy ===== *)
theory Base64
  imports Prelude "HOL-Library.Signed_Division"
begin

text \<open>
  The Base64 coder (\<^verbatim>\<open>common/base64.c\<close>), with which the proxy builds the credentials of its
  requests: the tables, the length functions, the decoder and the encoder.
\<close>

section \<open>The code\<close>

definition pr2six_table :: "byte list" where
  "pr2six_table =
    [64, 64, 64, 64, 64, 64, 64, 64, 64, 64, 64, 64, 64, 64, 64, 64,
     64, 64, 64, 64, 64, 64, 64, 64, 64, 64, 64, 64, 64, 64, 64, 64,
     64, 64, 64, 64, 64, 64, 64, 64, 64, 64, 64, 62, 64, 64, 64, 63,
     52, 53, 54, 55, 56, 57, 58, 59, 60, 61, 64, 64, 64, 64, 64, 64,
     64, 0, 1, 2, 3, 4, 5, 6, 7, 8, 9, 10, 11, 12, 13, 14,
     15, 16, 17, 18, 19, 20, 21, 22, 23, 24, 25, 64, 64, 64, 64, 64,
     64, 26, 27, 28, 29, 30, 31, 32, 33, 34, 35, 36, 37, 38, 39, 40,
     41, 42, 43, 44, 45, 46, 47, 48, 49, 50, 51, 64, 64, 64, 64, 64,
     64, 64, 64, 64, 64, 64, 64, 64, 64, 64, 64, 64, 64, 64, 64, 64,
     64, 64, 64, 64, 64, 64, 64, 64, 64, 64, 64, 64, 64, 64, 64, 64,
     64, 64, 64, 64, 64, 64, 64, 64, 64, 64, 64, 64, 64, 64, 64, 64,
     64, 64, 64, 64, 64, 64, 64, 64, 64, 64, 64, 64, 64, 64, 64, 64,
     64, 64, 64, 64, 64, 64, 64, 64, 64, 64, 64, 64, 64, 64, 64, 64,
     64, 64, 64, 64, 64, 64, 64, 64, 64, 64, 64, 64, 64, 64, 64, 64,
     64, 64, 64, 64, 64, 64, 64, 64, 64, 64, 64, 64, 64, 64, 64, 64,
     64, 64, 64, 64, 64, 64, 64, 64, 64, 64, 64, 64, 64, 64, 64, 64]"

text \<open>An \<open>unsigned char\<close> always indexes inside the table of 256 entries.\<close>

definition pr2six :: "byte \<Rightarrow> byte" where
  "pr2six c = pr2six_table ! unat c"

definition basis_64 :: "byte list" where
  "basis_64 = bytes_of ''ABCDEFGHIJKLMNOPQRSTUVWXYZabcdefghijklmnopqrstuvwxyz0123456789+/''"

text \<open>\<open>while (pr2six[*(bufin++)] <= 63)\<close>: the number of code characters at the start.\<close>

fun scan_code :: "byte list \<Rightarrow> nat res" where
  "scan_code [] = Inl OobRead"
| "scan_code (c # cs) = (if pr2six c \<le> 63 then bindR (scan_code cs) (\<lambda>n. Inr (Suc n)) else Inr 0)"

definition Base64decode_len :: "byte list \<Rightarrow> int res" where
  "Base64decode_len bufcoded =
     bindR (scan_code bufcoded) (\<lambda>nprbytes. Inr ((int nprbytes + 3) sdiv 4 * 3 + 1))"

text \<open>The three output bytes of a group; the shifts are on \<open>int\<close>, the cast drops the upper bits.\<close>

definition out1 :: "byte \<Rightarrow> byte \<Rightarrow> byte" where
  "out1 a b = ucast (push_bit 2 (ucast (pr2six a) :: 32 word) OR drop_bit 4 (ucast (pr2six b)))"

definition out2 :: "byte \<Rightarrow> byte \<Rightarrow> byte" where
  "out2 b c = ucast (push_bit 4 (ucast (pr2six b) :: 32 word) OR drop_bit 2 (ucast (pr2six c)))"

definition out3 :: "byte \<Rightarrow> byte \<Rightarrow> byte" where
  "out3 c d = ucast (push_bit 6 (ucast (pr2six c) :: 32 word) OR ucast (pr2six d))"

text \<open>\<open>while (nprbytes > 4)\<close>; the result is \<open>nprbytes\<close>, \<open>bufin\<close> and what was written.\<close>

fun decode_loop :: "nat \<Rightarrow> byte list \<Rightarrow> byte list \<Rightarrow> (nat \<times> byte list \<times> byte list) res" where
  "decode_loop nprbytes (a # b # c # d # bufin) out =
     (if nprbytes > 4
      then decode_loop (nprbytes - 4) bufin (out @ [out1 a b, out2 b c, out3 c d])
      else Inr (nprbytes, a # b # c # d # bufin, out))"
| "decode_loop nprbytes bufin out =
     (if nprbytes > 4 then Inl OobRead else Inr (nprbytes, bufin, out))"

definition decode_tail :: "nat \<Rightarrow> byte list \<Rightarrow> byte list res" where
  "decode_tail nprbytes bufin =
     bindR (if nprbytes > 1
            then bindR (rd bufin 0) (\<lambda>a. bindR (rd bufin 1) (\<lambda>b. Inr [out1 a b])) else Inr [])
      (\<lambda>o1. bindR (if nprbytes > 2
            then bindR (rd bufin 1) (\<lambda>b. bindR (rd bufin 2) (\<lambda>c. Inr [out2 b c])) else Inr [])
      (\<lambda>o2. bindR (if nprbytes > 3
            then bindR (rd bufin 2) (\<lambda>c. bindR (rd bufin 3) (\<lambda>d. Inr [out3 c d])) else Inr [])
      (\<lambda>o3. Inr (o1 @ o2 @ o3))))"

text \<open>The return value and \<open>bufplain\<close> with the output and its terminator.\<close>

definition Base64decode :: "byte list \<Rightarrow> byte list \<Rightarrow> (int \<times> byte list) res" where
  "Base64decode bufplain bufcoded =
     bindR (scan_code bufcoded) (\<lambda>nprbytes.
     bindR (decode_loop nprbytes bufcoded []) (\<lambda>(n, bufin, out).
     bindR (decode_tail n bufin) (\<lambda>rest.
     bindR (memcpy bufplain 0 (out @ rest @ [0]) (length (out @ rest @ [0]))) (\<lambda>plain.
     Inr ((int nprbytes + 3) sdiv 4 * 3 - ((4 - int n) AND 3), plain)))))"

definition Base64encode_len :: "int \<Rightarrow> int" where
  "Base64encode_len len = (len + 2) sdiv 3 * 4 + 1"

text \<open>
  The indices into \<open>basis_64\<close>. A \<open>char\<close> is signed: it is sign-extended to \<open>int\<close>, and \<open>>>\<close>
  shifts the sign in, before the mask keeps six bits.
\<close>

definition six1 :: "byte \<Rightarrow> 32 word" where
  "six1 a = signed_drop_bit 2 (scast a) AND 0x3F"

definition six2 :: "byte \<Rightarrow> byte \<Rightarrow> 32 word" where
  "six2 a b = push_bit 4 (scast a AND 0x3) OR signed_drop_bit 4 (scast b AND 0xF0)"

definition six3 :: "byte \<Rightarrow> byte \<Rightarrow> 32 word" where
  "six3 b c = push_bit 2 (scast b AND 0xF) OR signed_drop_bit 6 (scast c AND 0xC0)"

definition six4 :: "byte \<Rightarrow> 32 word" where
  "six4 c = scast c AND 0x3F"

definition six2_last :: "byte \<Rightarrow> 32 word" where
  "six2_last a = push_bit 4 (scast a AND 0x3)"

definition six3_last :: "byte \<Rightarrow> 32 word" where
  "six3_last b = push_bit 2 (scast b AND 0xF)"

definition basis :: "32 word \<Rightarrow> byte" where
  "basis i = basis_64 ! unat i"

text \<open>
  The loop over groups of three bytes while \<open>i < len - 2\<close>, then the last one or two bytes with
  their padding.
\<close>

fun encode_body :: "byte list \<Rightarrow> byte list" where
  "encode_body (a # b # c # r) =
     basis (six1 a) # basis (six2 a b) # basis (six3 b c) # basis (six4 c) #
     encode_body r"
| "encode_body [a, b] =
     [basis (six1 a), basis (six2 a b), basis (six3_last b), of_char CHR ''='']"
| "encode_body [a] =
     [basis (six1 a), basis (six2_last a), of_char CHR ''='', of_char CHR ''='']"
| "encode_body [] = []"

definition Base64encode :: "byte list \<Rightarrow> byte list \<Rightarrow> int \<Rightarrow> (int \<times> byte list) res" where
  "Base64encode encoded str len =
     (if length str < nat len then Inl OobRead
      else let p = encode_body (take (nat len) str) @ [0]
           in bindR (memcpy encoded 0 p (length p)) (\<lambda>encoded'. Inr (int (length p), encoded')))"

section \<open>Six bits at a time\<close>

lemma basis_64_length [simp]: "length basis_64 = 64"
  by (simp add: basis_64_def)

lemma all_less_64: "(\<forall>i<64. P (i::nat)) \<longleftrightarrow> list_all P [0..<64]"
  by (auto simp: list_all_iff)

lemma pr2six_basis:
  assumes "i < 64"
  shows "pr2six (basis_64 ! i) = of_nat i"
proof -
  have "list_all (\<lambda>i. pr2six (basis_64 ! i) = of_nat i) [0..<64]"
    by code_simp
  with assms show ?thesis by (auto simp: list_all_iff)
qed

lemma pr2six_stop:
  "\<not> pr2six 0 \<le> 63" "\<not> pr2six (of_char CHR ''='') \<le> 63" "\<not> pr2six 61 \<le> 63"
  by code_simp+

text \<open>The bits of the six-bit values, in terms of the bits of the plain bytes.\<close>

lemma masks32:
  "(0x3F :: 32 word) = mask 6" "(0x3 :: 32 word) = mask 2" "(0xF :: 32 word) = mask 4"
  "(0xF0 :: 32 word) = push_bit 4 (mask 4)" "(0xC0 :: 32 word) = push_bit 6 (mask 2)"
  by (simp_all add: mask_eq_exp_minus_1)

lemma below_6: "(n::nat) < 6 \<longleftrightarrow> n \<in> {0, 1, 2, 3, 4, 5}"
  by auto

lemma bit_six1: "bit (six1 a) n \<longleftrightarrow> n < 6 \<and> bit a (n + 2)"
  unfolding six1_def masks32 by (cases "n < 6"; (simp only: below_6)?; auto simp: bit_simps)

lemma bit_six2: "bit (six2 a b) n \<longleftrightarrow> n < 6 \<and> (if n < 4 then bit b (n + 4) else bit a (n - 4))"
  unfolding six2_def masks32 by (cases "n < 6"; (simp only: below_6)?; auto simp: bit_simps)

lemma bit_six3: "bit (six3 b c) n \<longleftrightarrow> n < 6 \<and> (if n < 2 then bit c (n + 6) else bit b (n - 2))"
  unfolding six3_def masks32 by (cases "n < 6"; (simp only: below_6)?; auto simp: bit_simps)

lemma bit_six4: "bit (six4 c) n \<longleftrightarrow> n < 6 \<and> bit c n"
  unfolding six4_def masks32 by (cases "n < 6"; (simp only: below_6)?; auto simp: bit_simps)

lemma bit_six2_last: "bit (six2_last a) n \<longleftrightarrow> n < 6 \<and> 4 \<le> n \<and> bit a (n - 4)"
  unfolding six2_last_def masks32 by (cases "n < 6"; (simp only: below_6)?; auto simp: bit_simps)

lemma bit_six3_last: "bit (six3_last b) n \<longleftrightarrow> n < 6 \<and> 2 \<le> n \<and> bit b (n - 2)"
  unfolding six3_last_def masks32 by (cases "n < 6"; (simp only: below_6)?; auto simp: bit_simps)

lemmas bit_six = bit_six1 bit_six2 bit_six3 bit_six4 bit_six2_last bit_six3_last

lemma unat_less_64:
  assumes "\<And>n. bit (w :: 32 word) n \<Longrightarrow> n < 6"
  shows "unat w < 64"
proof -
  have "unat w < 2 ^ 6"
    by (rule nat_less_pow2I) (use assms in \<open>auto simp: bit_unsigned_iff dest: leD\<close>)
  then show ?thesis by simp
qed

lemma six_bounds [simp]:
  "unat (six1 a) < 64" "unat (six2 a b) < 64" "unat (six3 b c) < 64"
  "unat (six4 c) < 64" "unat (six2_last a) < 64" "unat (six3_last b) < 64"
  by (rule unat_less_64, simp only: bit_six)+

text \<open>Decoding an encoded value gives its bits.\<close>

lemma bit_pr2six:
  assumes "unat (w :: 32 word) < 64"
  shows "bit (ucast (pr2six (basis w)) :: 32 word) n \<longleftrightarrow> n < 8 \<and> bit w n"
  using assms by (auto simp: basis_def pr2six_basis bit_simps)

lemma byte_eqI:
  assumes "\<And>n. n \<in> {0, 1, 2, 3, 4, 5, 6, 7} \<Longrightarrow> bit (x :: byte) n \<longleftrightarrow> bit y n"
  shows "x = y"
proof (rule bit_word_eqI)
  fix n :: nat
  assume "n < LENGTH(8)"
  then have "n \<in> {0, 1, 2, 3, 4, 5, 6, 7}" by auto
  then show "bit x n \<longleftrightarrow> bit y n" by (rule assms)
qed

lemma bit_low: "bit (ucast (w :: 32 word) :: byte) n \<longleftrightarrow> n < 8 \<and> bit w n"
  by (auto simp: bit_simps)

lemmas six_code_bits = bit_pr2six [OF six_bounds(1)] bit_pr2six [OF six_bounds(2)]
  bit_pr2six [OF six_bounds(3)] bit_pr2six [OF six_bounds(4)] bit_pr2six [OF six_bounds(5)]
  bit_pr2six [OF six_bounds(6)] bit_six

lemmas word_bit_ops = bit_low bit_or_iff bit_push_bit_iff possible_bit_word bit_drop_bit_eq comp_def

lemma group_out1 [simp]:
  "out1 (basis (six1 a)) (basis (six2 a b)) = a"
  "out1 (basis (six1 a)) (basis (six2_last a)) = a"
  by (rule byte_eqI; unfold out1_def word_bit_ops six_code_bits;
      elim insertE emptyE; simp add: eval_nat_numeral)+

lemma group_out2 [simp]:
  "out2 (basis (six2 a b)) (basis (six3 b c)) = b"
  "out2 (basis (six2 a b)) (basis (six3_last b)) = b"
  by (rule byte_eqI; unfold out2_def word_bit_ops six_code_bits;
      elim insertE emptyE; simp add: eval_nat_numeral)+

lemma group_out3 [simp]: "out3 (basis (six3 b c)) (basis (six4 c)) = c"
  by (rule byte_eqI; unfold out3_def word_bit_ops six_code_bits;
      elim insertE emptyE; simp add: numeral_2_eq_2)

section \<open>Lengths\<close>

lemma sdiv_nat: "(int a) sdiv (numeral k) = int (a div numeral k)"
  by (simp add: signed_divide_int_def sgn_if zdiv_int)

lemma encode_body_length: "length (encode_body s) = (length s + 2) div 3 * 4"
proof (induction s rule: encode_body.induct)
  case (1 a b c r)
  have "(length r + 2 + 3) div 3 = (length r + 2) div 3 + 1" by (rule div_add_self2) simp
  with 1 show ?case by (simp add: algebra_simps)
qed simp_all

lemma Base64encode_len_nat: "Base64encode_len (int n) = int ((n + 2) div 3 * 4 + 1)"
proof -
  have "int n + 2 = int (n + 2)" by simp
  then show ?thesis unfolding Base64encode_len_def by (simp only: sdiv_nat)
qed

lemma Base64encode_eq:
  assumes "length encoded = nat (Base64encode_len (int (length s)))"
  shows "Base64encode encoded s (int (length s)) =
    Inr (Base64encode_len (int (length s)), encode_body s @ [0])"
proof -
  have len: "length (encode_body s @ [0]) = (length s + 2) div 3 * 4 + 1"
    by (simp add: encode_body_length)
  have "length encoded = length (encode_body s @ [0])"
    using assms unfolding len Base64encode_len_nat by (simp only: nat_int)
  then show ?thesis unfolding Base64encode_len_nat len [symmetric]
    by (simp add: Base64encode_def Let_def memcpy_def)
qed

section \<open>Decoding what was encoded\<close>

text \<open>The code characters of an encoded string are those before its padding.\<close>

fun code_chars :: "byte list \<Rightarrow> byte list" where
  "code_chars (a # b # c # r) =
     basis (six1 a) # basis (six2 a b) # basis (six3 b c) # basis (six4 c) # code_chars r"
| "code_chars [a, b] = [basis (six1 a), basis (six2 a b), basis (six3_last b)]"
| "code_chars [a] = [basis (six1 a), basis (six2_last a)]"
| "code_chars [] = []"

definition padding :: "byte list \<Rightarrow> byte list" where
  "padding s = replicate ((3 - length s mod 3) mod 3) (of_char CHR ''='')"

lemma encode_body_split: "encode_body s = code_chars s @ padding s"
  by (induction s rule: encode_body.induct) (auto simp: padding_def numeral_2_eq_2)

lemma pr2six_code: "unat i < 64 \<Longrightarrow> pr2six (basis i) \<le> 63"
proof -
  assume "unat i < 64"
  moreover from this have "unat (of_nat (unat i) :: byte) = unat i"
    by (simp add: unsigned_ucast_eq take_bit_eq_mod unat_of_nat)
  ultimately show ?thesis by (simp add: basis_def pr2six_basis word_le_nat_alt)
qed

lemma scan_code_chars:
  "\<not> pr2six c \<le> 63 \<Longrightarrow> scan_code (code_chars s @ c # r) = Inr (length (code_chars s))"
  by (induction s rule: encode_body.induct) (auto simp: pr2six_code)

lemma code_chars_groups: "(length (code_chars s) + 3) div 4 = (length s + 2) div 3"
proof (induction s rule: code_chars.induct)
  case (1 a b c r)
  have "(length (code_chars r) + 3 + 4) div 4 = (length (code_chars r) + 3) div 4 + 1"
    "(length r + 2 + 3) div 3 = (length r + 2) div 3 + 1"
    by (simp_all only: div_add_self2)
  with 1 show ?case by (simp add: algebra_simps)
qed simp_all

lemma decode_loop_stop: "n \<le> 4 \<Longrightarrow> decode_loop n b out = Inr (n, b, out)"
  by (cases "(n, b, out)" rule: decode_loop.cases) simp_all

lemma decode_chars:
  "bindR (decode_loop (length (code_chars s)) (code_chars s @ r) out)
     (\<lambda>(n, b, o'). bindR (decode_tail n b) (\<lambda>t. Inr (o' @ t))) = Inr (out @ s)"
proof (induction s arbitrary: out rule: code_chars.induct)
  case (1 a b c q)
  show ?case
  proof (cases "q = []")
    case True
    then show ?thesis by (simp add: decode_tail_def mem_simps)
  next
    case False
    then have "4 < length (code_chars (a # b # c # q))" by (cases q rule: code_chars.cases) auto
    with 1 [of "out @ [a, b, c]"] show ?thesis by simp
  qed
qed (simp_all add: decode_loop_stop decode_tail_def mem_simps)

section \<open>Decoding any input\<close>

lemma scan_code_bound: "scan_code b = Inr n \<Longrightarrow> n < length b"
  by (induction b arbitrary: n) (auto simp: bindR_eq_Inr_iff split: if_splits)

lemma scan_code_terminated: "c_content s \<Longrightarrow> \<exists>n. scan_code (s @ 0 # r) = Inr n \<and> n \<le> length s"
  by (induction s) (auto simp: pr2six_stop)

lemma decode_loop_spec:
  assumes "n \<le> length b"
  shows "\<exists>m b' o'. decode_loop n b out = Inr (m, b', out @ o') \<and> m \<le> 4 \<and> m \<le> length b' \<and>
    (\<exists>k. n = m + 4 * k \<and> length o' = 3 * k \<and> (0 < n \<longrightarrow> 0 < m))"
  using assms
proof (induction n b out rule: decode_loop.induct)
  case (1 n a b c d bufin out)
  show ?case
  proof (cases "n > 4")
    case True
    with "1.prems" have "n - 4 \<le> length bufin" by simp
    from "1.IH" [OF True this] True obtain m b' o' k where
      "decode_loop (n - 4) bufin (out @ [out1 a b, out2 b c, out3 c d]) =
        Inr (m, b', (out @ [out1 a b, out2 b c, out3 c d]) @ o')"
      "m \<le> 4" "m \<le> length b'" "n - 4 = m + 4 * k" "length o' = 3 * k" "0 < m"
      by auto
    with True show ?thesis
      by (intro exI [of _ m] exI [of _ b'] exI [of _ "[out1 a b, out2 b c, out3 c d] @ o'"])
        (auto intro: exI [of _ "Suc k"])
  next
    case False
    with 1 show ?thesis by auto
  qed
qed (auto simp: not_less)

lemma decode_tail_spec:
  assumes "n \<le> 4" and "n \<le> length b"
  shows "\<exists>t. decode_tail n b = Inr t \<and> length t = n - 1"
proof -
  have "n = 0 \<or> n = 1 \<or> n = 2 \<or> n = 3 \<or> n = 4" using assms(1) by auto
  with assms(2) show ?thesis by (auto simp: decode_tail_def rd_def)
qed

lemma decode_result:
  assumes "m \<le> 4" and "n = m + 4 * k" and "0 < n \<longrightarrow> 0 < m"
  shows "(int n + 3) sdiv 4 * 3 - ((4 - int m) AND 3) = int (3 * k + (m - 1))"
proof -
  have "int n + 3 = int (m + 3 + 4 * k)" using assms(2) by simp
  then have "(int n + 3) sdiv 4 = int ((m + 3 + 4 * k) div 4)" by (simp only: sdiv_nat)
  also have "\<dots> = int ((m + 3) div 4 + k)" by simp
  finally have d: "(int n + 3) sdiv 4 = int ((m + 3) div 4 + k)" .
  have "m = 0 \<or> m = 1 \<or> m = 2 \<or> m = 3 \<or> m = 4" using assms(1) by auto
  with assms show ?thesis unfolding d by auto
qed

lemma Base64decode_steps:
  assumes "scan_code bufcoded = Inr n"
    and "decode_loop n bufcoded [] = Inr (m, b, o1)" and "decode_tail m b = Inr t"
    and "length (o1 @ t) < length bufplain"
  shows "Base64decode bufplain bufcoded =
    Inr ((int n + 3) sdiv 4 * 3 - ((4 - int m) AND 3),
      (o1 @ t) @ 0 # drop (Suc (length (o1 @ t))) bufplain)"
  using assms unfolding Base64decode_def by (simp add: memcpy_def)

lemma Base64decode_total:
  assumes "scan_code bufcoded = Inr n" and "(n + 3) div 4 * 3 < length bufplain"
  obtains out where
    "Base64decode bufplain bufcoded =
       Inr (int (length out), out @ 0 # drop (Suc (length out)) bufplain)"
    and "length out \<le> (n + 3) div 4 * 3"
    and "bindR (decode_loop n bufcoded [])
           (\<lambda>(n, b, o'). bindR (decode_tail n b) (\<lambda>t. Inr (o' @ t))) = Inr out"
proof -
  have "n \<le> length bufcoded" using scan_code_bound [OF assms(1)] by simp
  from decode_loop_spec [OF this, of "[]"] obtain m b o1 k where
    l: "decode_loop n bufcoded [] = Inr (m, b, o1)" and m: "m \<le> 4" "m \<le> length b" and
    k: "n = m + 4 * k" "length o1 = 3 * k" "0 < n \<longrightarrow> 0 < m" by auto
  from decode_tail_spec [OF m] obtain t where t: "decode_tail m b = Inr t" "length t = m - 1"
    by blast
  have le: "length (o1 @ t) \<le> (n + 3) div 4 * 3"
  proof -
    have "(n + 3) div 4 = (m + 3) div 4 + k" using k(1) by simp
    moreover have "m - 1 \<le> (m + 3) div 4 * 3" using m(1) by linarith
    ultimately show ?thesis using t(2) k(2) by simp
  qed
  with assms(2) have "length (o1 @ t) < length bufplain" by linarith
  from Base64decode_steps [OF assms(1) l t(1) this] have
    "Base64decode bufplain bufcoded =
       Inr (int (length (o1 @ t)), (o1 @ t) @ 0 # drop (Suc (length (o1 @ t))) bufplain)"
    using decode_result [OF m(1) k(1) k(3)] k(2) t(2) by simp
  with le l t(1) show ?thesis by (intro that [of "o1 @ t"]) simp_all
qed

section \<open>Properties\<close>

text \<open>
  C24: Base64 loses nothing. The string that \<open>Base64encode\<close> writes, in a buffer of
  \<open>Base64encode_len\<close> bytes and with its terminator, is decoded by \<open>Base64decode\<close> to the same
  bytes, in any buffer that has room for them as counted by \<open>Base64decode_len\<close>.
\<close>

theorem base64_roundtrip:
  assumes "length encoded = nat (Base64encode_len (int (length s)))"
    and "(length s + 2) div 3 * 3 < length plain"
  shows "\<exists>coded. Base64encode encoded s (int (length s)) = Inr (int (length coded), coded) \<and>
    length coded = length encoded \<and>
    Base64decode plain coded = Inr (int (length s), s @ 0 # drop (Suc (length s)) plain)"
proof -
  let ?coded = "encode_body s @ [0]"
  have stop: "\<exists>c r. padding s @ [0] = c # r \<and> \<not> pr2six c \<le> 63"
    by (cases "(3 - length s mod 3) mod 3") (simp_all add: padding_def pr2six_stop)
  then have scan: "scan_code ?coded = Inr (length (code_chars s))"
    using scan_code_chars by (auto simp: encode_body_split)
  have "(length (code_chars s) + 3) div 4 = (length s + 2) div 3"
    by (rule code_chars_groups)
  with assms(2) have room: "(length (code_chars s) + 3) div 4 * 3 < length plain" by simp
  from decode_chars [of s "padding s @ [0]" "[]"]
  have dec: "bindR (decode_loop (length (code_chars s)) ?coded [])
     (\<lambda>(n, b, o'). bindR (decode_tail n b) (\<lambda>t. Inr (o' @ t))) = Inr s"
    by (simp add: encode_body_split)
  from Base64decode_total [OF scan room] dec
  have d: "Base64decode plain ?coded = Inr (int (length s), s @ 0 # drop (Suc (length s)) plain)"
    by fastforce
  have len: "length ?coded = length encoded" "int (length ?coded) = Base64encode_len (int (length s))"
    using assms(1) by (simp_all add: encode_body_length Base64encode_len_nat)
  show ?thesis using Base64encode_eq [OF assms(1)] d len by (intro exI [of _ ?coded]) simp
qed

theorem base64_roundtrip_witness:
  "\<exists>coded. Base64encode [0, 0, 0, 0, 0, 0, 0, 0, 0] [0xff, 0, 0x80, 0x41] 4 =
      Inr (int (length coded), coded) \<and>
    length coded = length [0, 0, 0, 0, 0, 0, 0, 0, 0 :: byte] \<and>
    Base64decode [1, 1, 1, 1, 1, 1, 1] coded = Inr (4, [0xff, 0, 0x80, 0x41, 0, 1, 1])"
proof -
  have "Base64encode_len 4 = 9" by (simp add: Base64encode_len_nat [of 4, simplified])
  then show ?thesis
    using base64_roundtrip [of "[0, 0, 0, 0, 0, 0, 0, 0, 0]" "[0xff, 0, 0x80, 0x41]"
        "[1, 1, 1, 1, 1, 1, 1]"] by simp
qed

text \<open>
  C39: decoding is memory safe on every C string, valid Base64 or not: with a buffer of
  \<open>Base64decode_len\<close> bytes the decoder never reads or writes outside of its objects, and the
  return value is the number of bytes before the terminator it has written.
\<close>

theorem Base64decode_safe:
  assumes "c_content s" and "Base64decode_len (s @ 0 # r) = Inr (int (length plain))"
  shows "\<exists>out. Base64decode plain (s @ 0 # r) =
      Inr (int (length out), out @ 0 # drop (Suc (length out)) plain) \<and> length out < length plain"
proof -
  from scan_code_terminated [OF assms(1)] obtain n where n: "scan_code (s @ 0 # r) = Inr n"
    by blast
  have "int n + 3 = int (n + 3)" by simp
  then have d: "(int n + 3) sdiv 4 = int ((n + 3) div 4)" by (simp only: sdiv_nat)
  from assms(2) have "int ((n + 3) div 4) * 3 + 1 = int (length plain)"
    unfolding Base64decode_len_def n bindR_simps d by (simp only: sum.inject)
  then have "(n + 3) div 4 * 3 < length plain" by linarith
  note room = this
  obtain out where
    "Base64decode plain (s @ 0 # r) =
       Inr (int (length out), out @ 0 # drop (Suc (length out)) plain)"
    "length out \<le> (n + 3) div 4 * 3"
    by (rule Base64decode_total [OF n room])
  with room show ?thesis by (intro exI [of _ out] conjI) (assumption, rule le_less_trans)
qed

theorem Base64decode_safe_witness:
  "\<exists>out. Base64decode (replicate 4 7) (bytes_of ''QU!'' @ 0 # []) =
      Inr (int (length out), out @ 0 # drop (Suc (length out)) (replicate 4 7)) \<and>
    length out < length (replicate 4 (7 :: byte))"
proof (rule Base64decode_safe)
  show "c_content (bytes_of ''QU!'')" by (simp add: c_content_def)
  show "Base64decode_len (bytes_of ''QU!'' @ 0 # []) = Inr (int (length (replicate 4 (7 :: byte))))"
    by code_simp
qed

end
