(* ===== verification/Dictionary.thy ===== *)
theory Dictionary
  imports Prelude
begin

text \<open>
  The interface that the two hash tables of the program share (\<^verbatim>\<open>common/hashtable/hashtable.c\<close> and the
  macros of \<^verbatim>\<open>common/uthash/uthash.h\<close>): an operation that adds an element under its key, and one
  that looks a key up. The laws are what their callers rely on; what follows from them is proved
  here once.
\<close>

text \<open>Adding the elements of a list one after the other.\<close>

fun add_all :: "('d \<Rightarrow> 'e \<Rightarrow> 'd res) \<Rightarrow> 'd \<Rightarrow> 'e list \<Rightarrow> 'd res" where
  "add_all add d [] = Inr d"
| "add_all add d (e # es) = bindR (add d e) (\<lambda>d. add_all add d es)"

text \<open>The element that was added last under a key.\<close>

definition last_with :: "('e \<Rightarrow> 'k) \<Rightarrow> 'e list \<Rightarrow> 'k \<Rightarrow> 'e option" where
  "last_with key es k = find (\<lambda>e. key e = k) (rev es)"

lemma last_with_Nil [simp]: "last_with key [] k = None"
  by (simp add: last_with_def)

lemma find_append:
  "find P (xs @ ys) = (case find P xs of None \<Rightarrow> find P ys | Some x \<Rightarrow> Some x)"
  by (induction xs) auto

lemma last_with_notin: "k \<notin> key ` set es \<Longrightarrow> last_with key es k = None"
  by (auto simp: last_with_def find_None_iff)

lemma last_with_Cons:
  "last_with key (e # es) k =
     (case last_with key es k of None \<Rightarrow> if key e = k then Some e else None | Some x \<Rightarrow> Some x)"
  by (simp add: last_with_def find_append split: option.splits)

lemma last_with_map_of: "last_with fst es k = map_option (Pair k) (map_of (rev es) k)"
proof -
  have "find (\<lambda>e. fst e = k) xs = map_option (Pair k) (map_of xs k)" for xs :: "('a \<times> 'b) list"
    by (induction xs) auto
  then show ?thesis by (simp add: last_with_def)
qed

locale keyed_store =
  fixes inv :: "'d \<Rightarrow> bool"
    and key :: "'e \<Rightarrow> 'k"
    and valid :: "'e \<Rightarrow> bool"
    and add :: "'d \<Rightarrow> 'e \<Rightarrow> 'd res"
    and lookup :: "'d \<Rightarrow> 'k \<Rightarrow> 'e option"
  assumes add_ok: "inv d \<Longrightarrow> valid e \<Longrightarrow> \<exists>d'. add d e = Inr d' \<and> inv d'"
    and lookup_add: "inv d \<Longrightarrow> valid e \<Longrightarrow> add d e = Inr d' \<Longrightarrow>
      lookup d' k = (if k = key e then Some e else lookup d k)"
begin

lemma add_all_ok:
  assumes "inv d" and "\<And>e. e \<in> set es \<Longrightarrow> valid e"
  shows "\<exists>d'. add_all add d es = Inr d' \<and> inv d'"
  using assms
proof (induction es arbitrary: d)
  case Nil
  then show ?case by simp
next
  case (Cons e es)
  from add_ok [OF Cons.prems(1), of e] Cons.prems(2) obtain d1 where
    d1: "add d e = Inr d1" "inv d1" by auto
  from Cons.IH [OF d1(2)] Cons.prems(2) d1 show ?case by simp
qed

text \<open>After any sequence of additions a key has its latest element, or what it had before.\<close>

lemma lookup_add_all:
  assumes "inv d" and "\<And>e. e \<in> set es \<Longrightarrow> valid e" and "add_all add d es = Inr d'"
  shows "lookup d' k = (case last_with key es k of None \<Rightarrow> lookup d k | Some e \<Rightarrow> Some e)"
  using assms
proof (induction es arbitrary: d)
  case Nil
  then show ?case by simp
next
  case (Cons e es)
  from add_ok [OF Cons.prems(1), of e] Cons.prems(2) obtain d1 where
    d1: "add d e = Inr d1" "inv d1" by auto
  from Cons.IH [OF d1(2)] Cons.prems d1(1)
  have "lookup d' k = (case last_with key es k of None \<Rightarrow> lookup d1 k | Some x \<Rightarrow> Some x)"
    by simp
  with lookup_add [OF Cons.prems(1) _ d1(1)] Cons.prems(2) show ?case
    by (auto simp: last_with_Cons split: option.splits)
qed

lemma lookup_add_all_distinct:
  assumes "inv d" and "\<And>e. e \<in> set es \<Longrightarrow> valid e" and "add_all add d es = Inr d'"
    and "distinct (map key es)" and "e \<in> set es"
  shows "lookup d' (key e) = Some e"
proof -
  have "last_with key es (key e) = Some e"
    using assms(4,5)
  proof (induction es)
    case (Cons x es)
    then show ?case by (cases "e = x") (auto simp: last_with_Cons last_with_notin)
  qed simp
  with lookup_add_all [OF assms(1-3)] show ?thesis by simp
qed

end

end
