(* ===== verification/HashTable.thy ===== *)
theory HashTable
  imports Dictionary
begin

text \<open>
  The chained hash table of \<^verbatim>\<open>common/hashtable/hashtable.c\<close>. A key is the content of a C string. A
  chain is the list of the elements in the order of its \<open>next\<close> pointers, a pointer to one of its
  nodes is an index into it, and an entry of the array is \<open>None\<close> while it is \<open>NULL\<close>.
\<close>

section \<open>The code\<close>

record 'i elem =
  elem_word :: "byte list"
  elem_info :: 'i

record 'i table =
  table_size :: int
  num_elems :: int
  table_array :: "'i elem list option list"
  table_elem_key :: "'i elem \<Rightarrow> byte list"
  table_equal :: "byte list \<Rightarrow> byte list \<Rightarrow> bool"
  table_hash :: "byte list \<Rightarrow> int \<Rightarrow> int res"

definition MAXINT_CHARS :: nat where "MAXINT_CHARS = 12"

definition elem_key :: "'i elem \<Rightarrow> byte list" where
  "elem_key e = elem_word e"

definition equal :: "byte list \<Rightarrow> byte list \<Rightarrow> bool" where
  "equal s1 s2 = (s1 = s2)"

text \<open>\<open>snprintf(buf, MAXINT_CHARS, "%d", n)\<close>: at most \<open>MAXINT_CHARS - 1\<close> characters.\<close>

definition make_key_by_int :: "32 word \<Rightarrow> byte list" where
  "make_key_by_int n = take (MAXINT_CHARS - 1) (print_int (sint n))"

text \<open>
  The arithmetic is on \<open>unsigned int\<close>; a \<open>char\<close> is signed. \<open>h += m\<close> after \<open>hx = (int)h\<close> does not
  change the result, which is \<open>hx\<close>.
\<close>

fun hash_loop :: "byte list \<Rightarrow> 32 word \<Rightarrow> 32 word \<Rightarrow> 32 word" where
  "hash_loop [] r h = h"
| "hash_loop (c # s) r h = hash_loop s (r * 1664525 + 1013904223) (r * h + scast c)"

definition hash :: "byte list \<Rightarrow> int \<Rightarrow> int res" where
  "hash s m =
     (let h = hash_loop s 0xdeadbeef 0; m' = word_of_int m
      in if m' = 0 then Inl DivByZero else Inr (sint (h mod m')))"

fun chain_find :: "'i table \<Rightarrow> 'i elem list \<Rightarrow> byte list \<Rightarrow> nat option" where
  "chain_find H [] k = None"
| "chain_find H (d # p) k =
     (if table_equal H k (table_elem_key H d) then Some 0 else map_option Suc (chain_find H p k))"

definition chain_insert :: "'i table \<Rightarrow> 'i elem list \<Rightarrow> 'i elem \<Rightarrow> 'i elem option \<times> 'i elem list" where
  "chain_insert H C e =
     (case chain_find H C (table_elem_key H e) of
        None \<Rightarrow> (None, e # C)
      | Some p \<Rightarrow> (Some (C ! p), C[p := e]))"

definition chain_search :: "'i table \<Rightarrow> 'i elem list \<Rightarrow> byte list \<Rightarrow> 'i elem option" where
  "chain_search H C k = map_option (\<lambda>p. C ! p) (chain_find H C k)"

definition is_h_chain :: "'i table \<Rightarrow> 'i elem list option \<Rightarrow> int \<Rightarrow> int \<Rightarrow> bool" where
  "is_h_chain H C h m =
     (case C of None \<Rightarrow> False
      | Some p \<Rightarrow> list_all (\<lambda>d. table_hash H (table_elem_key H d) m = Inr h) p)"

definition is_table :: "'i table \<Rightarrow> bool" where
  "is_table H =
     (let m = table_size H
      in list_all (\<lambda>i. let C = table_array H ! i in C = None \<or> is_h_chain H C (int i) m) [0..<nat m])"

text \<open>\<open>None\<close>: \<open>calloc\<close> of a negative size fails, and \<open>xcalloc\<close> aborts.\<close>

definition table_new :: "int \<Rightarrow> 'i table option" where
  "table_new init_size =
     (if init_size < 0 then None
      else Some \<lparr>table_size = init_size, num_elems = 0,
        table_array = replicate (nat init_size) None,
        table_elem_key = elem_key, table_equal = equal, table_hash = hash\<rparr>)"

text \<open>The entry of the array at index \<open>h\<close>.\<close>

definition entry :: "'i table \<Rightarrow> int \<Rightarrow> 'i elem list option res" where
  "entry H h =
     (if 0 \<le> h \<and> h < int (length (table_array H)) then Inr (table_array H ! nat h) else Inl OobRead)"

text \<open>The result is the element that was overwritten (\<open>NULL\<close> is \<open>None\<close>), and the table.\<close>

definition table_insert :: "'i table \<Rightarrow> 'i elem \<Rightarrow> ('i elem option \<times> 'i table) res" where
  "table_insert H e =
     bindR (table_hash H (table_elem_key H e) (table_size H)) (\<lambda>h.
     bindR (entry H h) (\<lambda>c.
       let C = (case c of None \<Rightarrow> [] | Some C \<Rightarrow> C);
           (old_e, C') = chain_insert H C e;
           H' = H\<lparr>table_array := (table_array H)[nat h := Some C']\<rparr>
       in case old_e of
            Some old \<Rightarrow> Inr (Some old, H')
          | None \<Rightarrow> Inr (None, H'\<lparr>num_elems := num_elems H' + 1\<rparr>)))"

definition table_search :: "'i table \<Rightarrow> byte list \<Rightarrow> 'i elem option res" where
  "table_search H k =
     bindR (table_hash H k (table_size H)) (\<lambda>h.
     bindR (entry H h) (\<lambda>c.
       case c of None \<Rightarrow> Inr None | Some C \<Rightarrow> Inr (chain_search H C k)))"

text \<open>The elements that \<open>table_free\<close> hands to \<open>_elem_free\<close>, in order.\<close>

definition list_free :: "'i elem list \<Rightarrow> 'i elem list" where
  "list_free p = p"

definition chain_free :: "'i elem list \<Rightarrow> 'i elem list" where
  "chain_free C = list_free C"

definition table_free :: "'i table \<Rightarrow> 'i elem list" where
  "table_free H =
     concat (map (\<lambda>i. case table_array H ! i of None \<Rightarrow> [] | Some C \<Rightarrow> chain_free C)
       [0..<nat (table_size H)])"

section \<open>Hash values\<close>

lemma hash_in_range:
  assumes "0 < m" and "m < 2 ^ 31"
  shows "\<exists>h. hash s m = Inr h \<and> 0 \<le> h \<and> h < m"
proof -
  let ?m = "word_of_int m :: 32 word" and ?h = "hash_loop s 0xdeadbeef 0"
  have m: "uint ?m = m" using assms by (simp add: unsigned_of_int take_bit_int_eq_self)
  then have ne: "?m \<noteq> 0" using assms(1) by auto
  have lt: "uint (?h mod ?m) < m" using assms(1) by (simp add: uint_mod m)
  have "- (2 ^ 31) \<le> uint (?h mod ?m)" by (rule order_trans [of _ 0]) simp_all
  moreover have "uint (?h mod ?m) < 2 ^ 31" using lt assms(2) by (rule less_trans)
  ultimately have "sint (?h mod ?m) = uint (?h mod ?m)"
    unfolding sint_uint by (intro signed_take_bit_int_eq_self) simp_all
  with ne lt show ?thesis by (simp add: hash_def Let_def)
qed

section \<open>The invariant and the map of a table\<close>

definition table_wf :: "'i table \<Rightarrow> bool" where
  "table_wf H \<longleftrightarrow> 0 < table_size H \<and> table_size H < 2 ^ 31 \<and>
     int (length (table_array H)) = table_size H \<and>
     table_elem_key H = elem_key \<and> table_equal H = equal \<and> table_hash H = hash \<and>
     is_table H \<and>
     (\<forall>C. Some C \<in> set (table_array H) \<longrightarrow> distinct (map elem_key C)) \<and>
     num_elems H = int (length (table_free H))"

definition table_map :: "'i table \<Rightarrow> byte list \<Rightarrow> 'i elem option" where
  "table_map H k = (case table_search H k of Inr r \<Rightarrow> r | Inl _ \<Rightarrow> None)"

definition the_chain :: "'i elem list option \<Rightarrow> 'i elem list" where
  "the_chain c = (case c of None \<Rightarrow> [] | Some C \<Rightarrow> C)"

lemma the_chain_simps [simp]: "the_chain None = []" "the_chain (Some C) = C"
  by (simp_all add: the_chain_def)

text \<open>A chain with distinct keys is a map.\<close>

definition chain_map :: "'i elem list \<Rightarrow> byte list \<Rightarrow> 'i elem option" where
  "chain_map C k = find (\<lambda>d. elem_key d = k) C"

lemma chain_map_simps [simp]:
  "chain_map [] k = None"
  "chain_map (d # C) k = (if elem_key d = k then Some d else chain_map C k)"
  by (simp_all add: chain_map_def)

lemma chain_find_spec:
  assumes "table_elem_key H = elem_key" and "table_equal H = equal"
  shows "case chain_find H C k of
      None \<Rightarrow> k \<notin> elem_key ` set C
    | Some p \<Rightarrow> p < length C \<and> elem_key (C ! p) = k \<and> chain_map C k = Some (C ! p) \<and>
        (\<forall>q<p. elem_key (C ! q) \<noteq> k)"
proof (induction C)
  case Nil
  then show ?case by simp
next
  case (Cons d C)
  then show ?case using assms
    by (auto simp: equal_def nth_Cons split: option.splits nat.splits)
qed

lemma chain_map_None:
  "chain_map C k = None \<longleftrightarrow> k \<notin> elem_key ` set C"
  "None = chain_map C k \<longleftrightarrow> k \<notin> elem_key ` set C"
  by (auto simp: chain_map_def find_None_iff find_None_iff2)

lemma chain_search_map:
  assumes "table_elem_key H = elem_key" and "table_equal H = equal"
  shows "chain_search H C k = chain_map C k"
  using chain_find_spec [OF assms, where C = C and k = k]
  by (auto simp: chain_search_def chain_map_None split: option.splits)

lemma chain_map_update:
  assumes "p < length C" and "elem_key (C ! p) = elem_key e"
    and "\<forall>q<p. elem_key (C ! q) \<noteq> elem_key e"
  shows "chain_map (C[p := e]) k = (if k = elem_key e then Some e else chain_map C k)"
  using assms
proof (induction C arbitrary: p)
  case Nil
  then show ?case by simp
next
  case (Cons d C)
  show ?case
  proof (cases p)
    case 0
    with Cons.prems show ?thesis by auto
  next
    case (Suc q)
    with Cons.prems have "elem_key d \<noteq> elem_key e" "\<forall>r<q. elem_key (C ! r) \<noteq> elem_key e"
      by force+
    with Cons Suc show ?thesis by auto
  qed
qed

text \<open>What the insertion does to a chain.\<close>

lemma chain_insert_conj:
  assumes "table_elem_key H = elem_key" and "table_equal H = equal"
    and "distinct (map elem_key C)" and "chain_insert H C e = (old, C')"
  shows "old = chain_map C (elem_key e) \<and>
    (\<forall>k. chain_map C' k = (if k = elem_key e then Some e else chain_map C k)) \<and>
    distinct (map elem_key C') \<and>
    elem_key ` set C' = insert (elem_key e) (elem_key ` set C) \<and>
    length C' = length C + (if old = None then 1 else 0)"
proof (cases "chain_find H C (elem_key e)")
  case None
  with chain_find_spec [OF assms(1,2), where C = C and k = "elem_key e"]
  have n: "elem_key e \<notin> elem_key ` set C" by simp
  with assms None show ?thesis by (auto simp: chain_insert_def chain_map_None)
next
  case (Some p)
  with chain_find_spec [OF assms(1,2), where C = C and k = "elem_key e"] have
    p: "p < length C" "elem_key (C ! p) = elem_key e" "chain_map C (elem_key e) = Some (C ! p)"
      "\<forall>q<p. elem_key (C ! q) \<noteq> elem_key e" by auto
  have keys: "map elem_key (C[p := e]) = map elem_key C"
    by (metis list_update_id map_update p(2))
  then have "elem_key ` set (C[p := e]) = elem_key ` set C" by (metis list.set_map)
  moreover have "elem_key e \<in> elem_key ` set C" using p(1,2) by (metis image_eqI nth_mem)
  moreover from assms Some have "old = Some (C ! p)" "C' = C[p := e]"
    by (auto simp: chain_insert_def)
  ultimately show ?thesis
    using p keys assms(3) chain_map_update [OF p(1,2,4)] by (simp add: insert_absorb)
qed

lemmas chain_insert_old = chain_insert_conj [THEN conjunct1]
lemmas chain_insert_map = chain_insert_conj [THEN conjunct2, THEN conjunct1, THEN spec]
lemmas chain_insert_distinct = chain_insert_conj [THEN conjunct2, THEN conjunct2, THEN conjunct1]
lemmas chain_insert_keys =
  chain_insert_conj [THEN conjunct2, THEN conjunct2, THEN conjunct2, THEN conjunct1]
lemmas chain_insert_length =
  chain_insert_conj [THEN conjunct2, THEN conjunct2, THEN conjunct2, THEN conjunct2]

lemmas chain_insert_spec = chain_insert_old chain_insert_map chain_insert_distinct
  chain_insert_keys chain_insert_length

text \<open>The invariant, entry by entry.\<close>

lemma is_table_iff:
  assumes "table_elem_key H = elem_key" and "table_hash H = hash"
    and "int (length (table_array H)) = table_size H"
  shows "is_table H \<longleftrightarrow> (\<forall>i<length (table_array H). \<forall>k\<in>elem_key ` set (the_chain (table_array H ! i)).
    hash k (table_size H) = Inr (int i))"
proof -
  have n: "nat (table_size H) = length (table_array H)" using assms(3) by simp
  have "C = None \<or> is_h_chain H C h m \<longleftrightarrow> (\<forall>k\<in>elem_key ` set (the_chain C). hash k m = Inr h)"
    for C h m
    using assms(1,2) by (cases C) (simp_all add: is_h_chain_def list_all_iff)
  then show ?thesis unfolding is_table_def n Let_def list_all_iff by auto
qed

lemma table_wfD:
  assumes "table_wf H"
  shows "0 < table_size H" "table_size H < 2 ^ 31"
    "int (length (table_array H)) = table_size H"
    "table_elem_key H = elem_key" "table_equal H = equal" "table_hash H = hash" "is_table H"
    "i < length (table_array H) \<Longrightarrow> distinct (map elem_key (the_chain (table_array H ! i)))"
    "num_elems H = int (length (table_free H))"
  using assms unfolding table_wf_def
  by (auto simp: the_chain_def split: option.splits) (metis nth_mem)

lemma table_free_chains:
  assumes "int (length (table_array H)) = table_size H"
  shows "table_free H = concat (map the_chain (table_array H))"
proof -
  have n: "nat (table_size H) = length (table_array H)" using assms by simp
  have "map (\<lambda>i. the_chain (table_array H ! i)) [0..<length (table_array H)] =
      map the_chain (table_array H)"
    by (intro nth_equalityI) simp_all
  moreover have "(case c of None \<Rightarrow> [] | Some C \<Rightarrow> chain_free C) = the_chain c"
    for c :: "'a elem list option"
    by (cases c) (simp_all add: chain_free_def list_free_def)
  ultimately show ?thesis unfolding table_free_def n by simp
qed

lemma bucket:
  assumes "table_wf H"
  obtains h where "hash k (table_size H) = Inr h" and "entry H h = Inr (table_array H ! nat h)"
    and "nat h < length (table_array H)" and "0 \<le> h"
    and "table_search H k = Inr (chain_map (the_chain (table_array H ! nat h)) k)"
    and "table_map H k = chain_map (the_chain (table_array H ! nat h)) k"
proof -
  note wf = table_wfD [OF assms]
  from hash_in_range [OF wf(1,2)] obtain h where
    h: "hash k (table_size H) = Inr h" "0 \<le> h" "h < table_size H" by blast
  with wf(3) have e: "entry H h = Inr (table_array H ! nat h)" "nat h < length (table_array H)"
    by (simp_all add: entry_def)
  then have "table_search H k = Inr (chain_map (the_chain (table_array H ! nat h)) k)"
    using h wf(6) chain_search_map [OF wf(4,5)]
    by (auto simp: table_search_def split: option.splits)
  then show ?thesis using h e by (intro that) (simp_all add: table_map_def)
qed

lemma length_concat_update:
  assumes "h < length A"
  shows "length (concat (map the_chain (A[h := Some C]))) + length (the_chain (A ! h)) =
    length (concat (map the_chain A)) + length C"
proof -
  obtain B D where "concat (map the_chain A) = B @ the_chain (A ! h) @ D"
    "\<And>y. concat (map the_chain (A[h := y])) = B @ the_chain y @ D"
    using concat_map_update [OF assms, of the_chain] by blast
  then show ?thesis by simp
qed

text \<open>An insertion, as a whole.\<close>

lemma table_insert_spec:
  assumes "table_wf H"
  shows "\<exists>H'. table_insert H e = Inr (table_map H (elem_key e), H') \<and> table_wf H' \<and>
    table_map H' = (table_map H)(elem_key e \<mapsto> e) \<and> table_size H' = table_size H"
proof -
  note wf = table_wfD [OF assms]
  note hs = is_table_iff [THEN iffD1, OF wf(4,6,3,7)]
  obtain h where h: "hash (elem_key e) (table_size H) = Inr h"
      "entry H h = Inr (table_array H ! nat h)" "nat h < length (table_array H)" "0 \<le> h"
      "table_map H (elem_key e) = chain_map (the_chain (table_array H ! nat h)) (elem_key e)"
    by (rule bucket [OF assms])
  let ?C = "the_chain (table_array H ! nat h)"
  obtain old C' where ins: "chain_insert H ?C e = (old, C')" by force
  note c = chain_insert_spec [OF wf(4,5) wf(8) [OF h(3)] ins]
  define H' where "H' = H\<lparr>table_array := (table_array H)[nat h := Some C'],
    num_elems := num_elems H + (if old = None then 1 else 0)\<rparr>"
  have res: "table_insert H e = Inr (table_map H (elem_key e), H')"
  proof -
    have "(case table_array H ! nat h of None \<Rightarrow> [] | Some C \<Rightarrow> C) = ?C"
      by (simp add: the_chain_def)
    moreover have "table_map H (elem_key e) = old" using h(5) c(1) by simp
    ultimately show ?thesis using h(1-3) wf(4,6) ins
      by (cases old) (simp_all add: table_insert_def H'_def Let_def)
  qed
  have fields: "table_size H' = table_size H" "table_elem_key H' = elem_key"
    "table_equal H' = equal" "table_hash H' = hash"
    "table_array H' = (table_array H)[nat h := Some C']"
    using wf by (simp_all add: H'_def)
  have len: "int (length (table_array H')) = table_size H'" using wf(3) fields by simp
  have wf': "table_wf H'"
  proof -
    have "is_table H'"
    proof (unfold is_table_iff [OF fields(2,4) len] fields(1,5), intro allI impI ballI)
      fix i k
      assume i: "i < length ((table_array H)[nat h := Some C'])"
        and k: "k \<in> elem_key ` set (the_chain ((table_array H)[nat h := Some C'] ! i))"
      show "hash k (table_size H) = Inr (int i)"
      proof (cases "i = nat h")
        case True
        with i k c(4) have "k = elem_key e \<or> k \<in> elem_key ` set ?C" by auto
        with True h(1,3,4) hs show ?thesis by auto
      next
        case False
        with i k hs show ?thesis by auto
      qed
    qed
    moreover have "distinct (map elem_key C)" if "Some C \<in> set (table_array H')" for C
    proof -
      from that fields(5) obtain i where i: "i < length (table_array H)"
        "(table_array H)[nat h := Some C'] ! i = Some C" by (auto simp: in_set_conv_nth)
      with c(3) wf(8) [OF i(1)] show ?thesis by (cases "i = nat h") auto
    qed
    moreover have "num_elems H' = int (length (table_free H'))"
      using wf(9) length_concat_update [OF h(3), of C'] c(5)
      unfolding table_free_chains [OF len] table_free_chains [OF wf(3)] fields
      by (auto simp: H'_def split: if_splits)
    ultimately show ?thesis using wf fields len by (simp add: table_wf_def)
  qed
  have "table_map H' k = (if k = elem_key e then Some e else table_map H k)" for k
  proof -
    obtain g where g: "hash k (table_size H) = Inr g" "nat g < length (table_array H)" "0 \<le> g"
        "table_map H k = chain_map (the_chain (table_array H ! nat g)) k"
      by (rule bucket [OF assms])
    obtain g' where "hash k (table_size H') = Inr g'"
        "table_map H' k = chain_map (the_chain (table_array H' ! nat g')) k"
      by (rule bucket [OF wf'])
    with g fields have m: "table_map H' k =
        chain_map (the_chain ((table_array H)[nat h := Some C'] ! nat g)) k" by simp
    show ?thesis
    proof (cases "nat g = nat h")
      case True
      with m g h c(2) [of k] show ?thesis by simp
    next
      case False
      then have "k \<noteq> elem_key e" using g(1) h(1) by auto
      with m g False show ?thesis by simp
    qed
  qed
  with res wf' fields(1) show ?thesis by (auto simp: fun_eq_iff)
qed

lemma table_new_wf:
  assumes "0 < n" and "n < 2 ^ 31"
  shows "\<exists>H. table_new n = Some H \<and> table_wf H \<and> table_map H = Map.empty \<and> table_size H = n"
proof -
  let ?H = "\<lparr>table_size = n, num_elems = 0, table_array = replicate (nat n) None,
    table_elem_key = elem_key, table_equal = equal, table_hash = hash\<rparr> :: 'a table"
  have wf: "table_wf ?H"
    using assms by (auto simp: table_wf_def is_table_def list_all_iff table_free_def)
  have "table_map ?H k = None" for k
    by (rule bucket [OF wf, of k]) simp
  with wf assms show ?thesis by (auto simp: table_new_def fun_eq_iff)
qed

text \<open>The elements of a table.\<close>

lemma chain_map_in:
  "distinct (map elem_key C) \<Longrightarrow> chain_map C k = Some e \<longleftrightarrow> e \<in> set C \<and> elem_key e = k"
  by (induction C) (auto simp: image_iff)

lemma in_buckets:
  "x \<in> set (concat (map f A)) \<longleftrightarrow> (\<exists>i<length A. x \<in> set (f (A ! i)))"
  by (simp add: set_conv_nth [of A]) blast

lemma table_map_iff:
  assumes "table_wf H"
  shows "table_map H k = Some e \<longleftrightarrow> e \<in> set (table_free H) \<and> elem_key e = k"
proof -
  note wf = table_wfD [OF assms]
  note hs = is_table_iff [THEN iffD1, OF wf(4,6,3,7)]
  obtain h where h: "hash k (table_size H) = Inr h" "nat h < length (table_array H)" "0 \<le> h"
      "table_map H k = chain_map (the_chain (table_array H ! nat h)) k"
    by (rule bucket [OF assms])
  have "e \<in> set (the_chain (table_array H ! nat h))"
    if "i < length (table_array H)" "e \<in> set (the_chain (table_array H ! i))" "elem_key e = k" for i
    using that hs h(1) by fastforce
  then have "(\<exists>i<length (table_array H). e \<in> set (the_chain (table_array H ! i)) \<and> elem_key e = k) \<longleftrightarrow>
      e \<in> set (the_chain (table_array H ! nat h)) \<and> elem_key e = k"
    using h(2) by blast
  then show ?thesis
    unfolding h(4) chain_map_in [OF wf(8) [OF h(2)]] table_free_chains [OF wf(3)] in_buckets
    by blast
qed

lemma distinct_buckets:
  assumes "\<And>i. i < length A \<Longrightarrow> distinct (map f (A ! i))"
    and "\<And>i x. i < length A \<Longrightarrow> x \<in> set (A ! i) \<Longrightarrow> g (f x) = n + i"
  shows "distinct (map f (concat A))"
  using assms
proof (induction A arbitrary: n)
  case Nil
  then show ?case by simp
next
  case (Cons C A)
  have "distinct (map f (concat A))"
  proof (rule Cons.IH [of "Suc n"])
    show "distinct (map f (A ! i))" if "i < length A" for i
      using Cons.prems(1) [of "Suc i"] that by simp
    show "g (f x) = Suc n + i" if "i < length A" "x \<in> set (A ! i)" for i x
      using Cons.prems(2) [of "Suc i" x] that by simp
  qed
  moreover have "distinct (map f C)" using Cons.prems(1) [of 0] by simp
  moreover have "f x \<noteq> f y" if x: "x \<in> set C" and y: "D \<in> set A" "y \<in> set D" for x y D
  proof -
    from y obtain i where "i < length A" "y \<in> set (A ! i)" by (metis in_set_conv_nth)
    then have "g (f y) = n + Suc i" using Cons.prems(2) [of "Suc i" y] by simp
    moreover have "g (f x) = n" using Cons.prems(2) [of 0 x] x by simp
    ultimately show ?thesis by auto
  qed
  ultimately show ?case by fastforce
qed

lemma table_free_distinct:
  assumes "table_wf H"
  shows "distinct (map elem_key (table_free H))"
proof -
  note wf = table_wfD [OF assms]
  note hs = is_table_iff [THEN iffD1, OF wf(4,6,3,7)]
  show ?thesis unfolding table_free_chains [OF wf(3)]
  proof (rule distinct_buckets)
    show "distinct (map elem_key (map the_chain (table_array H) ! i))"
      if "i < length (map the_chain (table_array H))" for i
      using that wf(8) by simp
    show "(\<lambda>k. nat (projr (hash k (table_size H)))) (elem_key x) = 0 + i"
      if "i < length (map the_chain (table_array H))" "x \<in> set (map the_chain (table_array H) ! i)"
      for i x
      using that hs by simp
  qed
qed

lemma num_elems_card:
  assumes "table_wf H"
  shows "num_elems H = int (card (dom (table_map H)))"
proof -
  have "dom (table_map H) = set (map elem_key (table_free H))"
    using table_map_iff [OF assms] by (auto simp: dom_def)
  with table_free_distinct [OF assms] table_wfD(9) [OF assms] show ?thesis
    by (metis distinct_card length_map)
qed

section \<open>The table is a dictionary\<close>

definition table_add :: "'i table \<Rightarrow> 'i elem \<Rightarrow> 'i table res" where
  "table_add H e = bindR (table_insert H e) (\<lambda>(old, H'). Inr H')"

interpretation ht: keyed_store table_wf elem_key "\<lambda>_. True" table_add table_map
proof
  show "\<exists>d'. table_add d e = Inr d' \<and> table_wf d'" if "table_wf d" for d and e :: "'a elem"
    using table_insert_spec [OF that, of e] by (auto simp: table_add_def)
  show "table_map d' k = (if k = elem_key e then Some e else table_map d k)"
    if "table_wf d" "table_add d e = Inr d'" for d and e :: "'a elem" and d' k
    using table_insert_spec [OF that(1), of e] that(2) by (auto simp: table_add_def)
qed

section \<open>Properties\<close>

text \<open>
  C26: an insertion into a well-formed table never leaves the array, keeps the table well formed
  (every element in the chain of its hash value, no key twice, \<open>num_elems\<close> the number of keys),
  returns the element it replaces, and is the update of the map that \<open>table_search\<close> shows.
\<close>

theorem table_insert_refines_map:
  assumes "table_wf H"
  shows "\<exists>H'. table_insert H e = Inr (table_map H (elem_key e), H') \<and> table_wf H' \<and>
    (\<forall>k. table_search H' k = Inr (((table_map H)(elem_key e \<mapsto> e)) k)) \<and>
    num_elems H' = num_elems H + (if elem_key e \<in> dom (table_map H) then 0 else 1)"
proof -
  from table_insert_spec [OF assms, of e] obtain H' where
    H': "table_insert H e = Inr (table_map H (elem_key e), H')" "table_wf H'"
      "table_map H' = (table_map H)(elem_key e \<mapsto> e)" by blast
  have "table_search H' k = Inr (table_map H' k)" for k
    by (rule bucket [OF H'(2), of k]) simp
  moreover have "finite (dom (table_map H))"
  proof -
    have "dom (table_map H) \<subseteq> elem_key ` set (table_free H)"
      using table_map_iff [OF assms] by (auto simp: dom_def)
    then show ?thesis by (rule finite_subset) simp
  qed
  ultimately show ?thesis using H' num_elems_card [OF assms] num_elems_card [OF H'(2)]
    by (auto simp: card_insert_if insert_absorb)
qed

definition sample_table :: "nat table" where
  "sample_table = the (table_new 2)"

lemma sample_table_wf: "table_wf sample_table" "table_map sample_table = Map.empty"
  using table_new_wf [of 2, where 'a = nat] by (auto simp: sample_table_def)

theorem table_insert_refines_map_witness:
  "\<exists>H'. table_insert sample_table \<lparr>elem_word = [97], elem_info = 5\<rparr> = Inr (None, H') \<and>
    table_search H' [97] = Inr (Some \<lparr>elem_word = [97], elem_info = 5\<rparr>) \<and> table_search H' [98] = Inr None"
  using table_insert_refines_map [OF sample_table_wf(1), of "\<lparr>elem_word = [97], elem_info = 5\<rparr>"]
  by (auto simp: sample_table_wf elem_key_def)

text \<open>
  A new table of any size that fits an \<open>int\<close>, filled by any sequence of insertions, gives for
  every key the element that was inserted last under it, and nothing for the other keys;
  \<open>table_free\<close> then frees every element that can be found, each of them once.
\<close>

theorem table_inserts_search:
  assumes "0 < n" and "n < 2 ^ 31"
  shows "\<exists>H H'. table_new n = Some H \<and> add_all table_add H es = Inr H' \<and>
    (\<forall>k. table_search H' k = Inr (last_with elem_key es k)) \<and>
    distinct (map elem_key (table_free H')) \<and> set (table_free H') = ran (last_with elem_key es)"
proof -
  from table_new_wf [OF assms] obtain H :: "'a table" where
    H: "table_new n = Some H" "table_wf H" "table_map H = Map.empty" by blast
  from ht.add_all_ok [OF H(2), of es] obtain H' where
    H': "add_all table_add H es = Inr H'" "table_wf H'" by blast
  from ht.lookup_add_all [OF H(2) _ H'(1)] H(3) have m: "table_map H' = last_with elem_key es"
    by (auto simp: fun_eq_iff split: option.splits)
  have "table_search H' k = Inr (table_map H' k)" for k
    by (rule bucket [OF H'(2), of k]) simp
  moreover have "set (table_free H') = ran (table_map H')"
    using table_map_iff [OF H'(2)] by (auto simp: ran_def)
  ultimately show ?thesis using H(1) H' m table_free_distinct [OF H'(2)] by auto
qed

theorem table_inserts_search_witness:
  "\<exists>H H'. table_new 7 = Some H \<and>
    add_all table_add H [\<lparr>elem_word = [97], elem_info = (1::nat)\<rparr>, \<lparr>elem_word = [97], elem_info = 2\<rparr>] = Inr H' \<and>
    table_search H' [97] = Inr (Some \<lparr>elem_word = [97], elem_info = 2\<rparr>)"
proof -
  have "last_with elem_key [\<lparr>elem_word = [97], elem_info = (1::nat)\<rparr>, \<lparr>elem_word = [97], elem_info = 2\<rparr>]
      [97] = Some \<lparr>elem_word = [97], elem_info = 2\<rparr>"
    by (simp add: last_with_def elem_key_def)
  then show ?thesis
    using table_inserts_search [of 7 "[\<lparr>elem_word = [97], elem_info = (1::nat)\<rparr>, \<lparr>elem_word = [97], elem_info = 2\<rparr>]"]
    by fastforce
qed

text \<open>
  The key that \<open>make_key_by_int\<close> prints for a 32-bit integer is never cut by its buffer of
  \<open>MAXINT_CHARS\<close> bytes, so two integers never share a key.
\<close>

theorem make_key_by_int_inj: "make_key_by_int a = make_key_by_int b \<longleftrightarrow> a = b"
proof -
  have "make_key_by_int n = print_int (sint n)" for n
  proof -
    have "- (2 ^ 31) \<le> sint n" "sint n < 2 ^ 31"
      using sint_greater_eq [of n] sint_less [of n] by simp_all
    from print_int_length [OF this] show ?thesis
      by (simp add: make_key_by_int_def MAXINT_CHARS_def)
  qed
  then show ?thesis by (simp add: print_int_inj inj_eq [OF inj_signed])
qed

end
