(* ===== verification/Posix.thy ===== *)
theory Posix
  imports Prelude
begin

text \<open>
  The operating system as the sources see it. A call that may block, fail or be interrupted gets
  its answer from the environment. The environment is a finite script: for a socket that is read,
  the list of what the kernel has to offer at each turn, in the order in which it arrives.
\<close>

section \<open>Error numbers and the receiving side of a socket\<close>

datatype errno = EINTR | EAGAIN | EPIPE | EADDRINUSE | EOTHER

datatype rx =
    RxData "byte list" \<comment> \<open>bytes that have arrived\<close>
  | RxFail errno       \<comment> \<open>a signal (EINTR), nothing to read yet (EAGAIN), or an error\<close>
  | RxEof              \<comment> \<open>the peer has closed its side\<close>

datatype answer = Got "byte list" | Fail errno

text \<open>
  \<open>read(fd, buf, n)\<close> on a non-blocking socket. A chunk that does not fit stays, in part, in the
  kernel; the end of the stream is final; when the script is over there is nothing to read.
\<close>

fun os_read :: "rx list \<Rightarrow> nat \<Rightarrow> answer \<times> rx list" where
  "os_read [] n = (Fail EAGAIN, [])"
| "os_read (RxData ds # s) n =
     (if length ds \<le> n then (Got ds, s) else (Got (take n ds), RxData (drop n ds) # s))"
| "os_read (RxFail e # s) n = (Fail e, s)"
| "os_read (RxEof # s) n = (Got [], RxEof # s)"

text \<open>\<open>recv(fd, buf, n, MSG_PEEK)\<close>: the bytes stay in the kernel.\<close>

fun os_peek :: "rx list \<Rightarrow> nat \<Rightarrow> answer \<times> rx list" where
  "os_peek [] n = (Fail EAGAIN, [])"
| "os_peek (RxData ds # s) n = (Got (take n ds), RxData ds # s)"
| "os_peek (RxFail e # s) n = (Fail e, s)"
| "os_peek (RxEof # s) n = (Got [], RxEof # s)"

fun rx_size :: "rx list \<Rightarrow> nat" where
  "rx_size [] = 0"
| "rx_size (RxData ds # s) = Suc (length ds) + rx_size s"
| "rx_size (x # s) = Suc (rx_size s)"

text \<open>
  The bytes that arrive before the reader has to stop (nothing there yet, an error, or the end
  of the stream), whatever their chunks and the signals in between; and what stops it.
\<close>

fun rx_stream :: "rx list \<Rightarrow> byte list" where
  "rx_stream (RxData ds # s) = (if ds = [] then [] else ds @ rx_stream s)"
| "rx_stream (RxFail e # s) = (if e = EINTR then rx_stream s else [])"
| "rx_stream _ = []"

fun rx_stop :: "rx list \<Rightarrow> errno option" where
  "rx_stop (RxData ds # s) = (if ds = [] then None else rx_stop s)"
| "rx_stop (RxFail e # s) = (if e = EINTR then rx_stop s else Some e)"
| "rx_stop (RxEof # s) = None"
| "rx_stop [] = Some EAGAIN"

lemma os_read_length: "os_read s n = (Got ds, s') \<Longrightarrow> length ds \<le> n"
  by (cases "(s, n)" rule: os_read.cases) (auto split: if_splits)

lemma os_read_size_intr [termination_simp]:
  "(Fail EINTR, s') = os_read s n \<Longrightarrow> rx_size s' < rx_size s"
  by (cases "(s, n)" rule: os_read.cases) (auto split: if_splits)

lemma os_read_size_got [termination_simp]:
  "(Got ds, s') = os_read s n \<Longrightarrow> 0 < n \<Longrightarrow> ds \<noteq> [] \<Longrightarrow> rx_size s' < rx_size s"
  by (cases "(s, n)" rule: os_read.cases) (auto split: if_splits)

text \<open>What a call does to the bytes that are still to come.\<close>

lemma os_read_got:
  "os_read s n = (Got ds, s') \<Longrightarrow> ds \<noteq> [] \<Longrightarrow>
     rx_stream s = ds @ rx_stream s' \<and> rx_stop s' = rx_stop s \<and> length ds \<le> n"
  by (cases "(s, n)" rule: os_read.cases) (auto split: if_splits)

lemma os_read_intr:
  "os_read s n = (Fail EINTR, s') \<Longrightarrow> rx_stream s' = rx_stream s \<and> rx_stop s' = rx_stop s"
  by (cases "(s, n)" rule: os_read.cases) (auto split: if_splits)

lemma os_read_fail:
  "os_read s n = (Fail e, s') \<Longrightarrow> e \<noteq> EINTR \<Longrightarrow> rx_stream s = [] \<and> rx_stop s = Some e"
  by (cases "(s, n)" rule: os_read.cases) (auto split: if_splits)

lemma os_read_eof:
  "os_read s n = (Got [], s') \<Longrightarrow> 0 < n \<Longrightarrow> rx_stream s = [] \<and> rx_stop s = None"
  by (cases "(s, n)" rule: os_read.cases) (auto split: if_splits)

end
