(* ===== verification/Frame.thy ===== *)
theory Frame
  imports Posix
begin

text \<open>
  The client frame (\<^verbatim>\<open>proxy_server/threadpool/aidsock.c\<close>): a two-byte length in network order, then
  that many bytes. The conversions of the length, the reading of exactly \<open>n\<close> bytes from a
  non-blocking socket, and the reading of one frame.
\<close>

section \<open>The code\<close>

definition HEADSIZE :: nat where "HEADSIZE = 2"

fun convert_hex_loop :: "byte list \<Rightarrow> nat \<Rightarrow> int \<Rightarrow> int res" where
  "convert_hex_loop szBuf 0 value = Inr value"
| "convert_hex_loop [] (Suc n) value = Inl OobRead"
| "convert_hex_loop (b # bs) (Suc n) value =
     (let bit = uint b in
      if bit > 255 \<or> bit < 0 then Inr 0
      else convert_hex_loop bs n (value * 256 + bit))"

definition convert_hex_to_int :: "byte list \<Rightarrow> nat \<Rightarrow> int res" where
  "convert_hex_to_int szBuf headSize = convert_hex_loop szBuf headSize 0"

definition convert_int_to_hex :: "32 word \<Rightarrow> byte list \<Rightarrow> (bool \<times> byte list) res" where
  "convert_int_to_hex value buf =
     (if value > 0xffff then Inr (False, buf)
      else bindR (memcpy buf 0 (replicate HEADSIZE 0) HEADSIZE) (\<lambda>buf.
        if value \<le> 0xff
        then bindR (wr buf 1 (ucast value)) (\<lambda>buf. Inr (True, buf))
        else bindR (wr buf 0 (ucast (value div 256))) (\<lambda>buf.
             bindR (wr buf 1 (ucast (value mod 256))) (\<lambda>buf. Inr (True, buf)))))"

text \<open>
  \<open>recv_peek\<close> tries again, at most ten times, when a signal interrupts it. The result is the
  return value and the bytes that are now in \<open>buf\<close>.
\<close>

fun recv_peek_loop :: "nat \<Rightarrow> int \<Rightarrow> rx list \<Rightarrow> nat \<Rightarrow> int \<times> byte list \<times> rx list" where
  "recv_peek_loop 0 ret s len = (ret, [], s)"
| "recv_peek_loop (Suc idx) ret s len =
     (case os_peek s len of
        (Got ds, s') \<Rightarrow> (int (length ds), ds, s')
      | (Fail e, s') \<Rightarrow>
          if e = EINTR then recv_peek_loop idx (-1) s' len else (-1, [], s'))"

definition recv_peek :: "rx list \<Rightarrow> nat \<Rightarrow> int \<times> byte list \<times> rx list" where
  "recv_peek s len = recv_peek_loop 10 0 s len"

text \<open>
  \<open>readn\<close>: \<open>done\<close> is what lies between \<open>buf\<close> and \<open>pBuf\<close>, \<open>nLeft\<close> the rest of the count. The
  result is the return value, the bytes written to \<open>buf\<close> and the socket afterwards.
\<close>

function readn_loop :: "rx list \<Rightarrow> nat \<Rightarrow> byte list \<Rightarrow> int \<times> byte list \<times> rx list" where
  "readn_loop s nLeft done =
     (if nLeft = 0 then (int (length done), done, s)
      else case os_read s nLeft of
        (Fail e, s') \<Rightarrow>
          if e = EINTR then readn_loop s' nLeft done
          else if e \<noteq> EAGAIN then (-1, done, s')
          else (int (length done), done, s')
      | (Got ds, s') \<Rightarrow>
          if ds = [] then (int (length done), done, s')
          else readn_loop s' (nLeft - length ds) (done @ ds))"
  by pat_completeness auto
termination
  by (relation "measure (\<lambda>(s, n, d). rx_size s)") (simp_all add: termination_simp)

declare readn_loop.simps [simp del]

definition readn :: "rx list \<Rightarrow> nat \<Rightarrow> int \<times> byte list \<times> rx list" where
  "readn s count = readn_loop s count []"

text \<open>
  \<open>read_normal_sock\<close>: the return value, the buffer it hands over (\<open>None\<close>: \<open>*szBuf\<close> is left alone)
  and the socket. \<open>p\<close> is zeroed by \<open>calloc\<close>, so what \<open>readn\<close> did not fill is zero.
\<close>

definition read_normal_sock :: "rx list \<Rightarrow> (int \<times> byte list option \<times> rx list) res" where
  "read_normal_sock s =
     (let (nbytes, hd, s1) = recv_peek s HEADSIZE;
          szHeadBuf = hd @ replicate (HEADSIZE + 1 - length hd) 0
      in if nbytes \<le> 0 then Inr (nbytes, None, s1)
         else bindR (convert_hex_to_int szHeadBuf HEADSIZE) (\<lambda>nLeft.
           if nLeft \<le> 0 then Inr (-1, None, s1)
           else let nLeft' = nat nLeft + HEADSIZE;
                    (nRead, bs, s2) = readn s1 nLeft'
                in Inr (nRead, Some (bs @ replicate (nLeft' - length bs) 0), s2)))"

section \<open>The length field\<close>

lemma convert_hex_to_int_2:
  "convert_hex_to_int (b0 # b1 # bs) HEADSIZE = Inr (uint b0 * 256 + uint b1)"
proof -
  have "\<not> 255 < uint b" for b :: byte
    using unsigned_less [of b, where 'a = int] by simp
  then show ?thesis
    by (simp add: convert_hex_to_int_def numeral_2_eq_2 Let_def HEADSIZE_def)
qed

lemma convert_int_to_hex_eq:
  "convert_int_to_hex v (b0 # b1 # bs) =
     (if unat v \<le> 0xffff
      then Inr (True, ucast (v div 256) # ucast (v mod 256) # bs)
      else Inr (False, b0 # b1 # bs))"
proof (cases "unat v \<le> 0xffff")
  case False
  then have "v > 0xffff" by (simp add: word_less_nat_alt not_le)
  with False show ?thesis by (simp add: convert_int_to_hex_def)
next
  case True
  then have "\<not> v > 0xffff" by (simp add: word_less_nat_alt)
  then have two: "convert_int_to_hex v (b0 # b1 # bs) =
      Inr (True, (if v \<le> 0xff then [0, ucast v] else [ucast (v div 256), ucast (v mod 256)]) @ bs)"
    by (simp add: convert_int_to_hex_def HEADSIZE_def mem_simps numeral_2_eq_2)
  show ?thesis
  proof (cases "v \<le> 0xff")
    case small: True
    then have "unat v < 256" by (simp add: word_le_nat_alt)
    then have "v div 256 = 0" "v mod 256 = v"
      by (simp_all add: word_unat_eq_iff unat_div unat_mod)
    with True two small show ?thesis by simp
  next
    case False
    with True two show ?thesis by simp
  qed
qed

section \<open>Reading \<open>n\<close> bytes\<close>

text \<open>What \<open>readn\<close> returns, in terms of the bytes that arrive before it has to stop.\<close>

lemma readn_loop_spec:
  assumes "readn_loop s n d = (ret, bs, s')"
  shows "bs = d @ take n (rx_stream s)"
    and "n \<le> length (rx_stream s) \<Longrightarrow>
      ret = int (length bs) \<and> rx_stream s' = drop n (rx_stream s) \<and> rx_stop s' = rx_stop s"
    and "length (rx_stream s) < n \<Longrightarrow>
      ret = (if rx_stop s \<in> {None, Some EAGAIN} then int (length bs) else -1)"
  using assms
proof (atomize(full), induction s n d rule: readn_loop.induct)
  case (1 s n d)
  show ?case
  proof (cases "n = 0")
    case True
    with "1.prems" show ?thesis by (auto simp: readn_loop.simps)
  next
    case False
    obtain a s1 where r: "os_read s n = (a, s1)" by force
    show ?thesis
    proof (cases a)
      case (Got ds)
      show ?thesis
      proof (cases "ds = []")
        case True
        with "1.prems" False r Got show ?thesis
          by (auto simp: readn_loop.simps [of s n d] dest: os_read_eof)
      next
        case ne: False
        note g = os_read_got [OF r [unfolded Got] ne]
        from "1.prems" False r Got ne have "readn_loop s1 (n - length ds) (d @ ds) = (ret, bs, s')"
          by (simp add: readn_loop.simps [of s n d])
        from "1.IH"(1) [OF False r [symmetric] Got ne this] g
        show ?thesis by auto
      qed
    next
      case (Fail e)
      show ?thesis
      proof (cases "e = EINTR")
        case True
        with "1.prems" False r Fail have "readn_loop s1 n d = (ret, bs, s')"
          by (simp add: readn_loop.simps [of s n d])
        from "1.IH"(2) [OF False r [symmetric] Fail True this] os_read_intr [of s n s1] r Fail True
        show ?thesis by auto
      next
        case ne: False
        with "1.prems" False r Fail os_read_fail [OF r [unfolded Fail] ne] show ?thesis
          by (auto simp: readn_loop.simps [of s n d] split: if_splits)
      qed
    qed
  qed
qed


lemma readn_enough:
  assumes "n \<le> length (rx_stream s)"
  obtains s' where "readn s n = (int n, take n (rx_stream s), s')"
    and "rx_stream s' = drop n (rx_stream s)" and "rx_stop s' = rx_stop s"
proof -
  obtain ret bs s' where r: "readn_loop s n [] = (ret, bs, s')" by (metis prod_cases3)
  from readn_loop_spec [OF r] assms show ?thesis
    by (intro that [of s']) (auto simp: readn_def r)
qed

lemma readn_short:
  assumes "length (rx_stream s) < n" and "rx_stop s = None \<or> rx_stop s = Some EAGAIN"
  obtains s' where "readn s n = (int (length (rx_stream s)), rx_stream s, s')"
proof -
  obtain ret bs s' where r: "readn_loop s n [] = (ret, bs, s')" by (metis prod_cases3)
  from readn_loop_spec [OF r] assms show ?thesis
    by (intro that [of s']) (auto simp: readn_def r)
qed

section \<open>Reading one frame\<close>

lemma recv_peek_data:
  assumes "k < 10"
  shows "recv_peek (replicate k (RxFail EINTR) @ RxData ds # s) n =
    (int (length (take n ds)), take n ds, RxData ds # s)"
proof -
  have "k < idx \<Longrightarrow> recv_peek_loop idx ret (replicate k (RxFail EINTR) @ RxData ds # s) n =
      (int (length (take n ds)), take n ds, RxData ds # s)" for idx ret
  proof (induction k arbitrary: idx ret)
    case 0
    then show ?case by (cases idx) auto
  next
    case (Suc k)
    then show ?case by (cases idx) auto
  qed
  with assms show ?thesis by (simp add: recv_peek_def)
qed

lemma rx_stream_intr: "rx_stream (replicate k (RxFail EINTR) @ s) = rx_stream s"
  by (induction k) auto

lemma rx_stop_intr: "rx_stop (replicate k (RxFail EINTR) @ s) = rx_stop s"
  by (induction k) auto

text \<open>The length that the first two bytes of a stream announce, the two bytes included.\<close>

definition frame_size :: "byte list \<Rightarrow> nat" where
  "frame_size bs = unat (bs ! 0) * 256 + unat (bs ! 1) + HEADSIZE"

lemma read_normal_sock_data:
  assumes "k < 10" and "ds = b0 # b1 # bs" and "HEADSIZE < frame_size ds"
  shows "read_normal_sock (replicate k (RxFail EINTR) @ RxData ds # s) =
    (let (nRead, got, s2) = readn (RxData ds # s) (frame_size ds)
     in Inr (nRead, Some (got @ replicate (frame_size ds - length got) 0), s2))"
proof -
  have take: "take HEADSIZE ds = [b0, b1]" using assms(2) by (simp add: HEADSIZE_def)
  have hex: "convert_hex_to_int [b0, b1, 0] HEADSIZE = Inr (uint b0 * 256 + uint b1)"
    by (rule convert_hex_to_int_2)
  have nat: "nat (uint b0 * 256 + uint b1) + HEADSIZE = frame_size ds"
    using assms(2) by (simp add: frame_size_def nat_add_distrib nat_mult_distrib)
  have "0 < uint b0 * 256 + uint b1"
    using assms(3) nat by (simp add: HEADSIZE_def)
  then show ?thesis
    unfolding read_normal_sock_def recv_peek_data [OF assms(1)] take
    using hex nat by (simp add: HEADSIZE_def numeral_2_eq_2 numeral_3_eq_3 Let_def)
qed

lemma uint_byte_of_u32: "uint (ucast (v :: 32 word) :: byte) = int (unat v mod 256)"
proof -
  have "uint (ucast v :: byte) = take_bit 8 (uint v)" by (simp add: unsigned_ucast_eq)
  also have "\<dots> = int (unat v mod 256)" by (simp add: take_bit_eq_mod zmod_int)
  finally show ?thesis .
qed

section \<open>Properties\<close>

text \<open>
  A length that fits in two bytes is written by \<open>convert_int_to_hex\<close> so that
  \<open>convert_hex_to_int\<close> reads it back, and nothing after the two bytes changes; a longer one
  is refused and the buffer is left alone.
\<close>

theorem frame_length_roundtrip:
  "\<exists>b0' b1'. convert_int_to_hex v (b0 # b1 # bs) = Inr (unat v \<le> 0xffff, b0' # b1' # bs) \<and>
     convert_hex_to_int (b0' # b1' # bs) HEADSIZE =
       (if unat v \<le> 0xffff then Inr (int (unat v)) else convert_hex_to_int (b0 # b1 # bs) HEADSIZE)"
proof (cases "unat v \<le> 0xffff")
  case True
  have "unat v div 256 < 256" using True by simp
  then have "uint (ucast (v div 256) :: byte) = int (unat v div 256)"
    "uint (ucast (v mod 256) :: byte) = int (unat v mod 256)"
    by (simp_all only: uint_byte_of_u32 unat_div unat_mod) simp_all
  moreover have "int (unat v div 256) * 256 + int (unat v mod 256) = int (unat v)"
    by (metis div_mult_mod_eq of_nat_add of_nat_mult of_nat_numeral)
  ultimately show ?thesis using True
    by (simp only: convert_int_to_hex_eq convert_hex_to_int_2 if_True) simp
next
  case False
  then show ?thesis by (simp add: convert_int_to_hex_eq convert_hex_to_int_2)
qed



text \<open>
  When the socket runs dry first (or the peer closes), the part that has arrived is handed
  over as if it were the frame: the return value is its length, and the rest of the buffer is
  zero.
\<close>

theorem read_normal_sock_truncated:
  assumes "k < 10" and "ds = b0 # b1 # bs"
    and "length (rx_stream (RxData ds # s)) < frame_size ds"
    and "rx_stop s = None \<or> rx_stop s = Some EAGAIN"
  shows "\<exists>s'. read_normal_sock (replicate k (RxFail EINTR) @ RxData ds # s) =
      Inr (int (length (rx_stream (RxData ds # s))),
        Some (rx_stream (RxData ds # s) @
          replicate (frame_size ds - length (rx_stream (RxData ds # s))) 0), s')"
proof -
  have "HEADSIZE < frame_size ds" using assms(2,3) by (simp add: HEADSIZE_def)
  note data = read_normal_sock_data [OF assms(1,2) this]
  have "rx_stop (RxData ds # s) = None \<or> rx_stop (RxData ds # s) = Some EAGAIN"
    using assms(2,4) by simp
  from readn_short [OF assms(3) this] obtain s' where
    "readn (RxData ds # s) (frame_size ds) =
       (int (length (rx_stream (RxData ds # s))), rx_stream (RxData ds # s), s')" .
  then show ?thesis unfolding data by (simp only: Let_def prod.case) blast
qed

theorem read_normal_sock_truncated_witness:
  "\<exists>s'. read_normal_sock (replicate 0 (RxFail EINTR) @ RxData [0, 1] # []) =
      Inr (2, Some [0, 1, 0], s')"
  using read_normal_sock_truncated [of 0 "[0, 1]" 0 1 "[]" "[]"]
  by (simp add: frame_size_def HEADSIZE_def)

end
