(* ===== verification/JobQueue.thy ===== *)
theory JobQueue
  imports Prelude
begin

text \<open>
  The job queue of the thread pool (\<^verbatim>\<open>proxy_server/threadpool/threadpool.c\<close>): a doubly linked list of
  nodes in the heap with a head, a tail and a counter. The heap maps the address of a node to the
  node, as long as it is allocated. The operations are those of the source, pointer by pointer;
  they refine a first-in first-out queue.
\<close>

section \<open>The code\<close>

record ('f, 'a) job_node =
  job_function :: 'f
  job_arg :: 'a
  job_prev :: "nat option"
  job_next :: "nat option"

type_synonym ('f, 'a) job_heap = "nat \<Rightarrow> ('f, 'a) job_node option"

text \<open>\<open>queue_sem\<close> is the value of the semaphore; \<open>job_num\<close> starts at 0 and is never negative.\<close>

record ('f, 'a) job_queue =
  job_heap :: "('f, 'a) job_heap"
  job_num :: nat
  queue_sem :: nat
  queue_head :: "nat option"
  queue_tail :: "nat option"

text \<open>Reading, writing and freeing through a pointer.\<close>

definition node_at :: "('f, 'a) job_heap \<Rightarrow> nat option \<Rightarrow> (nat \<times> ('f, 'a) job_node) res" where
  "node_at h p = (case p of None \<Rightarrow> Inl NullDeref
     | Some a \<Rightarrow> (case h a of None \<Rightarrow> Inl UseAfterFree | Some nd \<Rightarrow> Inr (a, nd)))"

definition free_node :: "('f, 'a) job_heap \<Rightarrow> nat option \<Rightarrow> ('f, 'a) job_heap res" where
  "free_node h p = (case p of None \<Rightarrow> Inr h
     | Some a \<Rightarrow> (case h a of None \<Rightarrow> Inl UseAfterFree | Some nd \<Rightarrow> Inr (h(a := None))))"

definition threadpool_job_queue_init :: "('f, 'a) job_queue" where
  "threadpool_job_queue_init =
     \<lparr>job_heap = Map.empty, job_num = 0, queue_sem = 0, queue_head = None, queue_tail = None\<rparr>"

definition threadpool_job_queue_remove_first ::
    "('f, 'a) job_queue \<Rightarrow> (nat option \<times> ('f, 'a) job_queue) res" where
  "threadpool_job_queue_remove_first q =
     (let pfirst_job = queue_head q
      in if job_num q = 0 then Inr (None, q)
         else if job_num q = 1 then
           Inr (pfirst_job, q\<lparr>queue_head := None, queue_tail := None, job_num := job_num q - 1\<rparr>)
         else
           bindR (node_at (job_heap q) pfirst_job) (\<lambda>(a, first).
           bindR (node_at (job_heap q) (job_next first)) (\<lambda>(b, second).
             Inr (pfirst_job,
               q\<lparr>job_heap := (job_heap q)(b \<mapsto> second\<lparr>job_prev := None\<rparr>),
                 queue_head := job_next first, job_num := job_num q - 1\<rparr>))))"

text \<open>\<open>new_node\<close> is the address of an allocated node.\<close>

definition threadpool_job_queue_add ::
    "('f, 'a) job_queue \<Rightarrow> nat \<Rightarrow> ('f, 'a) job_queue res" where
  "threadpool_job_queue_add q new_node =
     bindR (node_at (job_heap q) (Some new_node)) (\<lambda>(_, nd).
     let h = (job_heap q)(new_node \<mapsto> nd\<lparr>job_next := None, job_prev := None\<rparr>)
     in bindR (if job_num q = 0
               then Inr (q\<lparr>job_heap := h, queue_head := Some new_node, queue_tail := Some new_node\<rparr>)
               else
                 let h = h(new_node \<mapsto> nd\<lparr>job_next := None, job_prev := queue_tail q\<rparr>)
                 in bindR (node_at h (queue_tail q)) (\<lambda>(t, last).
                    Inr (q\<lparr>job_heap := h(t \<mapsto> last\<lparr>job_next := Some new_node\<rparr>),
                           queue_tail := Some new_node\<rparr>)))
       (\<lambda>q. Inr (q\<lparr>job_num := job_num q + 1, queue_sem := queue_sem q + 1\<rparr>)))"

text \<open>
  \<open>threadpool_add_work\<close>: \<open>mem\<close> is what \<open>malloc\<close> returns (the links of a new node hold anything);
  when it is \<open>NULL\<close> the process exits, which is the result \<open>None\<close>.
\<close>

definition threadpool_add_work ::
    "('f, 'a) job_queue \<Rightarrow> (nat \<times> nat option \<times> nat option) option \<Rightarrow> 'f \<Rightarrow> 'a
      \<Rightarrow> (int \<times> ('f, 'a) job_queue) option res" where
  "threadpool_add_work q mem function argv =
     (case mem of
        None \<Rightarrow> Inr None
      | Some (n, p, nx) \<Rightarrow>
          let nd = \<lparr>job_function = function, job_arg = argv, job_prev = p, job_next = nx\<rparr>
          in bindR (threadpool_job_queue_add (q\<lparr>job_heap := (job_heap q)(n \<mapsto> nd)\<rparr>) n)
               (\<lambda>q. Inr (Some (0, q))))"

fun empty_loop :: "nat \<Rightarrow> nat option \<Rightarrow> ('f, 'a) job_heap \<Rightarrow> ('f, 'a) job_heap res" where
  "empty_loop 0 current h = Inr h"
| "empty_loop (Suc n) current h =
     bindR (node_at h current) (\<lambda>(a, nd).
     bindR (free_node h current) (\<lambda>h. empty_loop n (job_next nd) h))"

definition threadpool_job_queue_empty :: "('f, 'a) job_queue \<Rightarrow> ('f, 'a) job_queue res" where
  "threadpool_job_queue_empty q =
     bindR (empty_loop (job_num q) (queue_head q) (job_heap q)) (\<lambda>h.
       Inr (q\<lparr>job_heap := h, job_num := 0\<rparr>))"

section \<open>The queue that the pointers represent\<close>

fun links :: "('f, 'a) job_heap \<Rightarrow> nat option \<Rightarrow> nat list \<Rightarrow> bool" where
  "links h p [] = True"
| "links h p (a # as) = (case h a of None \<Rightarrow> False
     | Some nd \<Rightarrow> job_prev nd = p \<and> job_next nd = (if as = [] then None else Some (hd as)) \<and>
         links h (Some a) as)"

definition queue_rep :: "('f, 'a) job_queue \<Rightarrow> nat list \<Rightarrow> bool" where
  "queue_rep q as \<longleftrightarrow> distinct as \<and> links (job_heap q) None as \<and> job_num q = length as \<and>
     queue_head q = (if as = [] then None else Some (hd as)) \<and>
     queue_tail q = (if as = [] then None else Some (last as))"

definition job_of :: "('f, 'a) job_heap \<Rightarrow> nat \<Rightarrow> 'f \<times> 'a" where
  "job_of h a = (case h a of Some nd \<Rightarrow> (job_function nd, job_arg nd))"

lemma links_cong:
  "(\<And>a. a \<in> set as \<Longrightarrow> h' a = h a) \<Longrightarrow> links h' p as = links h p as"
proof (induction as arbitrary: p)
  case (Cons a as)
  then have "links h' (Some a) as = links h (Some a) as" "h' a = h a" by simp_all
  then show ?case by (cases "h a") simp_all
qed simp

lemma links_upd [simp]: "b \<notin> set as \<Longrightarrow> links (h(b := x)) p as = links h p as"
  by (rule links_cong) auto

lemma links_alloc: "links h p as \<Longrightarrow> a \<in> set as \<Longrightarrow> h a \<noteq> None"
  by (induction as arbitrary: p) (auto split: option.splits)

lemma links_nodes: "links h p as \<Longrightarrow> set as \<subseteq> dom h"
  using links_alloc by (fastforce simp: dom_def)

text \<open>Appending a node at the tail.\<close>

lemma links_append:
  assumes "links h p as" and "as \<noteq> []" and "distinct as" and "n \<notin> set as"
    and "h n = Some nd" and "job_prev nd = Some (last as)" and "job_next nd = None"
    and "h (last as) = Some lst"
  shows "links (h(last as \<mapsto> lst\<lparr>job_next := Some n\<rparr>)) p (as @ [n])"
  using assms
proof (induction as arbitrary: p)
  case Nil
  then show ?case by simp
next
  case (Cons a as)
  show ?case
  proof (cases "as = []")
    case True
    with Cons.prems show ?thesis by (auto split: option.splits)
  next
    case False
    with Cons.prems have "links h (Some a) as" by (auto split: option.splits)
    with Cons.prems False
    have "links (h(last as \<mapsto> lst\<lparr>job_next := Some n\<rparr>)) (Some a) (as @ [n])"
      by (intro Cons.IH) simp_all
    moreover from False Cons.prems(3) have "last as \<noteq> a" by auto
    moreover obtain na where "h a = Some na" "job_prev na = p" "job_next na = Some (hd as)"
      using Cons.prems(1) False by (auto split: option.splits)
    ultimately show ?thesis using False by (simp del: fun_upd_apply add: fun_upd_other)
  qed
qed

text \<open>What the operations do to the queue: its nodes, its jobs and the rest of the heap.\<close>

lemma add_spec:
  assumes "queue_rep q as" and "n \<notin> set as" and "job_heap q n = Some nd"
  shows "\<exists>q'. threadpool_job_queue_add q n = Inr q' \<and> queue_rep q' (as @ [n]) \<and>
    (\<forall>a. job_heap q a \<noteq> None \<longrightarrow> job_heap q' a \<noteq> None \<and> job_of (job_heap q') a = job_of (job_heap q) a) \<and>
    dom (job_heap q') = dom (job_heap q) \<and> queue_sem q' = Suc (queue_sem q)"
proof (cases "as = []")
  case True
  with assms show ?thesis
    by (auto simp: threadpool_job_queue_add_def node_at_def queue_rep_def job_of_def Let_def)
next
  case False
  let ?h = "(job_heap q)(n \<mapsto> nd\<lparr>job_next := None, job_prev := Some (last as)\<rparr>)"
  from assms(1) have r: "distinct as" "links (job_heap q) None as" "job_num q = length as"
      "queue_tail q = Some (last as)" "queue_head q = Some (hd as)"
    using False by (simp_all add: queue_rep_def)
  have l: "links ?h None as"
    using r(2) assms(2) by simp
  from links_alloc [OF r(2), of "last as"] False obtain lst where lst: "job_heap q (last as) = Some lst"
    by auto
  from False assms(2) have ne: "last as \<noteq> n" by auto
  with lst have lst': "?h (last as) = Some lst" by simp
  have "links (?h(last as \<mapsto> lst\<lparr>job_next := Some n\<rparr>)) None (as @ [n])"
    by (rule links_append [OF l False r(1) assms(2) _ _ _ lst',
      where nd = "nd\<lparr>job_next := None, job_prev := Some (last as)\<rparr>"]) simp_all
  with r False assms lst ne show ?thesis
    by (auto simp: threadpool_job_queue_add_def node_at_def queue_rep_def job_of_def Let_def
      insert_absorb)
qed

lemma remove_first_spec:
  assumes "queue_rep q as"
  shows "\<exists>q'. threadpool_job_queue_remove_first q = Inr (if as = [] then None else Some (hd as), q') \<and>
    queue_rep q' (tl as) \<and>
    (\<forall>a. job_heap q a \<noteq> None \<longrightarrow> job_heap q' a \<noteq> None \<and> job_of (job_heap q') a = job_of (job_heap q) a) \<and>
    dom (job_heap q') = dom (job_heap q) \<and> queue_sem q' = queue_sem q"
proof (cases as)
  case Nil
  with assms show ?thesis by (simp add: threadpool_job_queue_remove_first_def queue_rep_def)
next
  case (Cons a r)
  show ?thesis
  proof (cases r)
    case Nil
    with assms Cons show ?thesis
      by (auto simp: threadpool_job_queue_remove_first_def queue_rep_def)
  next
    case r: (Cons b s)
    from assms Cons r obtain na nb where
      n: "job_heap q a = Some na" "job_next na = Some b" "job_heap q b = Some nb"
        "job_next nb = (if s = [] then None else Some (hd s))" "links (job_heap q) (Some b) s"
      by (auto simp: queue_rep_def split: option.splits)
    have "links ((job_heap q)(b \<mapsto> nb\<lparr>job_prev := None\<rparr>)) (Some b) s"
      using n(5) assms Cons r by (simp add: queue_rep_def)
    with n assms Cons r show ?thesis
      by (auto simp: threadpool_job_queue_remove_first_def queue_rep_def node_at_def job_of_def
        Let_def)
  qed
qed

lemma empty_loop_spec:
  assumes "links h p as" and "distinct as"
  shows "\<exists>h'. empty_loop (length as) (if as = [] then None else Some (hd as)) h = Inr h' \<and>
    (\<forall>a. h' a = (if a \<in> set as then None else h a))"
  using assms
proof (induction as arbitrary: p h)
  case Nil
  then show ?case by auto
next
  case (Cons a as)
  from Cons.prems obtain nd where nd: "h a = Some nd"
      "job_next nd = (if as = [] then None else Some (hd as))" "links h (Some a) as"
    by (auto split: option.splits)
  have "links (h(a := None)) (Some a) as"
    using nd(3) Cons.prems(2) by simp
  with Cons.IH Cons.prems(2) obtain h' where
    "empty_loop (length as) (if as = [] then None else Some (hd as)) (h(a := None)) = Inr h'"
    "\<forall>x. h' x = (if x \<in> set as then None else (h(a := None)) x)" by fastforce
  with nd show ?case by (auto simp: node_at_def free_node_def)
qed

section \<open>A first-in first-out queue\<close>

text \<open>Taking \<open>n\<close> elements, or as many as there are.\<close>

fun deq_all :: "('q \<Rightarrow> ('e option \<times> 'q) res) \<Rightarrow> nat \<Rightarrow> 'q \<Rightarrow> ('e list \<times> 'q) res" where
  "deq_all deq 0 q = Inr ([], q)"
| "deq_all deq (Suc n) q =
     bindR (deq q) (\<lambda>(x, q). case x of None \<Rightarrow> Inr ([], q)
       | Some e \<Rightarrow> bindR (deq_all deq n q) (\<lambda>(es, q). Inr (e # es, q)))"

text \<open>
  What the users of the queue rely on: \<open>cont\<close> is the content of a queue, and \<open>ok q e\<close> says that the
  element can be added (its node is not in use).
\<close>

locale fifo =
  fixes inv :: "'q \<Rightarrow> bool"
    and cont :: "'q \<Rightarrow> 'e list"
    and ok :: "'q \<Rightarrow> 'n \<Rightarrow> bool"
    and elem :: "'n \<Rightarrow> 'e"
    and enq :: "'q \<Rightarrow> 'n \<Rightarrow> 'q res"
    and deq :: "'q \<Rightarrow> ('e option \<times> 'q) res"
  assumes enq_ok: "inv q \<Longrightarrow> ok q n \<Longrightarrow> \<exists>q'. enq q n = Inr q' \<and> inv q' \<and> cont q' = cont q @ [elem n]"
    and deq_ok: "inv q \<Longrightarrow> \<exists>q'. deq q = Inr (if cont q = [] then None else Some (hd (cont q)), q') \<and>
      inv q' \<and> cont q' = tl (cont q)"
begin

lemma deq_all_order:
  assumes "inv q"
  shows "\<exists>q'. deq_all deq n q = Inr (take n (cont q), q') \<and> inv q' \<and> cont q' = drop n (cont q)"
  using assms
proof (induction n arbitrary: q)
  case 0
  then show ?case by simp
next
  case (Suc n)
  from deq_ok [OF Suc.prems] obtain q1 where
    q1: "deq q = Inr (if cont q = [] then None else Some (hd (cont q)), q1)" "inv q1"
      "cont q1 = tl (cont q)" by blast
  from Suc.IH [OF q1(2)] obtain q2 where
    q2: "deq_all deq n q1 = Inr (take n (cont q1), q2)" "inv q2" "cont q2 = drop n (cont q1)" by blast
  show ?case
  proof (cases "cont q")
    case Nil
    with q1 show ?thesis by simp
  next
    case (Cons e es)
    with q1 q2 show ?thesis by simp
  qed
qed

end

text \<open>
  The queue of the pool is one. The element names the address at which \<open>malloc\<close> places its node,
  which must not be allocated, and what the new memory holds.
\<close>

fun walk :: "nat \<Rightarrow> ('f, 'a) job_heap \<Rightarrow> nat option \<Rightarrow> nat list" where
  "walk 0 h p = []"
| "walk (Suc n) h p = (case p of None \<Rightarrow> []
     | Some a \<Rightarrow> a # (case h a of None \<Rightarrow> [] | Some nd \<Rightarrow> walk n h (job_next nd)))"

definition queue_nodes :: "('f, 'a) job_queue \<Rightarrow> nat list" where
  "queue_nodes q = walk (job_num q) (job_heap q) (queue_head q)"

definition queue_jobs :: "('f, 'a) job_queue \<Rightarrow> ('f \<times> 'a) list" where
  "queue_jobs q = map (job_of (job_heap q)) (queue_nodes q)"

definition queue_ok :: "('f, 'a) job_queue \<Rightarrow> bool" where
  "queue_ok q \<longleftrightarrow> queue_rep q (queue_nodes q)"

lemma walk_links:
  "links h p as \<Longrightarrow> walk (length as) h (if as = [] then None else Some (hd as)) = as"
  by (induction as arbitrary: p) (auto split: option.splits if_splits)

lemma queue_nodes_rep: "queue_rep q as \<Longrightarrow> queue_nodes q = as"
  unfolding queue_rep_def queue_nodes_def by (elim conjE) (simp only: walk_links)

lemma queue_okI: "queue_rep q as \<Longrightarrow> queue_ok q"
  by (simp add: queue_ok_def queue_nodes_rep)

lemma queue_jobs_rep: "queue_rep q as \<Longrightarrow> queue_jobs q = map (job_of (job_heap q)) as"
  by (simp add: queue_jobs_def queue_nodes_rep)

lemma job_of_upd: "job_of (h(n \<mapsto> nd)) a = (if a = n then (job_function nd, job_arg nd) else job_of h a)"
  by (simp add: job_of_def)

lemma add_work_spec:
  assumes "queue_rep q as" and "job_heap q n = None"
  shows "\<exists>q'. threadpool_add_work q (Some (n, p, nx)) f x = Inr (Some (0, q')) \<and>
    queue_rep q' (as @ [n]) \<and> dom (job_heap q') = insert n (dom (job_heap q)) \<and>
    job_of (job_heap q') n = (f, x) \<and>
    (\<forall>a. job_heap q a \<noteq> None \<longrightarrow> job_of (job_heap q') a = job_of (job_heap q) a) \<and>
    queue_sem q' = Suc (queue_sem q)"
proof -
  let ?nd = "\<lparr>job_function = f, job_arg = x, job_prev = p, job_next = nx\<rparr>"
  let ?q = "q\<lparr>job_heap := (job_heap q)(n \<mapsto> ?nd)\<rparr>"
  have n: "n \<notin> set as" using links_nodes [of "job_heap q" None as] assms
    by (auto simp: queue_rep_def)
  have "queue_rep ?q as" using assms(1) n by (simp add: queue_rep_def)
  from add_spec [OF this n, of ?nd] obtain q' where
    q': "threadpool_job_queue_add ?q n = Inr q'" "queue_rep q' (as @ [n])"
      "\<forall>a. job_heap ?q a \<noteq> None \<longrightarrow> job_of (job_heap q') a = job_of (job_heap ?q) a"
      "dom (job_heap q') = dom (job_heap ?q)" "queue_sem q' = Suc (queue_sem ?q)" by auto
  have "job_of (job_heap q') n = (f, x)" using q'(3) by (simp add: job_of_upd)
  moreover have "\<forall>a. job_heap q a \<noteq> None \<longrightarrow> job_of (job_heap q') a = job_of (job_heap q) a"
    using q'(3) assms(2) by (auto simp: job_of_upd)
  ultimately show ?thesis using q' by (auto simp: threadpool_add_work_def)
qed

lemma add_work_jobs:
  assumes "queue_rep q as" and "job_heap q n = None"
    and "threadpool_add_work q (Some (n, p, nx)) f x = Inr (Some (r, q'))"
  shows "queue_rep q' (as @ [n])" and "queue_jobs q' = queue_jobs q @ [(f, x)]"
proof -
  from add_work_spec [OF assms(1,2), of p nx f x] assms(3) have
    q': "queue_rep q' (as @ [n])" "job_of (job_heap q') n = (f, x)"
      "\<forall>a. job_heap q a \<noteq> None \<longrightarrow> job_of (job_heap q') a = job_of (job_heap q) a" by auto
  moreover have "\<forall>a\<in>set as. job_heap q a \<noteq> None"
    using assms(1) links_alloc by (fastforce simp: queue_rep_def)
  ultimately show "queue_rep q' (as @ [n])" and "queue_jobs q' = queue_jobs q @ [(f, x)]"
    by (simp_all add: queue_jobs_rep [OF q'(1)] queue_jobs_rep [OF assms(1)])
qed

definition enq_job :: "('f, 'a) job_queue \<Rightarrow> (nat \<times> nat option \<times> nat option) \<times> 'f \<times> 'a
    \<Rightarrow> ('f, 'a) job_queue res" where
  "enq_job q e = (case e of (m, f, x) \<Rightarrow>
     bindR (threadpool_add_work q (Some m) f x)
       (\<lambda>r. case r of Some (_, q') \<Rightarrow> Inr q' | None \<Rightarrow> Inr q))"

text \<open>What a worker does with the mutex held: the node it removes, and the job the node holds.\<close>

definition deq_job :: "('f, 'a) job_queue \<Rightarrow> (('f \<times> 'a) option \<times> ('f, 'a) job_queue) res" where
  "deq_job q =
     bindR (threadpool_job_queue_remove_first q) (\<lambda>(p, q').
       case p of None \<Rightarrow> Inr (None, q')
       | Some a \<Rightarrow> bindR (node_at (job_heap q') (Some a)) (\<lambda>(_, nd).
           Inr (Some (job_function nd, job_arg nd), q')))"

lemma deq_job_spec:
  assumes "queue_rep q as"
  shows "\<exists>q'. deq_job q = Inr (if as = [] then None else Some (job_of (job_heap q) (hd as)), q') \<and>
    queue_rep q' (tl as) \<and> queue_jobs q' = tl (queue_jobs q)"
proof -
  from remove_first_spec [OF assms] obtain q' where
    q': "threadpool_job_queue_remove_first q = Inr (if as = [] then None else Some (hd as), q')"
      "queue_rep q' (tl as)"
      "\<forall>a. job_heap q a \<noteq> None \<longrightarrow> job_heap q' a \<noteq> None \<and> job_of (job_heap q') a = job_of (job_heap q) a"
    by blast
  have alloc: "\<forall>a\<in>set as. job_heap q a \<noteq> None"
    using assms links_alloc by (fastforce simp: queue_rep_def)
  then have jobs: "queue_jobs q' = tl (queue_jobs q)"
    using q'(3) unfolding queue_jobs_rep [OF q'(2)] queue_jobs_rep [OF assms]
    by (cases as) simp_all
  show ?thesis
  proof (cases as)
    case Nil
    with q' jobs show ?thesis by (simp add: deq_job_def)
  next
    case (Cons a r)
    with alloc q'(3) obtain nd where nd: "job_heap q' a = Some nd"
        "job_of (job_heap q') a = job_of (job_heap q) a" by fastforce
    then have "job_of (job_heap q) a = (job_function nd, job_arg nd)" by (simp add: job_of_def)
    with q' jobs Cons nd show ?thesis by (simp add: deq_job_def node_at_def)
  qed
qed

interpretation jq: fifo queue_ok queue_jobs "\<lambda>q e. job_heap q (fst (fst e)) = None" snd enq_job deq_job
proof
  fix q :: "('a, 'b) job_queue" and n :: "(nat \<times> nat option \<times> nat option) \<times> 'a \<times> 'b"
  assume "queue_ok q" and free: "job_heap q (fst (fst n)) = None"
  then obtain as where as: "queue_rep q as" by (auto simp: queue_ok_def)
  obtain a p nx f x where n: "n = ((a, p, nx), f, x)" by (metis prod_cases5 prod_cases3 surj_pair)
  with free have "job_heap q a = None" by simp
  from add_work_spec [OF as this, of p nx f x] obtain q' where
    q': "threadpool_add_work q (Some (a, p, nx)) f x = Inr (Some (0, q'))" by blast
  from add_work_jobs [OF as _ q'] free n q'
  show "\<exists>q'. enq_job q n = Inr q' \<and> queue_ok q' \<and> queue_jobs q' = queue_jobs q @ [snd n]"
    by (auto simp: enq_job_def intro: queue_okI)
next
  fix q :: "('a, 'b) job_queue"
  assume "queue_ok q"
  then obtain as where as: "queue_rep q as" by (auto simp: queue_ok_def)
  from deq_job_spec [OF as] show "\<exists>q'. deq_job q =
      Inr (if queue_jobs q = [] then None else Some (hd (queue_jobs q)), q') \<and>
      queue_ok q' \<and> queue_jobs q' = tl (queue_jobs q)"
    unfolding queue_jobs_rep [OF as] by (auto intro: queue_okI simp: hd_map)
qed

lemma queue_empty_all:
  assumes "queue_ok q"
  shows "\<exists>q'. threadpool_job_queue_empty q = Inr q' \<and> job_num q' = 0 \<and>
    (\<forall>a. job_heap q' a = (if a \<in> set (queue_nodes q) then None else job_heap q a))"
proof -
  from assms have r: "links (job_heap q) None (queue_nodes q)" "distinct (queue_nodes q)"
      "job_num q = length (queue_nodes q)"
      "queue_head q = (if queue_nodes q = [] then None else Some (hd (queue_nodes q)))"
    by (simp_all add: queue_ok_def queue_rep_def)
  from empty_loop_spec [OF r(1,2)] r(3,4) show ?thesis
    by (auto simp: threadpool_job_queue_empty_def)
qed

section \<open>Properties\<close>

text \<open>
  \<open>threadpool_add_work\<close> never follows a null or dangling pointer and appends its job to the
  queue, wherever \<open>malloc\<close> puts the node and whatever the fresh memory holds; the list of
  \<open>next\<close> pointers, the \<open>prev\<close> pointers, the two ends and the counter agree afterwards.
\<close>

theorem threadpool_add_work_appends:
  assumes "queue_ok q" and "job_heap q n = None"
  shows "\<exists>q'. threadpool_add_work q (Some (n, p, nx)) f x = Inr (Some (0, q')) \<and> queue_ok q' \<and>
    queue_jobs q' = queue_jobs q @ [(f, x)] \<and> job_num q' = length (queue_jobs q')"
proof -
  from assms(1) obtain as where as: "queue_rep q as" by (auto simp: queue_ok_def)
  from add_work_spec [OF as assms(2), of p nx f x] obtain q' where
    q': "threadpool_add_work q (Some (n, p, nx)) f x = Inr (Some (0, q'))" by blast
  note jobs = add_work_jobs [OF as assms(2) q']
  moreover have "job_num q' = length (queue_jobs q')"
    using jobs(1) unfolding queue_jobs_rep [OF jobs(1)] by (simp add: queue_rep_def)
  ultimately show ?thesis using q' by (auto intro: queue_okI)
qed

lemma init_rep: "queue_rep threadpool_job_queue_init []"
  by (simp add: queue_rep_def threadpool_job_queue_init_def)

lemmas init_ok = queue_okI [OF init_rep]

lemma init_empty: "job_heap threadpool_job_queue_init n = None" "queue_jobs threadpool_job_queue_init = []"
  by (simp_all add: queue_jobs_rep [OF init_rep]) (simp add: threadpool_job_queue_init_def)

theorem threadpool_add_work_appends_witness:
  "\<exists>q'. threadpool_add_work threadpool_job_queue_init (Some (4, Some 9, None)) ''f'' (7::nat) =
      Inr (Some (0, q')) \<and> queue_jobs q' = [(''f'', 7)]"
  using threadpool_add_work_appends [OF init_ok init_empty(1), of 4 "Some 9" None "''f''" "7::nat"]
  by (auto simp: init_empty)

text \<open>Adding several jobs; a node may only go where no other is.\<close>

fun enq_jobs :: "('f, 'a) job_queue \<Rightarrow> ((nat \<times> nat option \<times> nat option) \<times> 'f \<times> 'a) list
    \<Rightarrow> ('f, 'a) job_queue res" where
  "enq_jobs q [] = Inr q"
| "enq_jobs q (e # es) =
     (if job_heap q (fst (fst e)) = None then bindR (enq_job q e) (\<lambda>q. enq_jobs q es)
      else Inl OobWrite)"

lemma enq_jobs_cont:
  assumes "queue_ok q" and "enq_jobs q es = Inr q'"
  shows "queue_ok q' \<and> queue_jobs q' = queue_jobs q @ map snd es"
  using assms
proof (induction es arbitrary: q)
  case (Cons e es)
  from Cons.prems(2) have free: "job_heap q (fst (fst e)) = None" by (auto split: if_splits)
  from jq.enq_ok [OF Cons.prems(1) free] obtain q1 where
    "enq_job q e = Inr q1" "queue_ok q1" "queue_jobs q1 = queue_jobs q @ [snd e]" by blast
  with Cons.IH [of q1] Cons.prems(2) free show ?case by simp
qed simp

text \<open>They are added whenever their nodes are placed where nothing is.\<close>

lemma enq_jobs_returns:
  assumes "queue_ok q" and "distinct (map (fst \<circ> fst) es)" and "list_all (\<lambda>e. job_heap q (fst (fst e)) = None) es"
  shows "\<exists>q'. enq_jobs q es = Inr q'"
  using assms
proof (induction es arbitrary: q)
  case (Cons e es)
  obtain n p nx f x where e: "e = ((n, p, nx), f, x)" by (metis prod_cases5 prod_cases3 surj_pair)
  obtain as where as: "queue_rep q as" using Cons.prems(1) by (auto simp: queue_ok_def)
  have free: "job_heap q n = None" using Cons.prems(3) by (simp add: e)
  from add_work_spec [OF as free, of p nx f x] obtain q1 where
    q1: "threadpool_add_work q (Some (n, p, nx)) f x = Inr (Some (0, q1))" "queue_rep q1 (as @ [n])"
      "dom (job_heap q1) = insert n (dom (job_heap q))" by blast
  have "job_heap q1 a = None" if "job_heap q a = None" "a \<noteq> n" for a
    using q1(3) that by (metis domIff insertE)
  moreover have "fst (fst d) \<noteq> n \<and> job_heap q (fst (fst d)) = None" if "d \<in> set es" for d
    using Cons.prems(2,3) that by (force simp: list_all_iff e)
  ultimately have "list_all (\<lambda>e. job_heap q1 (fst (fst e)) = None) es"
    by (simp add: list_all_iff)
  with Cons.IH [OF queue_okI [OF q1(2)]] Cons.prems(2) q1(1) free show ?case
    by (simp add: e enq_job_def)
qed simp

text \<open>
  C23: jobs leave the queue in the order in which they came. From any state of the queue, adding
  the jobs \<open>es\<close> one after the other (each node at an address that is free at that moment) and then
  removing \<open>n\<close> of them gives the first \<open>n\<close> of those that were there and those that were added.
\<close>

theorem job_queue_is_fifo:
  assumes "queue_ok q" and "enq_jobs q es = Inr q1"
  shows "\<exists>q2. deq_all deq_job n q1 = Inr (take n (queue_jobs q @ map snd es), q2) \<and>
    queue_jobs q2 = drop n (queue_jobs q @ map snd es)"
proof -
  from enq_jobs_cont [OF assms] have "queue_ok q1" "queue_jobs q1 = queue_jobs q @ map snd es"
    by simp_all
  with jq.deq_all_order [of q1 n] show ?thesis by auto
qed

theorem job_queue_is_fifo_witness:
  "\<exists>q1 q2. enq_jobs threadpool_job_queue_init
      [((1, None, None), ''f'', 10), ((2, None, None), ''g'', 20::nat), ((3, None, None), ''h'', 30)] = Inr q1 \<and>
    deq_all deq_job 2 q1 = Inr ([(''f'', 10), (''g'', 20)], q2) \<and> queue_jobs q2 = [(''h'', 30)]"
proof -
  have "\<exists>q1. enq_jobs threadpool_job_queue_init
      [((1, None, None), ''f'', 10), ((2, None, None), ''g'', 20::nat), ((3, None, None), ''h'', 30)] = Inr q1"
    by (simp add: threadpool_job_queue_init_def enq_job_def threadpool_add_work_def
      threadpool_job_queue_add_def node_at_def Let_def)
  then obtain q1 where q1: "enq_jobs threadpool_job_queue_init
      [((1, None, None), ''f'', 10), ((2, None, None), ''g'', 20::nat), ((3, None, None), ''h'', 30)] = Inr q1" ..
  from job_queue_is_fifo [OF init_ok q1, of 2] q1 show ?thesis by (auto simp: init_empty)
qed

text \<open>
  \<open>threadpool_job_queue_empty\<close> frees every node of the queue exactly once, and no other memory.
\<close>

theorem threadpool_job_queue_empty_frees:
  assumes "queue_ok q"
  shows "\<exists>q'. threadpool_job_queue_empty q = Inr q' \<and> job_num q' = 0 \<and>
    (\<forall>a. job_heap q' a = (if a \<in> set (queue_nodes q) then None else job_heap q a))"
  by (rule queue_empty_all [OF assms])

theorem threadpool_job_queue_empty_frees_witness:
  "\<exists>q'. threadpool_job_queue_empty (threadpool_job_queue_init :: (string, nat) job_queue) = Inr q' \<and>
    job_num q' = 0"
  using threadpool_job_queue_empty_frees [OF init_ok] by blast

end
