(* ===== verification/ThreadPool.thy ===== *)
theory ThreadPool
  imports JobQueue "HOL-Library.Multiset"
begin

text \<open>
  The workers of the thread pool and its destruction (\<^verbatim>\<open>proxy_server/threadpool/threadpool.c\<close>), as a
  transition system. A step of a worker is what it does between two points at which another
  thread can interfere: the test of \<open>threadpool_keepalive\<close>, \<open>sem_wait\<close>, the removal with the mutex
  held, the reading of the node, and the end of its job. Memory is sequentially consistent.
\<close>

section \<open>The code\<close>

datatype ('f, 'a) worker =
    AtTop                  \<comment> \<open>the condition of \<open>while\<close>\<close>
  | AtSem                  \<comment> \<open>in \<open>sem_wait\<close>\<close>
  | Woken                  \<comment> \<open>the test after \<open>sem_wait\<close>\<close>
  | AtLock                 \<comment> \<open>before the removal of a node\<close>
  | Taken "nat option"     \<comment> \<open>holds \<open>pjob_node\<close>\<close>
  | Running nat 'f 'a      \<comment> \<open>in \<open>function(argv)\<close>\<close>
  | Exited

datatype main = Serving | Posting nat | Joining | Destroyed

text \<open>
  The last four fields are history: the jobs added, taken out of the queue, and finished, in
  order, and those that were still queued when the queue was emptied.
\<close>

record ('f, 'a) tpool =
  threads_num :: nat
  job_queue :: "('f, 'a) job_queue"
  keepalive :: bool
  workers :: "('f, 'a) worker list"
  main_pc :: main
  added :: "('f \<times> 'a) list"
  taken :: "('f \<times> 'a) list"
  finished :: "('f \<times> 'a) list"
  dropped :: "('f \<times> 'a) list"

text \<open>
  \<open>threadpool_init\<close>: the arguments say which of the four allocations succeed, and \<open>sem_init\<close>. The
  third \<open>malloc\<close> is that of \<open>threadpool_job_queue_init\<close>, the fourth, of the semaphore, is not tested.
\<close>

definition threadpool_init ::
    "bool \<Rightarrow> bool \<Rightarrow> bool \<Rightarrow> bool \<Rightarrow> bool \<Rightarrow> int \<Rightarrow> ('f, 'a) tpool option res" where
  "threadpool_init m_pool m_threads m_queue m_sem sem_ok thread_num =
     (let n = (if thread_num \<le> 0 then 1 else nat thread_num)
      in if \<not> m_pool then Inr None
         else if \<not> m_threads then Inr None
         else if \<not> m_queue then Inr None
         else if \<not> m_sem then Inl NullDeref
         else if \<not> sem_ok then Inr None
         else Inr (Some \<lparr>threads_num = n, job_queue = threadpool_job_queue_init, keepalive = True,
           workers = replicate n AtTop, main_pc = Serving, added = [], taken = [], finished = [],
           dropped = []\<rparr>))"

definition set_worker :: "('f, 'a) tpool \<Rightarrow> nat \<Rightarrow> ('f, 'a) worker \<Rightarrow> ('f, 'a) tpool" where
  "set_worker s i w = s\<lparr>workers := (workers s)[i := w]\<rparr>"

text \<open>\<open>threadpool_thread_run\<close>: the next step of worker \<open>i\<close>; \<open>None\<close> when it is blocked or gone.\<close>

definition threadpool_thread_run :: "('f, 'a) tpool \<Rightarrow> nat \<Rightarrow> ('f, 'a) tpool option res" where
  "threadpool_thread_run s i =
     (case workers s ! i of
        AtTop \<Rightarrow> Inr (Some (set_worker s i (if keepalive s then AtSem else Exited)))
      | AtSem \<Rightarrow>
          if queue_sem (job_queue s) = 0 then Inr None
          else Inr (Some (set_worker (s\<lparr>job_queue := (job_queue s)\<lparr>queue_sem := queue_sem (job_queue s) - 1\<rparr>\<rparr>) i Woken))
      | Woken \<Rightarrow> Inr (Some (set_worker s i (if keepalive s then AtLock else AtTop)))
      | AtLock \<Rightarrow>
          bindR (threadpool_job_queue_remove_first (job_queue s)) (\<lambda>(p, q).
            Inr (Some (set_worker (s\<lparr>job_queue := q,
              taken := taken s @ (case p of None \<Rightarrow> [] | Some a \<Rightarrow> [job_of (job_heap (job_queue s)) a])\<rparr>)
              i (Taken p))))
      | Taken None \<Rightarrow> Inr (Some (set_worker s i AtTop))
      | Taken (Some a) \<Rightarrow>
          bindR (node_at (job_heap (job_queue s)) (Some a)) (\<lambda>(_, nd).
            Inr (Some (set_worker s i (Running a (job_function nd) (job_arg nd)))))
      | Running a f x \<Rightarrow>
          bindR (free_node (job_heap (job_queue s)) (Some a)) (\<lambda>h.
            Inr (Some (set_worker (s\<lparr>job_queue := (job_queue s)\<lparr>job_heap := h\<rparr>,
              finished := finished s @ [(f, x)]\<rparr>) i AtTop)))
      | Exited \<Rightarrow> Inr None)"

text \<open>\<open>threadpool_destroy\<close>, step by step; \<open>Joining\<close> waits for every worker.\<close>

definition threadpool_destroy :: "('f, 'a) tpool \<Rightarrow> ('f, 'a) tpool option res" where
  "threadpool_destroy s =
     (case main_pc s of
        Serving \<Rightarrow> Inr (Some (s\<lparr>keepalive := False, main_pc := Posting 0\<rparr>))
      | Posting k \<Rightarrow>
          if k < threads_num s
          then Inr (Some (s\<lparr>job_queue := (job_queue s)\<lparr>queue_sem := queue_sem (job_queue s) + 1\<rparr>,
                 main_pc := Posting (k + 1)\<rparr>))
          else Inr (Some (s\<lparr>main_pc := Joining\<rparr>))
      | Joining \<Rightarrow>
          if list_all (\<lambda>w. w = Exited) (workers s)
          then bindR (threadpool_job_queue_empty (job_queue s)) (\<lambda>q.
                 Inr (Some (s\<lparr>job_queue := q, main_pc := Destroyed,
                   dropped := queue_jobs (job_queue s)\<rparr>)))
          else Inr None
      | Destroyed \<Rightarrow> Inr None)"

text \<open>The system: jobs are added while the pool serves, each node in memory that is free.\<close>

inductive pool_step :: "('f, 'a) tpool \<Rightarrow> ('f, 'a) tpool \<Rightarrow> bool" where
  step_worker: "i < length (workers s) \<Longrightarrow> threadpool_thread_run s i = Inr (Some s') \<Longrightarrow> pool_step s s'"
| step_destroy: "threadpool_destroy s = Inr (Some s') \<Longrightarrow> pool_step s s'"
| step_add: "main_pc s = Serving \<Longrightarrow> job_heap (job_queue s) n = None \<Longrightarrow>
    threadpool_add_work (job_queue s) (Some (n, p, nx)) f x = Inr (Some (r, q)) \<Longrightarrow>
    pool_step s (s\<lparr>job_queue := q, added := added s @ [(f, x)]\<rparr>)"

inductive pool_reach :: "int \<Rightarrow> ('f, 'a) tpool \<Rightarrow> bool" for n where
  reach_init: "threadpool_init True True True True True n = Inr (Some s) \<Longrightarrow> pool_reach n s"
| reach_step: "pool_reach n s \<Longrightarrow> pool_step s s' \<Longrightarrow> pool_reach n s'"

inductive_cases pool_stepE: "pool_step s s'"

section \<open>The invariant\<close>

text \<open>The node that a worker owns.\<close>

fun own :: "('f, 'a) worker \<Rightarrow> nat list" where
  "own (Taken (Some a)) = [a]"
| "own (Running a f x) = [a]"
| "own _ = []"

definition owned :: "('f, 'a) worker list \<Rightarrow> nat list" where
  "owned ws = concat (map own ws)"

fun running_ok :: "('f, 'a) job_heap \<Rightarrow> ('f, 'a) worker \<Rightarrow> bool" where
  "running_ok h (Running a f x) \<longleftrightarrow> job_of h a = (f, x)"
| "running_ok h _ \<longleftrightarrow> True"

text \<open>Memory: every node is in the queue or owned by one worker, and nothing else is allocated.\<close>

definition mem_inv :: "('f, 'a) job_queue \<Rightarrow> ('f, 'a) worker list \<Rightarrow> bool" where
  "mem_inv q ws \<longleftrightarrow> queue_ok q \<and> distinct (queue_nodes q @ owned ws) \<and>
     dom (job_heap q) = set (queue_nodes q @ owned ws) \<and> (\<forall>w\<in>set ws. running_ok (job_heap q) w)"

text \<open>History: the queue holds what was added and not yet taken, in order.\<close>

definition log_inv :: "('f, 'a) tpool \<Rightarrow> bool" where
  "log_inv s \<longleftrightarrow> added s = taken s @ queue_jobs (job_queue s) \<and>
     mset (taken s) = mset (finished s) +
       mset (map (job_of (job_heap (job_queue s))) (owned (workers s)))"

text \<open>
  The semaphore: while the pool serves, its value and the workers that are past it, but have not
  yet removed a node, make up the number of queued jobs; during the shutdown there is a post for
  every worker that waits.
\<close>

abbreviation past_sem :: "('f, 'a) worker \<Rightarrow> bool" where
  "past_sem w \<equiv> w = Woken \<or> w = AtLock"

definition sem_inv :: "('f, 'a) tpool \<Rightarrow> bool" where
  "sem_inv s \<longleftrightarrow> (case main_pc s of
       Serving \<Rightarrow> keepalive s \<and> (\<forall>w\<in>set (workers s). w \<noteq> Exited \<and> w \<noteq> Taken None) \<and>
         queue_sem (job_queue s) + count_if past_sem (workers s) = job_num (job_queue s)
     | Posting k \<Rightarrow> \<not> keepalive s \<and> k \<le> threads_num s \<and>
         count_if (\<lambda>w. w = AtSem) (workers s) \<le> queue_sem (job_queue s) + (threads_num s - k)
     | Joining \<Rightarrow> \<not> keepalive s \<and> count_if (\<lambda>w. w = AtSem) (workers s) \<le> queue_sem (job_queue s)
     | Destroyed \<Rightarrow> False)"

definition live_inv :: "('f, 'a) tpool \<Rightarrow> bool" where
  "live_inv s \<longleftrightarrow> length (workers s) = threads_num s \<and> mem_inv (job_queue s) (workers s) \<and>
     log_inv s \<and> sem_inv s"

definition dead_inv :: "('f, 'a) tpool \<Rightarrow> bool" where
  "dead_inv s \<longleftrightarrow> main_pc s = Destroyed \<and> length (workers s) = threads_num s \<and>
     (\<forall>w\<in>set (workers s). w = Exited) \<and> (\<forall>a. job_heap (job_queue s) a = None) \<and>
     added s = taken s @ dropped s \<and> mset (taken s) = mset (finished s)"

section \<open>The invariant holds\<close>

lemma owned_update:
  assumes "i < length ws"
  obtains A B where "owned ws = A @ own (ws ! i) @ B" and "\<And>w. owned (ws[i := w]) = A @ own w @ B"
  by (rule concat_map_update [OF assms, of own]) (simp add: owned_def)

text \<open>A step that changes neither what the worker owns nor the nodes.\<close>

lemma mem_inv_same:
  assumes "mem_inv q ws" and "i < length ws" and "own w = own (ws ! i)"
    and "job_heap q' = job_heap q" and "queue_nodes q' = queue_nodes q" and "queue_ok q'"
    and "running_ok (job_heap q) w"
  shows "mem_inv q' (ws[i := w])" and "owned (ws[i := w]) = owned ws"
proof -
  obtain A B where AB: "owned ws = A @ own (ws ! i) @ B" "\<And>w. owned (ws[i := w]) = A @ own w @ B"
    using owned_update [OF assms(2)] by blast
  with assms(3) show o: "owned (ws[i := w]) = owned ws" by simp
  have "set (ws[i := w]) \<subseteq> insert w (set ws)" by (rule set_update_subset_insert)
  with assms show "mem_inv q' (ws[i := w])" by (auto simp: mem_inv_def o)
qed

lemma queue_sem_same:
  assumes "queue_ok q"
  shows "queue_ok (q\<lparr>queue_sem := k\<rparr>)" and "queue_nodes (q\<lparr>queue_sem := k\<rparr>) = queue_nodes q"
    and "queue_jobs (q\<lparr>queue_sem := k\<rparr>) = queue_jobs q"
  using assms by (simp_all add: queue_ok_def queue_rep_def queue_nodes_def queue_jobs_def)

text \<open>Removing a node, as the worker that holds the mutex sees it.\<close>

lemma remove_first_nodes:
  assumes "queue_ok q"
  obtains q' where "threadpool_job_queue_remove_first q =
      Inr (if queue_nodes q = [] then None else Some (hd (queue_nodes q)), q')"
    and "queue_ok q'" and "queue_nodes q' = tl (queue_nodes q)"
    and "\<forall>a. job_heap q a \<noteq> None \<longrightarrow> job_of (job_heap q') a = job_of (job_heap q) a"
    and "dom (job_heap q') = dom (job_heap q)" and "queue_sem q' = queue_sem q"
    and "job_num q = length (queue_nodes q)" and "job_num q' = length (tl (queue_nodes q))"
proof -
  have r: "queue_rep q (queue_nodes q)" using assms by (simp add: queue_ok_def)
  from remove_first_spec [OF r] obtain q' where
    q': "threadpool_job_queue_remove_first q =
      Inr (if queue_nodes q = [] then None else Some (hd (queue_nodes q)), q')"
      "queue_rep q' (tl (queue_nodes q))"
      "\<forall>a. job_heap q a \<noteq> None \<longrightarrow> job_heap q' a \<noteq> None \<and> job_of (job_heap q') a = job_of (job_heap q) a"
      "dom (job_heap q') = dom (job_heap q)" "queue_sem q' = queue_sem q" by blast
  show ?thesis
    by (rule that [OF q'(1) queue_okI [OF q'(2)] queue_nodes_rep [OF q'(2)]])
      (use q' r in \<open>auto simp: queue_rep_def\<close>)
qed

lemma running_ok_cong:
  assumes "running_ok h w" and "\<And>a. a \<in> set (own w) \<Longrightarrow> job_of h' a = job_of h a"
  shows "running_ok h' w"
  using assms by (cases w) auto

lemma own_in_owned: "w \<in> set ws \<Longrightarrow> a \<in> set (own w) \<Longrightarrow> a \<in> set (owned ws)"
  by (auto simp: owned_def)

lemma queue_jobs_cong:
  assumes "\<And>a. a \<in> set (queue_nodes q) \<Longrightarrow> job_of (job_heap q') a = job_of (job_heap q) a"
  shows "map (job_of (job_heap q')) (queue_nodes q) = queue_jobs q"
  using assms by (simp add: queue_jobs_def)

lemma lock_step:
  assumes "mem_inv q ws" and "i < length ws" and "ws ! i = AtLock"
    and "threadpool_job_queue_remove_first q = Inr (p, q')"
  shows "mem_inv q' (ws[i := Taken p])" and "p = None \<longleftrightarrow> queue_nodes q = []"
    and "queue_jobs q = (case p of None \<Rightarrow> [] | Some a \<Rightarrow> [job_of (job_heap q) a]) @ queue_jobs q'"
    and "mset (map (job_of (job_heap q')) (owned (ws[i := Taken p]))) =
      mset (map (job_of (job_heap q)) (owned ws)) +
      mset (case p of None \<Rightarrow> [] | Some a \<Rightarrow> [job_of (job_heap q) a])"
    and "queue_sem q' = queue_sem q" and "p \<noteq> None \<Longrightarrow> job_num q = Suc (job_num q')"
    and "queue_ok q'"
proof -
  have ok: "queue_ok q" using assms(1) by (simp add: mem_inv_def)
  obtain q1 where q1: "threadpool_job_queue_remove_first q =
      Inr (if queue_nodes q = [] then None else Some (hd (queue_nodes q)), q1)"
    "queue_ok q1" "queue_nodes q1 = tl (queue_nodes q)"
    "\<forall>a. job_heap q a \<noteq> None \<longrightarrow> job_of (job_heap q1) a = job_of (job_heap q) a"
    "dom (job_heap q1) = dom (job_heap q)" "queue_sem q1 = queue_sem q"
    "job_num q = length (queue_nodes q)" "job_num q1 = length (tl (queue_nodes q))"
    by (rule remove_first_nodes [OF ok])
  with assms(4) have p: "p = (if queue_nodes q = [] then None else Some (hd (queue_nodes q)))"
    and q': "q' = q1" by simp_all
  obtain A B where AB: "owned ws = A @ own (ws ! i) @ B" "\<And>w. owned (ws[i := w]) = A @ own w @ B"
    using owned_update [OF assms(2)] by blast
  have same: "job_of (job_heap q1) a = job_of (job_heap q) a"
    if "a \<in> set (queue_nodes q @ owned ws)" for a
  proof -
    have "a \<in> dom (job_heap q)" using that assms(1) unfolding mem_inv_def by blast
    then show ?thesis using q1(4) by (simp add: domIff)
  qed
  have nodes: "mset (queue_nodes q1 @ owned (ws[i := Taken p])) = mset (queue_nodes q @ owned ws)"
    using AB(1) AB(2) [of "Taken p"] assms(3) p q1(3) by (cases "queue_nodes q") simp_all
  have run: "running_ok (job_heap q1) w" if "w \<in> set (ws[i := Taken p])" for w
  proof (cases "w = Taken p")
    case False
    with that set_update_subset_insert [of ws i "Taken p"] have w: "w \<in> set ws" by blast
    then have "running_ok (job_heap q) w" using assms(1) by (simp add: mem_inv_def)
    then show ?thesis by (rule running_ok_cong) (rule same, simp add: own_in_owned [OF w])
  qed (cases p, auto)
  show "mem_inv q' (ws[i := Taken p])"
    using assms(1) q1(2,5) run mset_eq_setD [OF nodes] mset_eq_imp_distinct_iff [OF nodes]
    unfolding mem_inv_def q' by simp
  show "p = None \<longleftrightarrow> queue_nodes q = []" using p by simp
  have jobs: "queue_jobs q1 = map (job_of (job_heap q)) (tl (queue_nodes q))"
  proof -
    have "\<forall>a\<in>set (tl (queue_nodes q)). job_of (job_heap q1) a = job_of (job_heap q) a"
      using same by (metis Un_iff list.set_sel(2) set_append tl_Nil)
    then show ?thesis unfolding queue_jobs_def q1(3) by simp
  qed
  show "queue_jobs q = (case p of None \<Rightarrow> [] | Some a \<Rightarrow> [job_of (job_heap q) a]) @ queue_jobs q'"
    unfolding q' jobs unfolding queue_jobs_def p by (cases "queue_nodes q") simp_all
  have "map (job_of (job_heap q1)) A = map (job_of (job_heap q)) A"
    "map (job_of (job_heap q1)) B = map (job_of (job_heap q)) B"
    using same AB(1) assms(3) by simp_all
  moreover have "job_of (job_heap q1) a = job_of (job_heap q) a" if "p = Some a" for a
    using p that by (intro same) (auto split: if_splits)
  ultimately show "mset (map (job_of (job_heap q')) (owned (ws[i := Taken p]))) =
      mset (map (job_of (job_heap q)) (owned ws)) +
      mset (case p of None \<Rightarrow> [] | Some a \<Rightarrow> [job_of (job_heap q) a])"
    using AB assms(3) unfolding q' by (cases p) (simp_all del: mset_map map_eq_conv)
  show "queue_sem q' = queue_sem q" "queue_ok q'" using q1 q' by simp_all
  show "p \<noteq> None \<Longrightarrow> job_num q = Suc (job_num q')"
    using q1(7,8) p unfolding q' by (cases "queue_nodes q") simp_all
qed

text \<open>Reading the node.\<close>

lemma taken_step:
  assumes "mem_inv q ws" and "i < length ws" and "ws ! i = Taken (Some a)"
  obtains nd where "job_heap q a = Some nd"
    and "mem_inv q (ws[i := Running a (job_function nd) (job_arg nd)])"
    and "owned (ws[i := Running a (job_function nd) (job_arg nd)]) = owned ws"
proof -
  have "a \<in> set (owned ws)" by (rule own_in_owned [OF nth_mem [OF assms(2)]]) (simp add: assms(3))
  then have "a \<in> dom (job_heap q)" using assms(1) by (auto simp: mem_inv_def)
  then obtain nd where nd: "job_heap q a = Some nd" by auto
  have ok: "queue_ok q" using assms(1) by (simp add: mem_inv_def)
  show ?thesis
    by (rule that [OF nd]; rule mem_inv_same [OF assms(1,2) _ refl refl ok])
      (simp_all add: assms(3) job_of_def nd)
qed

text \<open>The end of a job.\<close>

lemma queue_free_other:
  assumes "queue_ok q" and "a \<notin> set (queue_nodes q)"
  shows "queue_ok (q\<lparr>job_heap := (job_heap q)(a := None)\<rparr>)"
    and "queue_nodes (q\<lparr>job_heap := (job_heap q)(a := None)\<rparr>) = queue_nodes q"
proof -
  have "queue_rep (q\<lparr>job_heap := (job_heap q)(a := None)\<rparr>) (queue_nodes q)"
    using assms by (simp add: queue_ok_def queue_rep_def)
  then show "queue_ok (q\<lparr>job_heap := (job_heap q)(a := None)\<rparr>)"
    and "queue_nodes (q\<lparr>job_heap := (job_heap q)(a := None)\<rparr>) = queue_nodes q"
    by (rule queue_okI, rule queue_nodes_rep)
qed

lemma finish_step:
  assumes "mem_inv q ws" and "i < length ws" and "ws ! i = Running a f x"
  defines "q' \<equiv> q\<lparr>job_heap := (job_heap q)(a := None)\<rparr>"
  shows "job_heap q a \<noteq> None" and "mem_inv q' (ws[i := AtTop])" and "queue_jobs q' = queue_jobs q"
    and "mset (map (job_of (job_heap q)) (owned ws)) =
      mset (map (job_of (job_heap q')) (owned (ws[i := AtTop]))) + mset [(f, x)]"
proof -
  obtain A B where AB: "owned ws = A @ own (ws ! i) @ B" "\<And>w. owned (ws[i := w]) = A @ own w @ B"
    using owned_update [OF assms(2)] by blast
  have d: "distinct (queue_nodes q @ A @ a # B)"
    and dm: "dom (job_heap q) = set (queue_nodes q @ A @ a # B)"
    and ok: "queue_ok q" and run: "\<forall>w\<in>set ws. running_ok (job_heap q) w"
    using assms(1,3) AB by (simp_all add: mem_inv_def)
  show "job_heap q a \<noteq> None" using dm by (auto simp: dom_def)
  from d have a: "a \<notin> set (queue_nodes q)" by auto
  note q = queue_free_other [OF ok a]
  have job: "b \<noteq> a \<Longrightarrow> job_of (job_heap q') b = job_of (job_heap q) b" for b
    by (simp add: q'_def job_of_def)
  have "running_ok (job_heap q') w" if "w \<in> set (ws[i := AtTop])" for w
  proof -
    from that obtain j where j: "j < length ws" "w = (ws[i := AtTop]) ! j"
      by (auto simp: in_set_conv_nth)
    show ?thesis
    proof (cases "j = i")
      case True
      with j assms(2) show ?thesis by simp
    next
      case False
      have w: "w = ws ! j" using j False by simp
      have "a \<notin> set (own w)"
      proof
        assume "a \<in> set (own w)"
        moreover have "w \<in> set (ws[i := AtTop])" by (rule that)
        ultimately have "a \<in> set (owned (ws[i := AtTop]))" by (rule own_in_owned [rotated])
        with AB(2) [of AtTop] d show False by simp
      qed
      then have same: "job_of (job_heap q') b = job_of (job_heap q) b" if "b \<in> set (own w)" for b
      proof -
        from that \<open>a \<notin> set (own w)\<close> have "b \<noteq> a" by auto
        then show ?thesis by (rule job)
      qed
      have "running_ok (job_heap q) w" using run w j(1) by simp
      then show ?thesis by (rule running_ok_cong) (rule same)
    qed
  qed
  note run' = this
  have d': "distinct (queue_nodes q @ A @ B)" using d by simp
  have "dom (job_heap q') = dom (job_heap q) - {a}" by (simp add: q'_def)
  then have dm': "dom (job_heap q') = set (queue_nodes q @ A @ B)" using d dm by auto
  have o: "owned (ws[i := AtTop]) = A @ B" using AB(2) [of AtTop] by simp
  show "mem_inv q' (ws[i := AtTop])"
    using d' dm' run' q(1) unfolding mem_inv_def o q(2) [folded q'_def] by (simp add: q'_def)
  show "queue_jobs q' = queue_jobs q"
  proof -
    have "job_of (job_heap q') b = job_of (job_heap q) b" if "b \<in> set (queue_nodes q)" for b
      using that a by (intro job) auto
    then show ?thesis unfolding queue_jobs_def q(2) [folded q'_def] by simp
  qed
  have "job_of (job_heap q) a = (f, x)"
    using bspec [OF run nth_mem [OF assms(2)]] assms(3) by simp
  moreover have "map (job_of (job_heap q')) C = map (job_of (job_heap q)) C" if "a \<notin> set C" for C
  proof (rule map_cong [OF refl])
    fix b
    assume "b \<in> set C"
    with that have "b \<noteq> a" by auto
    then show "job_of (job_heap q') b = job_of (job_heap q) b" by (rule job)
  qed
  from this [of A] this [of B] d
  have "map (job_of (job_heap q')) A = map (job_of (job_heap q)) A"
    "map (job_of (job_heap q')) B = map (job_of (job_heap q)) B"
    by simp_all
  ultimately show "mset (map (job_of (job_heap q)) (owned ws)) =
      mset (map (job_of (job_heap q')) (owned (ws[i := AtTop]))) + mset [(f, x)]"
    using AB assms(3) by (simp del: mset_map map_eq_conv)
qed

text \<open>A new job.\<close>

lemma add_step:
  assumes "mem_inv q ws" and "job_heap q n = None"
    and "threadpool_add_work q (Some (n, p, nx)) f x = Inr (Some (r, q'))"
  shows "mem_inv q' ws" and "queue_jobs q' = queue_jobs q @ [(f, x)]"
    and "map (job_of (job_heap q')) (owned ws) = map (job_of (job_heap q)) (owned ws)"
    and "queue_sem q' = Suc (queue_sem q)" and "job_num q' = Suc (job_num q)"
proof -
  have rep: "queue_rep q (queue_nodes q)" using assms(1) by (simp add: mem_inv_def queue_ok_def)
  obtain q1 where q1: "threadpool_add_work q (Some (n, p, nx)) f x = Inr (Some (0, q1))"
      "queue_rep q1 (queue_nodes q @ [n])" "dom (job_heap q1) = insert n (dom (job_heap q))"
      "\<forall>a. job_heap q a \<noteq> None \<longrightarrow> job_of (job_heap q1) a = job_of (job_heap q) a"
      "queue_sem q1 = Suc (queue_sem q)"
    using add_work_spec [OF rep assms(2), of p nx f x] by (elim exE conjE)
  have "q1 = q'" using q1(1) assms(3) by simp
  note q' = q1(2-5) [unfolded this]
  have n: "n \<notin> set (queue_nodes q @ owned ws)" using assms(1,2) unfolding mem_inv_def by blast
  have same: "job_of (job_heap q') a = job_of (job_heap q) a" if "a \<in> set (owned ws)" for a
  proof -
    have "a \<in> dom (job_heap q)" using that assms(1) unfolding mem_inv_def by simp
    then show ?thesis using q'(3) by (simp add: domIff)
  qed
  have "running_ok (job_heap q') w" if w: "w \<in> set ws" for w
  proof (rule running_ok_cong)
    show "running_ok (job_heap q) w" using assms(1) w by (simp add: mem_inv_def)
    show "job_of (job_heap q') a = job_of (job_heap q) a" if "a \<in> set (own w)" for a
      by (rule same [OF own_in_owned [OF w that]])
  qed
  moreover have "distinct ((queue_nodes q @ [n]) @ owned ws)"
    using assms(1) n unfolding mem_inv_def by simp
  moreover have "dom (job_heap q') = set ((queue_nodes q @ [n]) @ owned ws)"
    using assms(1) q'(2) unfolding mem_inv_def by simp
  ultimately show "mem_inv q' ws"
    using queue_okI [OF q'(1)] unfolding mem_inv_def queue_nodes_rep [OF q'(1)] by simp
  show "queue_jobs q' = queue_jobs q @ [(f, x)]" by (rule add_work_jobs [OF rep assms(2,3)])
  show "map (job_of (job_heap q')) (owned ws) = map (job_of (job_heap q)) (owned ws)"
    using same by simp
  show "queue_sem q' = Suc (queue_sem q)" by (rule q'(4))
  show "job_num q' = Suc (job_num q)" using q'(1) rep by (simp add: queue_rep_def)
qed

lemma init_fields:
  "job_num threadpool_job_queue_init = 0" "queue_sem threadpool_job_queue_init = 0"
  "job_heap threadpool_job_queue_init = Map.empty"
  by (simp_all add: threadpool_job_queue_init_def)

lemma live_initial:
  assumes "threadpool_init True True True True True n = Inr (Some s)"
  shows "live_inv s"
proof -
  from assms obtain m where s: "s = \<lparr>threads_num = m, job_queue = threadpool_job_queue_init,
      keepalive = True, workers = replicate m AtTop, main_pc = Serving, added = [], taken = [],
      finished = [], dropped = []\<rparr>"
    by (auto simp: threadpool_init_def Let_def)
  have o: "owned (replicate m AtTop) = []" by (simp add: owned_def)
  have "count_if past_sem (replicate m AtTop) = 0" by (simp add: count_if_def)
  then show ?thesis
    by (simp add: s live_inv_def mem_inv_def log_inv_def sem_inv_def o init_fields init_ok
      init_empty(2) queue_nodes_rep [OF init_rep])
qed

text \<open>The semaphore invariant under a change of one worker.\<close>

lemma sem_inv_worker:
  assumes "sem_inv s" and "i < length (workers s)" and "workers s' = (workers s)[i := w]"
    and "main_pc s' = main_pc s" and "keepalive s' = keepalive s" and "threads_num s' = threads_num s"
    and "keepalive s \<Longrightarrow> w \<noteq> Exited \<and> w \<noteq> Taken None"
    and "keepalive s \<Longrightarrow>
      queue_sem (job_queue s') + (if past_sem w then 1 else 0) + job_num (job_queue s) =
      queue_sem (job_queue s) + (if past_sem (workers s ! i) then 1 else 0) + job_num (job_queue s')"
    and "\<not> keepalive s \<Longrightarrow> (if w = AtSem then 1 else 0) + queue_sem (job_queue s) \<le>
      queue_sem (job_queue s') + (if workers s ! i = AtSem then 1 else 0)"
  shows "sem_inv s'"
proof -
  have past: "count_if past_sem (workers s') + (if past_sem (workers s ! i) then 1 else 0) =
      count_if past_sem (workers s) + (if past_sem w then 1 else 0)"
    unfolding assms(3) by (rule count_if_update [OF assms(2)])
  have at: "count_if (\<lambda>w. w = AtSem) (workers s') + (if workers s ! i = AtSem then 1 else 0) =
      count_if (\<lambda>w. w = AtSem) (workers s) + (if w = AtSem then 1 else 0)"
    unfolding assms(3) by (rule count_if_update [OF assms(2)])
  have sub: "set (workers s') \<subseteq> insert w (set (workers s))"
    unfolding assms(3) by (rule set_update_subset_insert)
  show ?thesis
  proof (cases "main_pc s")
    case Serving
    then have k: "keepalive s" "\<forall>w\<in>set (workers s). w \<noteq> Exited \<and> w \<noteq> Taken None"
      "queue_sem (job_queue s) + count_if past_sem (workers s) = job_num (job_queue s)"
      using assms(1) by (simp_all add: sem_inv_def)
    have "queue_sem (job_queue s') + count_if past_sem (workers s') = job_num (job_queue s')"
      using assms(8) [OF k(1)] k(3) past by linarith
    moreover have "\<forall>w\<in>set (workers s'). w \<noteq> Exited \<and> w \<noteq> Taken None"
      using sub k(2) assms(7) [OF k(1)] by blast
    ultimately show ?thesis using Serving k(1) assms(4,5) by (simp add: sem_inv_def)
  next
    case (Posting n)
    with assms(1) have "\<not> keepalive s \<and> n \<le> threads_num s \<and>
        count_if (\<lambda>w. w = AtSem) (workers s) \<le> queue_sem (job_queue s) + (threads_num s - n)"
      by (simp only: sem_inv_def main.case simp_thms)
    then have k: "\<not> keepalive s" "n \<le> threads_num s"
      "count_if (\<lambda>w. w = AtSem) (workers s) \<le> queue_sem (job_queue s) + (threads_num s - n)"
      by blast+
    have "count_if (\<lambda>w. w = AtSem) (workers s') \<le> queue_sem (job_queue s') + (threads_num s - n)"
      using assms(9) [OF k(1)] k(3) at by (simp split: if_splits)
    with Posting k assms(4-6) show ?thesis by (simp add: sem_inv_def)
  next
    case Joining
    then have k: "\<not> keepalive s" "count_if (\<lambda>w. w = AtSem) (workers s) \<le> queue_sem (job_queue s)"
      using assms(1) by (simp_all add: sem_inv_def)
    have "count_if (\<lambda>w. w = AtSem) (workers s') \<le> queue_sem (job_queue s')"
      using assms(9) [OF k(1)] k(2) at by (simp split: if_splits)
    with Joining k assms(4-6) show ?thesis by (simp add: sem_inv_def)
  next
    case Destroyed
    with assms(1) show ?thesis by (simp add: sem_inv_def)
  qed
qed

lemma live_worker_same:
  assumes "live_inv s" and "i < length (workers s)" and "own w = own (workers s ! i)"
    and "running_ok (job_heap (job_queue s)) w" and "k \<le> queue_sem (job_queue s)"
    and "keepalive s \<Longrightarrow> w \<noteq> Exited \<and> w \<noteq> Taken None"
    and "keepalive s \<Longrightarrow> k + (if past_sem w then 1 else 0) =
      queue_sem (job_queue s) + (if past_sem (workers s ! i) then 1 else 0)"
    and "\<not> keepalive s \<Longrightarrow> (if w = AtSem then 1 else 0) + queue_sem (job_queue s) \<le>
      k + (if workers s ! i = AtSem then 1 else 0)"
  shows "live_inv (set_worker (s\<lparr>job_queue := (job_queue s)\<lparr>queue_sem := k\<rparr>\<rparr>) i w)"
    (is "live_inv ?s")
proof -
  let ?q = "(job_queue s)\<lparr>queue_sem := k\<rparr>"
  have mem: "mem_inv (job_queue s) (workers s)" using assms(1) by (simp add: live_inv_def)
  then have ok: "queue_ok (job_queue s)" by (simp add: mem_inv_def)
  note q = queue_sem_same [OF ok, of k]
  note m = mem_inv_same [OF mem assms(2,3), of ?q, OF _ q(2,1) assms(4)]
  have "sem_inv ?s"
    by (rule sem_inv_worker [of s i _ w]) (use assms in \<open>auto simp: live_inv_def set_worker_def\<close>)
  with assms(1) m q show ?thesis by (simp add: live_inv_def log_inv_def set_worker_def)
qed

lemma set_worker_id:
  "set_worker s i w = set_worker (s\<lparr>job_queue := (job_queue s)\<lparr>queue_sem := queue_sem (job_queue s)\<rparr>\<rparr>) i w"
  by simp

lemma live_lock:
  assumes "live_inv s" and i: "i < length (workers s)" and w: "workers s ! i = AtLock"
  shows "\<exists>s'. threadpool_thread_run s i = Inr (Some s') \<and> live_inv s'"
proof -
  have mem: "mem_inv (job_queue s) (workers s)" and log: "log_inv s" and sem: "sem_inv s"
    and len: "length (workers s) = threads_num s"
    using assms(1) by (simp_all add: live_inv_def)
  then have ok: "queue_ok (job_queue s)" by (simp add: mem_inv_def)
  obtain p q' where r: "threadpool_job_queue_remove_first (job_queue s) = Inr (p, q')"
    by (rule remove_first_nodes [OF ok])
  note st = lock_step [OF mem i w r]
  let ?t = "case p of None \<Rightarrow> [] | Some a \<Rightarrow> [job_of (job_heap (job_queue s)) a]"
  let ?s = "set_worker (s\<lparr>job_queue := q', taken := taken s @ ?t\<rparr>) i (Taken p)"
  have run: "threadpool_thread_run s i = Inr (Some ?s)" by (simp add: threadpool_thread_run_def w r)
  have pos: "p \<noteq> None" if "keepalive s"
  proof -
    from that sem have "queue_sem (job_queue s) + count_if past_sem (workers s) = job_num (job_queue s)"
      by (auto simp: sem_inv_def split: main.splits)
    moreover have "0 < count_if past_sem (workers s)" by (rule count_if_pos [OF i]) (simp add: w)
    ultimately have "0 < job_num (job_queue s)" by simp
    moreover have "job_num (job_queue s) = length (queue_nodes (job_queue s))"
      using ok by (simp add: queue_ok_def queue_rep_def)
    ultimately show ?thesis using st(2) by auto
  qed
  have "sem_inv ?s"
    by (rule sem_inv_worker [OF sem i, of _ "Taken p"])
      (use pos st(5,6) in \<open>auto simp: set_worker_def w\<close>)
  moreover have "log_inv ?s" using log st(3,4) by (simp add: log_inv_def set_worker_def)
  ultimately have "live_inv ?s" using st(1) len by (simp add: live_inv_def set_worker_def)
  with run show ?thesis by blast
qed

lemma live_taken:
  assumes "live_inv s" and i: "i < length (workers s)" and w: "workers s ! i = Taken (Some a)"
  shows "\<exists>s'. threadpool_thread_run s i = Inr (Some s') \<and> live_inv s'"
proof -
  have mem: "mem_inv (job_queue s) (workers s)" and log: "log_inv s" and sem: "sem_inv s"
    and len: "length (workers s) = threads_num s"
    using assms(1) by (simp_all add: live_inv_def)
  obtain nd where nd: "job_heap (job_queue s) a = Some nd"
    "mem_inv (job_queue s) ((workers s)[i := Running a (job_function nd) (job_arg nd)])"
    "owned ((workers s)[i := Running a (job_function nd) (job_arg nd)]) = owned (workers s)"
    by (rule taken_step [OF mem i w])
  let ?s = "set_worker s i (Running a (job_function nd) (job_arg nd))"
  have "sem_inv ?s" by (rule sem_inv_worker [OF sem i]) (auto simp: set_worker_def w)
  with nd log len have "live_inv ?s" by (simp add: live_inv_def log_inv_def set_worker_def)
  moreover have "threadpool_thread_run s i = Inr (Some ?s)"
    using nd(1) by (simp add: threadpool_thread_run_def w node_at_def)
  ultimately show ?thesis by blast
qed

lemma live_finish:
  assumes "live_inv s" and i: "i < length (workers s)" and w: "workers s ! i = Running a f x"
  shows "\<exists>s'. threadpool_thread_run s i = Inr (Some s') \<and> live_inv s'"
proof -
  have mem: "mem_inv (job_queue s) (workers s)" and log: "log_inv s" and sem: "sem_inv s"
    and len: "length (workers s) = threads_num s"
    using assms(1) by (simp_all add: live_inv_def)
  note st = finish_step [OF mem i w]
  let ?s = "set_worker (s\<lparr>job_queue := (job_queue s)\<lparr>job_heap := (job_heap (job_queue s))(a := None)\<rparr>,
      finished := finished s @ [(f, x)]\<rparr>) i AtTop"
  have "sem_inv ?s" by (rule sem_inv_worker [OF sem i, of _ AtTop]) (auto simp: set_worker_def w)
  moreover have "log_inv ?s" using log st(3,4) by (simp add: log_inv_def set_worker_def)
  ultimately have "live_inv ?s" using st(2) len by (simp add: live_inv_def set_worker_def)
  moreover have "threadpool_thread_run s i = Inr (Some ?s)"
    using st(1) by (auto simp: threadpool_thread_run_def w free_node_def)
  ultimately show ?thesis by blast
qed

lemma live_worker:
  assumes "live_inv s" and i: "i < length (workers s)"
  shows "(\<exists>s'. threadpool_thread_run s i = Inr (Some s') \<and> live_inv s') \<or>
    threadpool_thread_run s i = Inr None \<and>
    (workers s ! i = Exited \<or> workers s ! i = AtSem \<and> queue_sem (job_queue s) = 0)"
proof (cases "workers s ! i")
  case AtTop
  have "live_inv (set_worker s i (if keepalive s then AtSem else Exited))"
    unfolding set_worker_id [of s]
    by (rule live_worker_same [OF assms]) (auto simp: AtTop)
  with AtTop show ?thesis by (simp add: threadpool_thread_run_def)
next
  case AtSem
  show ?thesis
  proof (cases "queue_sem (job_queue s) = 0")
    case False
    have "live_inv (set_worker
        (s\<lparr>job_queue := (job_queue s)\<lparr>queue_sem := queue_sem (job_queue s) - 1\<rparr>\<rparr>) i Woken)"
      by (rule live_worker_same [OF assms]) (use False in \<open>auto simp: AtSem\<close>)
    with AtSem False show ?thesis by (simp add: threadpool_thread_run_def)
  qed (simp add: threadpool_thread_run_def AtSem)
next
  case Woken
  have "live_inv (set_worker s i (if keepalive s then AtLock else AtTop))"
    unfolding set_worker_id [of s]
    by (rule live_worker_same [OF assms]) (auto simp: Woken)
  with Woken show ?thesis by (simp add: threadpool_thread_run_def)
next
  case AtLock
  from live_lock [OF assms this] show ?thesis by blast
next
  case (Taken p)
  show ?thesis
  proof (cases p)
    case None
    have "live_inv (set_worker s i AtTop)"
      unfolding set_worker_id [of s]
      by (rule live_worker_same [OF assms]) (auto simp: Taken None)
    with Taken None show ?thesis by (simp add: threadpool_thread_run_def)
  next
    case (Some a)
    from live_taken [OF assms Taken [unfolded Some]] show ?thesis by blast
  qed
next
  case (Running a f x)
  from live_finish [OF assms this] show ?thesis by blast
next
  case Exited
  then show ?thesis by (simp add: threadpool_thread_run_def)
qed

lemma count_if_le: "count_if P xs \<le> length xs"
  by (simp add: count_if_def)

lemma live_destroy:
  assumes "live_inv s"
  shows "(\<exists>s'. threadpool_destroy s = Inr (Some s') \<and> (live_inv s' \<or> dead_inv s')) \<or>
    threadpool_destroy s = Inr None \<and> main_pc s = Joining \<and> (\<exists>w\<in>set (workers s). w \<noteq> Exited)"
proof -
  have mem: "mem_inv (job_queue s) (workers s)" and log: "log_inv s" and sem: "sem_inv s"
    and len: "length (workers s) = threads_num s"
    using assms(1) by (simp_all add: live_inv_def)
  then have ok: "queue_ok (job_queue s)" by (simp add: mem_inv_def)
  show ?thesis
  proof (cases "main_pc s")
    case Serving
    let ?s = "s\<lparr>keepalive := False, main_pc := Posting 0\<rparr>"
    have "sem_inv ?s"
      using count_if_le [of "\<lambda>w. w = AtSem" "workers s"] len by (simp add: sem_inv_def)
    with mem log len have "live_inv ?s" by (simp add: live_inv_def log_inv_def)
    with Serving show ?thesis by (simp add: threadpool_destroy_def)
  next
    case (Posting k)
    with sem have p: "\<not> keepalive s \<and> k \<le> threads_num s \<and>
        count_if (\<lambda>w. w = AtSem) (workers s) \<le> queue_sem (job_queue s) + (threads_num s - k)"
      by (simp only: sem_inv_def main.case simp_thms)
    show ?thesis
    proof (cases "k < threads_num s")
      case True
      let ?q = "(job_queue s)\<lparr>queue_sem := queue_sem (job_queue s) + 1\<rparr>"
      let ?s = "s\<lparr>job_queue := ?q, main_pc := Posting (k + 1)\<rparr>"
      note q = queue_sem_same [OF ok, of "queue_sem (job_queue s) + 1"]
      have "sem_inv ?s" using p True by (auto simp: sem_inv_def)
      moreover have "mem_inv ?q (workers s)"
        using mem q unfolding mem_inv_def by simp
      ultimately have "live_inv ?s" using log len q(3) by (simp add: live_inv_def log_inv_def)
      with Posting True show ?thesis by (simp add: threadpool_destroy_def)
    next
      case False
      have "sem_inv (s\<lparr>main_pc := Joining\<rparr>)" using p False by (simp add: sem_inv_def)
      with mem log len have "live_inv (s\<lparr>main_pc := Joining\<rparr>)" by (simp add: live_inv_def log_inv_def)
      with Posting False show ?thesis by (simp add: threadpool_destroy_def)
    qed
  next
    case Joining
    show ?thesis
    proof (cases "list_all (\<lambda>w. w = Exited) (workers s)")
      case True
      then have "\<forall>w\<in>set (workers s). own w = []" by (auto simp: list_all_iff)
      then have o: "owned (workers s) = []" by (simp add: owned_def)
      obtain q' where q': "threadpool_job_queue_empty (job_queue s) = Inr q'"
        "\<forall>a. job_heap q' a = (if a \<in> set (queue_nodes (job_queue s)) then None else job_heap (job_queue s) a)"
        using queue_empty_all [OF ok] by blast
      have "job_heap q' a = None" for a
      proof (cases "a \<in> set (queue_nodes (job_queue s))")
        case False
        with mem o have "a \<notin> dom (job_heap (job_queue s))" by (simp add: mem_inv_def)
        with q'(2) False show ?thesis by (simp add: domIff)
      qed (use q'(2) in simp)
      with True log len o have "dead_inv (s\<lparr>job_queue := q', main_pc := Destroyed,
          dropped := queue_jobs (job_queue s)\<rparr>)"
        by (simp add: dead_inv_def log_inv_def list_all_iff)
      with True q'(1) Joining show ?thesis by (simp add: threadpool_destroy_def)
    next
      case False
      with Joining have "threadpool_destroy s = Inr None" by (simp add: threadpool_destroy_def)
      moreover from False have "\<exists>w\<in>set (workers s). w \<noteq> Exited" by (simp add: list_all_iff)
      ultimately show ?thesis using Joining by simp
    qed
  next
    case Destroyed
    with sem show ?thesis by (simp add: sem_inv_def)
  qed
qed

lemma live_add:
  assumes "live_inv s" and "main_pc s = Serving" and "job_heap (job_queue s) n = None"
    and "threadpool_add_work (job_queue s) (Some (n, p, nx)) f x = Inr (Some (r, q))"
  shows "live_inv (s\<lparr>job_queue := q, added := added s @ [(f, x)]\<rparr>)"
proof -
  have mem: "mem_inv (job_queue s) (workers s)" and log: "log_inv s" and sem: "sem_inv s"
    and len: "length (workers s) = threads_num s"
    using assms(1) by (simp_all add: live_inv_def)
  note st = add_step [OF mem assms(3,4)]
  have "sem_inv (s\<lparr>job_queue := q, added := added s @ [(f, x)]\<rparr>)"
    using sem assms(2) st(4,5) by (simp add: sem_inv_def)
  moreover have "log_inv (s\<lparr>job_queue := q, added := added s @ [(f, x)]\<rparr>)"
    using log st(2,3) by (simp add: log_inv_def del: mset_map map_eq_conv)
  ultimately show ?thesis using st(1) len by (simp add: live_inv_def)
qed

lemma dead_stops:
  assumes "dead_inv s"
  shows "\<not> pool_step s s'"
proof
  assume "pool_step s s'"
  then show False
  proof (cases rule: pool_step.cases)
    case (step_worker i)
    with assms have "workers s ! i = Exited" by (simp add: dead_inv_def)
    with step_worker show False by (simp add: threadpool_thread_run_def)
  qed (use assms in \<open>auto simp: dead_inv_def threadpool_destroy_def\<close>)
qed

lemma live_step:
  assumes "live_inv s" and "pool_step s s'"
  shows "live_inv s' \<or> dead_inv s'"
  using assms(2)
proof (cases rule: pool_step.cases)
  case (step_worker i)
  with live_worker [OF assms(1), of i] show ?thesis by auto
next
  case step_destroy
  with live_destroy [OF assms(1)] show ?thesis by auto
next
  case (step_add n p nx f x r q)
  with live_add [OF assms(1)] show ?thesis by blast
qed

lemma pool_reach_inv: "pool_reach n s \<Longrightarrow> live_inv s \<or> dead_inv s"
proof (induction rule: pool_reach.induct)
  case (reach_init s)
  then show ?case using live_initial by blast
next
  case (reach_step s s')
  then show ?case using live_step dead_stops by blast
qed

section \<open>Termination of the shutdown\<close>

text \<open>How much work a worker has left once \<open>threadpool_keepalive\<close> is 0.\<close>

fun steps_left :: "('f, 'a) worker \<Rightarrow> nat" where
  "steps_left Exited = 0"
| "steps_left AtTop = 1"
| "steps_left (Taken None) = 2"
| "steps_left (Running a f x) = 2"
| "steps_left (Taken (Some a)) = 3"
| "steps_left AtLock = 4"
| "steps_left Woken = 2"
| "steps_left AtSem = 3"

fun main_left :: "nat \<Rightarrow> main \<Rightarrow> nat" where
  "main_left n Serving = n + 3"
| "main_left n (Posting k) = (n - k) + 2"
| "main_left n Joining = 1"
| "main_left n Destroyed = 0"

definition shutdown_left :: "('f, 'a) tpool \<Rightarrow> nat" where
  "shutdown_left s = main_left (threads_num s) (main_pc s) + sum_list (map steps_left (workers s))"

lemma steps_left_update:
  assumes "i < length ws"
  shows "sum_list (map steps_left (ws[i := w])) + steps_left (ws ! i) =
    sum_list (map steps_left ws) + steps_left w"
proof -
  have "ws = take i ws @ ws ! i # drop (Suc i) ws" using assms by (simp add: id_take_nth_drop)
  then have "sum_list (map steps_left ws) =
      sum_list (map steps_left (take i ws @ ws ! i # drop (Suc i) ws))" by simp
  moreover have "ws[i := w] = take i ws @ w # drop (Suc i) ws"
    using assms by (simp add: upd_conv_take_nth_drop)
  ultimately show ?thesis by simp
qed

lemma shapeI:
  assumes "s' = set_worker (s\<lparr>job_queue := q, taken := t, finished := l\<rparr>) i w"
    and "steps_left w < n"
  shows "\<exists>w. workers s' = (workers s)[i := w] \<and> main_pc s' = main_pc s \<and>
    threads_num s' = threads_num s \<and> keepalive s' = keepalive s \<and> steps_left w < n"
  using assms(2) unfolding assms(1) set_worker_def by (intro exI [of _ w]) simp

lemma worker_step_shape:
  assumes run: "threadpool_thread_run s i = Inr (Some s')" and "\<not> keepalive s"
  shows "\<exists>w. workers s' = (workers s)[i := w] \<and> main_pc s' = main_pc s \<and>
    threads_num s' = threads_num s \<and> keepalive s' = keepalive s \<and>
    steps_left w < steps_left (workers s ! i)"
proof -
  note run = run [unfolded threadpool_thread_run_def]
  show ?thesis
  proof (cases "workers s ! i")
    case AtTop
    with run assms(2) have "s' = set_worker (s\<lparr>job_queue := job_queue s, taken := taken s,
        finished := finished s\<rparr>) i Exited" by simp
    then show ?thesis by (rule shapeI) (simp add: AtTop)
  next
    case AtSem
    with run have "s' = set_worker (s\<lparr>job_queue := (job_queue s)\<lparr>queue_sem := queue_sem (job_queue s) - 1\<rparr>,
        taken := taken s, finished := finished s\<rparr>) i Woken" by (simp split: if_splits)
    then show ?thesis by (rule shapeI) (simp add: AtSem)
  next
    case Woken
    with run assms(2) have "s' = set_worker (s\<lparr>job_queue := job_queue s, taken := taken s,
        finished := finished s\<rparr>) i AtTop" by simp
    then show ?thesis by (rule shapeI) (simp add: Woken)
  next
    case AtLock
    with run obtain p q where "s' = set_worker (s\<lparr>job_queue := q, taken := taken s @
        (case p of None \<Rightarrow> [] | Some a \<Rightarrow> [job_of (job_heap (job_queue s)) a]),
        finished := finished s\<rparr>) i (Taken p)"
      by (auto simp: bindR_eq_Inr_iff)
    moreover have "steps_left (Taken p) < steps_left (workers s ! i)"
      using AtLock by (cases p) simp_all
    ultimately show ?thesis by (rule shapeI)
  next
    case (Taken p)
    show ?thesis
    proof (cases p)
      case None
      with Taken run have "s' = set_worker (s\<lparr>job_queue := job_queue s, taken := taken s,
        finished := finished s\<rparr>) i AtTop" by simp
      then show ?thesis by (rule shapeI) (simp add: Taken None)
    next
      case (Some a)
      with Taken run obtain b nd where "node_at (job_heap (job_queue s)) (Some a) = Inr (b, nd)" "s' = set_worker (s\<lparr>job_queue := job_queue s, taken := taken s,
        finished := finished s\<rparr>) i (Running a (job_function nd) (job_arg nd))"
        by (auto simp: bindR_eq_Inr_iff)
      from this(2) show ?thesis by (rule shapeI) (simp add: Taken Some)
    qed
  next
    case (Running a f x)
    with run obtain h where "s' = set_worker (s\<lparr>job_queue := (job_queue s)\<lparr>job_heap := h\<rparr>,
        taken := taken s, finished := finished s @ [(f, x)]\<rparr>) i AtTop"
      by (auto simp: bindR_eq_Inr_iff)
    then show ?thesis by (rule shapeI) (simp add: Running)
  next
    case Exited
    with run show ?thesis by simp
  qed
qed

lemma worker_step_left:
  assumes "threadpool_thread_run s i = Inr (Some s')" and "i < length (workers s)"
    and "\<not> keepalive s"
  shows "shutdown_left s' < shutdown_left s" and "\<not> keepalive s'" and "main_pc s' = main_pc s"
proof -
  from worker_step_shape [OF assms(1,3)] obtain w where
    w: "workers s' = (workers s)[i := w]" "main_pc s' = main_pc s" "threads_num s' = threads_num s"
      "keepalive s' = keepalive s" "steps_left w < steps_left (workers s ! i)" by blast
  with steps_left_update [OF assms(2), of w] show "shutdown_left s' < shutdown_left s"
    by (simp add: shutdown_left_def)
  show "\<not> keepalive s'" "main_pc s' = main_pc s" using w assms(3) by simp_all
qed

lemma destroy_step_left:
  assumes "threadpool_destroy s = Inr (Some s')"
  shows "shutdown_left s' < shutdown_left s" and "\<not> keepalive s \<Longrightarrow> \<not> keepalive s'"
proof -
  have "workers s' = workers s \<and> threads_num s' = threads_num s \<and>
      main_left (threads_num s) (main_pc s') < main_left (threads_num s) (main_pc s) \<and>
      (keepalive s' \<longrightarrow> keepalive s)"
  proof (cases "main_pc s")
    case (Posting k)
    with assms show ?thesis by (cases "k < threads_num s") (auto simp: threadpool_destroy_def)
  qed (use assms in \<open>auto simp: threadpool_destroy_def bindR_eq_Inr_iff split: if_splits\<close>)
  then show "shutdown_left s' < shutdown_left s" and "\<not> keepalive s \<Longrightarrow> \<not> keepalive s'"
    by (auto simp: shutdown_left_def)
qed

lemma shutdown_not_serving: "live_inv s \<Longrightarrow> \<not> keepalive s \<Longrightarrow> main_pc s \<noteq> Serving"
  by (auto simp: live_inv_def sem_inv_def)

text \<open>While the workers wait in vain, a worker that is past the semaphore can go on.\<close>

lemma blocked_all_exited:
  assumes "live_inv s" and "main_pc s = Joining"
    and "\<And>i. i < length (workers s) \<Longrightarrow> threadpool_thread_run s i = Inr None"
  shows "\<forall>w\<in>set (workers s). w = Exited"
proof -
  have "workers s ! i = Exited" if i: "i < length (workers s)" for i
  proof (rule ccontr)
    assume "workers s ! i \<noteq> Exited"
    with live_worker [OF assms(1) i] assms(3) [OF i]
    have w: "workers s ! i = AtSem" "queue_sem (job_queue s) = 0" by auto
    from w(1) have "0 < count_if (\<lambda>w. w = AtSem) (workers s)" by (intro count_if_pos [OF i])
    moreover have "count_if (\<lambda>w. w = AtSem) (workers s) \<le> queue_sem (job_queue s)"
      using assms(1,2) by (simp add: live_inv_def sem_inv_def)
    ultimately show False using w(2) by simp
  qed
  then show ?thesis by (metis in_set_conv_nth)
qed

text \<open>Running a schedule: \<open>Some i\<close> is a step of worker \<open>i\<close>, \<open>None\<close> one of the destruction.\<close>

fun run_schedule :: "('f, 'a) tpool \<Rightarrow> nat option list \<Rightarrow> ('f, 'a) tpool option" where
  "run_schedule s [] = Some s"
| "run_schedule s (x # xs) =
     (case (case x of None \<Rightarrow> threadpool_destroy s
        | Some i \<Rightarrow> if i < length (workers s) then threadpool_thread_run s i else Inr None) of
        Inr (Some s') \<Rightarrow> run_schedule s' xs
      | _ \<Rightarrow> None)"

lemma run_schedule_reach:
  "pool_reach n s \<Longrightarrow> run_schedule s xs = Some s' \<Longrightarrow> pool_reach n s'"
  by (induction s xs rule: run_schedule.induct)
    (auto split: option.splits sum.splits if_splits intro: reach_step step_worker step_destroy)

text \<open>A pool with one worker and one queued job.\<close>

definition pool_1 :: "(string, nat) tpool" where
  "pool_1 = \<lparr>threads_num = 1, job_queue = threadpool_job_queue_init, keepalive = True,
     workers = [AtTop], main_pc = Serving, added = [], taken = [], finished = [], dropped = []\<rparr>"

definition pool_1_job :: "(string, nat) tpool" where
  "pool_1_job = pool_1\<lparr>job_queue := \<lparr>job_heap = [5 \<mapsto> \<lparr>job_function = ''read'', job_arg = 3,
      job_prev = None, job_next = None\<rparr>], job_num = 1, queue_sem = 1, queue_head = Some 5,
      queue_tail = Some 5\<rparr>, added := [(''read'', 3)]\<rparr>"

lemma pool_1_reach: "pool_reach 1 pool_1"
  by (rule reach_init) (simp add: threadpool_init_def pool_1_def)

lemma pool_1_job_reach: "pool_reach 1 pool_1_job"
proof -
  have "threadpool_add_work (job_queue pool_1) (Some (5, None, None)) ''read'' 3 =
      Inr (Some (0, job_queue pool_1_job))"
    by (simp add: pool_1_def pool_1_job_def threadpool_job_queue_init_def threadpool_add_work_def
      threadpool_job_queue_add_def node_at_def Let_def)
  from step_add [OF _ _ this] have
    "pool_step pool_1 (pool_1\<lparr>job_queue := job_queue pool_1_job, added := added pool_1 @ [(''read'', 3)]\<rparr>)"
    by (simp add: pool_1_def threadpool_job_queue_init_def)
  moreover have "pool_1\<lparr>job_queue := job_queue pool_1_job, added := added pool_1 @ [(''read'', 3)]\<rparr> = pool_1_job"
    by (simp add: pool_1_def pool_1_job_def)
  ultimately show ?thesis using pool_1_reach reach_step by metis
qed

lemmas run_simps = pool_1_job_def pool_1_def threadpool_destroy_def threadpool_thread_run_def
  set_worker_def

text \<open>A worker that is in its job.\<close>

definition busy :: "('f, 'a) worker \<Rightarrow> bool" where
  "busy w = (case w of Running a f x \<Rightarrow> True | _ \<Rightarrow> False)"

section \<open>Properties\<close>



text \<open>
  C2: jobs are started in the order in which they were added, each at most once, and none is
  lost while the pool exists: what was added is what was taken followed by what is queued (or, at
  the end, was queued when the pool was destroyed); a job that was taken has finished or is with
  a worker.
\<close>

theorem thread_pool_jobs_in_order:
  assumes "pool_reach n s"
  shows "added s = taken s @ (if main_pc s = Destroyed then dropped s else queue_jobs (job_queue s)) \<and>
    mset (taken s) = mset (finished s) + (if main_pc s = Destroyed then {#}
      else mset (map (job_of (job_heap (job_queue s))) (owned (workers s))))"
proof -
  have "(main_pc s \<noteq> Destroyed \<and> log_inv s) \<or> dead_inv s"
    using pool_reach_inv [OF assms] by (auto simp: live_inv_def sem_inv_def)
  then show ?thesis by (auto simp: dead_inv_def log_inv_def)
qed

theorem thread_pool_jobs_in_order_witness:
  "added pool_1_job = taken pool_1_job @ queue_jobs (job_queue pool_1_job)"
  using thread_pool_jobs_in_order [OF pool_1_job_reach] by (simp add: pool_1_job_def pool_1_def)

text \<open>
  C18: while the pool serves, a queued job and a worker that is not busy with a job are enough for
  progress: some such worker can make a step, so no wake-up is ever lost.
\<close>

theorem thread_pool_no_lost_wakeup:
  assumes "pool_reach n s" and "main_pc s = Serving" and "0 < job_num (job_queue s)"
    and "w \<in> set (workers s)" and "\<not> busy w"
  shows "\<exists>i<length (workers s). \<not> busy (workers s ! i) \<and>
    (\<exists>s'. threadpool_thread_run s i = Inr (Some s'))"
proof (rule ccontr)
  assume none: "\<not> ?thesis"
  from pool_reach_inv [OF assms(1)] assms(2) have live: "live_inv s" by (auto simp: dead_inv_def)
  with assms(2) have k: "\<forall>w\<in>set (workers s). w \<noteq> Exited"
    "queue_sem (job_queue s) + count_if past_sem (workers s) = job_num (job_queue s)"
    by (simp_all add: live_inv_def sem_inv_def)
  have stuck: "workers s ! i = AtSem \<and> queue_sem (job_queue s) = 0"
    if "i < length (workers s)" "\<not> busy (workers s ! i)" for i
    using live_worker [OF live that(1)] none that k(1) by auto
  from assms(4) obtain i where "i < length (workers s)" "workers s ! i = w"
    by (auto simp: in_set_conv_nth)
  with stuck assms(5) have "queue_sem (job_queue s) = 0" by blast
  moreover have "count_if past_sem (workers s) = 0"
  proof -
    have "\<not> past_sem (workers s ! i)" if "i < length (workers s)" for i
      using stuck [OF that] by (cases "workers s ! i") (simp_all add: busy_def)
    then show ?thesis by (simp add: count_if_0)
  qed
  ultimately show False using k(2) assms(3) by simp
qed

theorem thread_pool_no_lost_wakeup_witness:
  "\<exists>i<1. \<exists>s'. threadpool_thread_run pool_1_job i = Inr (Some s')"
proof -
  have f: "main_pc pool_1_job = Serving" "job_num (job_queue pool_1_job) = 1"
    "workers pool_1_job = [AtTop]" by (simp_all add: pool_1_job_def pool_1_def)
  have "\<exists>i<length (workers pool_1_job). \<not> busy (workers pool_1_job ! i) \<and>
      (\<exists>s'. threadpool_thread_run pool_1_job i = Inr (Some s'))"
    by (rule thread_pool_no_lost_wakeup [OF pool_1_job_reach f(1), of AtTop])
      (simp_all add: f busy_def)
  then show ?thesis by (auto simp: f)
qed

text \<open>
  C8: once \<open>threadpool_destroy\<close> has begun, the pool always comes to its end, provided that the
  jobs that are running return: until then some step is possible, and every step, of whichever
  thread, makes a measure smaller. No worker is left behind in \<open>sem_wait\<close>.
\<close>

theorem thread_pool_shutdown_terminates:
  assumes "pool_reach n s" and "\<not> keepalive s" and "main_pc s \<noteq> Destroyed"
  shows "(\<exists>s'. pool_step s s') \<and>
    (\<forall>s'. pool_step s s' \<longrightarrow> \<not> keepalive s' \<and> shutdown_left s' < shutdown_left s)"
proof -
  from pool_reach_inv [OF assms(1)] assms(3) have live: "live_inv s" by (auto simp: dead_inv_def)
  have ns: "main_pc s \<noteq> Serving" by (rule shutdown_not_serving [OF live assms(2)])
  have "\<exists>s'. pool_step s s'"
  proof (cases "\<exists>s'. threadpool_destroy s = Inr (Some s')")
    case True
    then show ?thesis using step_destroy by blast
  next
    case False
    with live_destroy [OF live] have j: "main_pc s = Joining" "\<exists>w\<in>set (workers s). w \<noteq> Exited"
      by blast+
    with blocked_all_exited [OF live] obtain i where
      i: "i < length (workers s)" "threadpool_thread_run s i \<noteq> Inr None" by blast
    with live_worker [OF live i(1)] show ?thesis using step_worker by blast
  qed
  moreover have "\<not> keepalive s' \<and> shutdown_left s' < shutdown_left s" if "pool_step s s'" for s'
    using that
  proof (cases rule: pool_step.cases)
    case (step_worker i)
    with worker_step_left [OF _ _ assms(2)] show ?thesis by blast
  next
    case step_destroy
    with destroy_step_left assms(2) show ?thesis by blast
  next
    case step_add
    with ns show ?thesis by simp
  qed
  ultimately show ?thesis by blast
qed

definition pool_1_closing :: "(string, nat) tpool" where
  "pool_1_closing = pool_1_job\<lparr>keepalive := False, main_pc := Posting 0\<rparr>"

lemma pool_1_closing_reach: "pool_reach 1 pool_1_closing"
  by (rule run_schedule_reach [OF pool_1_job_reach, of "[None]"])
    (simp add: run_simps pool_1_closing_def)

theorem thread_pool_shutdown_terminates_witness:
  "\<exists>s'. pool_step pool_1_closing s' \<and> shutdown_left s' < shutdown_left pool_1_closing"
proof -
  have "\<not> keepalive pool_1_closing" "main_pc pool_1_closing \<noteq> Destroyed"
    by (simp_all add: pool_1_closing_def)
  from thread_pool_shutdown_terminates [OF pool_1_closing_reach this] show ?thesis by blast
qed

text \<open>
  C35: when \<open>threadpool_destroy\<close> returns, every worker has left, every node has been freed, and every
  job that a worker has taken has run to its end. The jobs still queued are freed without being
  run: the witness shows a pool that is destroyed with a job that nobody runs.
\<close>

theorem thread_pool_destroyed:
  assumes "pool_reach n s" and "main_pc s = Destroyed"
  shows "(\<forall>w\<in>set (workers s). w = Exited) \<and> (\<forall>a. job_heap (job_queue s) a = None) \<and>
    added s = taken s @ dropped s \<and> mset (finished s) = mset (taken s)"
  using pool_reach_inv [OF assms(1)] assms(2)
  by (auto simp: dead_inv_def live_inv_def sem_inv_def)

theorem thread_pool_destroyed_witness:
  "\<exists>s. pool_reach 1 s \<and> main_pc s = Destroyed \<and> dropped s = [(''read'', 3 :: nat)] \<and> finished s = [] \<and>
    (\<forall>w\<in>set (workers s). w = Exited) \<and> added s = taken s @ dropped s"
proof -
  have "\<exists>s. run_schedule pool_1_job [None, Some 0, None, None, None] = Some s \<and>
      main_pc s = Destroyed \<and> dropped s = [(''read'', 3)] \<and> finished s = []"
    by (simp add: run_simps threadpool_job_queue_empty_def node_at_def free_node_def queue_jobs_def
      queue_nodes_def job_of_def)
  then obtain s where s: "run_schedule pool_1_job [None, Some 0, None, None, None] = Some s"
    "main_pc s = Destroyed" "dropped s = [(''read'', 3)]" "finished s = []" by blast
  from thread_pool_destroyed [OF run_schedule_reach [OF pool_1_job_reach s(1)] s(2)]
    run_schedule_reach [OF pool_1_job_reach s(1)] s show ?thesis by blast
qed

end
