(* ===== verification/Xml.thy ===== *)
theory Xml
  imports Prelude
begin

text \<open>
  The XML parser (\<^verbatim>\<open>proxy_server/xml/xml.c\<close>): tags without attributes, text content and children. The
  parser reads a buffer and never writes to it; an \<open>xml_string\<close> is a pointer into a buffer, here
  the bytes from that pointer to the end of the object, and a length.
\<close>

section \<open>The code\<close>

record xml_string =
  xs_buffer :: "byte list"
  xs_length :: nat

datatype xml_node =
  XmlNode (node_name: xml_string) (node_content: "xml_string option") (node_children: "xml_node list")

record xml_document =
  doc_buffer :: "byte list"
  doc_length :: nat
  doc_root :: xml_node

record xml_parser =
  parser_buffer :: "byte list"
  parser_position :: nat
  parser_length :: nat

datatype xml_parser_offset = NO_CHARACTER | CURRENT_CHARACTER | NEXT_CHARACTER

abbreviation LT :: byte where "LT \<equiv> 60"
abbreviation GT :: byte where "GT \<equiv> 62"
abbreviation SLASH :: byte where "SLASH \<equiv> 47"

definition isspace :: "byte \<Rightarrow> bool" where
  "isspace c \<longleftrightarrow> c = 32 \<or> 9 \<le> c \<and> c \<le> 13"

fun equals_loop :: "nat \<Rightarrow> byte list \<Rightarrow> byte list \<Rightarrow> bool res" where
  "equals_loop 0 a b = Inr True"
| "equals_loop (Suc n) (x # a) (y # b) = (if x \<noteq> y then Inr False else equals_loop n a b)"
| "equals_loop (Suc n) a b = Inl OobRead"

definition xml_string_equals :: "xml_string \<Rightarrow> xml_string \<Rightarrow> bool res" where
  "xml_string_equals a b =
     (let min_length = (if xs_length a > xs_length b then xs_length b else xs_length a)
      in equals_loop min_length (xs_buffer a) (xs_buffer b))"

definition xml_string_length :: "xml_string option \<Rightarrow> nat" where
  "xml_string_length string = (case string of None \<Rightarrow> 0 | Some s \<Rightarrow> xs_length s)"

definition xml_string_copy :: "xml_string option \<Rightarrow> byte list \<Rightarrow> nat \<Rightarrow> byte list res" where
  "xml_string_copy string buffer len =
     (case string of None \<Rightarrow> Inr buffer
      | Some s \<Rightarrow> memcpy buffer 0 (xs_buffer s) (min len (xs_length s)))"

text \<open>The clone that the caller gets; \<open>None\<close> is the null pointer.\<close>

definition xml_string_clone :: "xml_string option \<Rightarrow> byte list option res" where
  "xml_string_clone s =
     (case s of None \<Rightarrow> Inr None
      | Some str \<Rightarrow>
          bindR (xml_string_copy s (replicate (xs_length str + 1) 0) (xs_length str)) (\<lambda>clone.
          bindR (wr clone (xs_length str) 0) (\<lambda>clone. Inr (Some clone))))"

text \<open>
  The error message reads the character it shows; \<open>position - 1\<close> at position 0 wraps to the top
  of \<open>size_t\<close>, and the minimum is the length then.
\<close>

definition error_character :: "xml_parser \<Rightarrow> xml_parser_offset \<Rightarrow> nat" where
  "error_character p offset =
     min (parser_length p)
       (case offset of
          NO_CHARACTER \<Rightarrow> if parser_position p = 0 then 2 ^ 64 - 1 else parser_position p - 1
        | CURRENT_CHARACTER \<Rightarrow> parser_position p
        | NEXT_CHARACTER \<Rightarrow> parser_position p + 1)"

definition xml_parser_error :: "xml_parser \<Rightarrow> xml_parser_offset \<Rightarrow> unit res" where
  "xml_parser_error p offset =
     (let character = error_character p offset
      in if length (parser_buffer p) < character then Inl OobRead
         else if offset \<noteq> NO_CHARACTER
         then bindR (rd (parser_buffer p) character) (\<lambda>_. Inr ())
         else Inr ())"

function peek_loop :: "byte list \<Rightarrow> nat \<Rightarrow> nat \<Rightarrow> nat \<Rightarrow> byte res" where
  "peek_loop buffer len position n =
     (if position < len then
        bindR (rd buffer position) (\<lambda>c.
          if \<not> isspace c
          then if n = 0 then Inr c else peek_loop buffer len (position + 1) (n - 1)
          else peek_loop buffer len (position + 1) n)
      else Inr 0)"
  by pat_completeness auto
termination by (relation "measure (\<lambda>(b, l, p, n). l - p)") auto

declare peek_loop.simps [simp del]

definition xml_parser_peek :: "xml_parser \<Rightarrow> nat \<Rightarrow> byte res" where
  "xml_parser_peek p n = peek_loop (parser_buffer p) (parser_length p) (parser_position p) n"

definition xml_parser_consume :: "xml_parser \<Rightarrow> nat \<Rightarrow> xml_parser" where
  "xml_parser_consume p n =
     (let position = parser_position p + n
      in p\<lparr>parser_position := (if position \<ge> parser_length p then parser_length p - 1 else position)\<rparr>)"

function skip_loop :: "byte list \<Rightarrow> nat \<Rightarrow> nat \<Rightarrow> nat res" where
  "skip_loop buffer len position =
     bindR (rd buffer position) (\<lambda>c.
       if isspace c then
         if position + 1 \<ge> len then Inr position else skip_loop buffer len (position + 1)
       else Inr position)"
  by pat_completeness auto
termination by (relation "measure (\<lambda>(b, l, p). l - p)") auto

declare skip_loop.simps [simp del]

definition xml_skip_whitespace :: "xml_parser \<Rightarrow> xml_parser res" where
  "xml_skip_whitespace p =
     bindR (skip_loop (parser_buffer p) (parser_length p) (parser_position p))
       (\<lambda>q. Inr (p\<lparr>parser_position := q\<rparr>))"

text \<open>
  The loops of \<open>xml_parse_tag_end\<close> and \<open>xml_parse_content\<close>: consume a byte at a time until \<open>stop\<close>
  holds of the next byte that is not whitespace. The result is the parser and the count.
\<close>

function consume_until :: "(byte \<Rightarrow> bool) \<Rightarrow> nat \<Rightarrow> nat \<Rightarrow> xml_parser \<Rightarrow> (xml_parser \<times> nat) res" where
  "consume_until stop start len p =
     (if start + len < parser_length p then
        bindR (xml_parser_peek p 0) (\<lambda>current.
          if stop current then Inr (p, len)
          else consume_until stop start (len + 1) (xml_parser_consume p 1))
      else Inr (p, len))"
  by pat_completeness auto
termination
  by (relation "measure (\<lambda>(s, st, l, p). parser_length p - (st + l))")
    (auto simp: xml_parser_consume_def Let_def)

declare consume_until.simps [simp del]

definition xml_parse_tag_end :: "xml_parser \<Rightarrow> (xml_string option \<times> xml_parser) res" where
  "xml_parse_tag_end p =
     (let start = parser_position p
      in bindR (consume_until (\<lambda>c. c = GT \<or> isspace c) start 0 p) (\<lambda>(p, len).
         bindR (xml_parser_peek p 0) (\<lambda>c.
         if c \<noteq> GT then bindR (xml_parser_error p CURRENT_CHARACTER) (\<lambda>_. Inr (None, p))
         else Inr (Some \<lparr>xs_buffer = drop start (parser_buffer p), xs_length = len\<rparr>,
                xml_parser_consume p 1))))"

definition xml_parse_tag_open :: "xml_parser \<Rightarrow> (xml_string option \<times> xml_parser) res" where
  "xml_parse_tag_open p =
     bindR (xml_skip_whitespace p) (\<lambda>p.
     bindR (xml_parser_peek p 0) (\<lambda>c.
     if c \<noteq> LT then bindR (xml_parser_error p CURRENT_CHARACTER) (\<lambda>_. Inr (None, p))
     else xml_parse_tag_end (xml_parser_consume p 1)))"

definition xml_parse_tag_close :: "xml_parser \<Rightarrow> (xml_string option \<times> xml_parser) res" where
  "xml_parse_tag_close p =
     bindR (xml_skip_whitespace p) (\<lambda>p.
     bindR (xml_parser_peek p 0) (\<lambda>c0.
     bindR (xml_parser_peek p 1) (\<lambda>c1.
     if c0 \<noteq> LT \<or> c1 \<noteq> SLASH then
       bindR (if c0 \<noteq> LT then xml_parser_error p CURRENT_CHARACTER else Inr ()) (\<lambda>_.
       bindR (if c1 \<noteq> SLASH then xml_parser_error p NEXT_CHARACTER else Inr ()) (\<lambda>_.
       Inr (None, p)))
     else xml_parse_tag_end (xml_parser_consume p 2))))"

fun trim_length :: "byte list \<Rightarrow> nat \<Rightarrow> nat \<Rightarrow> nat res" where
  "trim_length buffer start 0 = Inr 0"
| "trim_length buffer start (Suc n) =
     bindR (rd buffer (start + n)) (\<lambda>c. if isspace c then trim_length buffer start n else Inr (Suc n))"

definition xml_parse_content :: "xml_parser \<Rightarrow> (xml_string option \<times> xml_parser) res" where
  "xml_parse_content p =
     bindR (xml_skip_whitespace p) (\<lambda>p.
       let start = parser_position p
       in bindR (consume_until (\<lambda>c. c = LT) start 0 p) (\<lambda>(p, len).
          bindR (xml_parser_peek p 0) (\<lambda>c.
          if c \<noteq> LT then bindR (xml_parser_error p CURRENT_CHARACTER) (\<lambda>_. Inr (None, p))
          else bindR (trim_length (parser_buffer p) start len) (\<lambda>len.
            Inr (Some \<lparr>xs_buffer = drop start (parser_buffer p), xs_length = len\<rparr>, p)))))"

text \<open>From the parsing of the close tag on; the result is the node (\<open>None\<close>: failure).\<close>

definition close_node ::
    "xml_string \<Rightarrow> xml_string option \<Rightarrow> xml_node list \<Rightarrow> xml_parser \<Rightarrow> (xml_node option \<times> xml_parser) res" where
  "close_node tag_open content children p =
     bindR (xml_parse_tag_close p) (\<lambda>(tag_close, p).
       case tag_close of
         None \<Rightarrow> bindR (xml_parser_error p NO_CHARACTER) (\<lambda>_. Inr (None, p))
       | Some close \<Rightarrow>
           bindR (xml_string_equals tag_open close) (\<lambda>eq.
             if \<not> eq then bindR (xml_parser_error p NO_CHARACTER) (\<lambda>_. Inr (None, p))
             else Inr (Some (XmlNode tag_open content children), p)))"

definition self_closing :: "xml_string \<Rightarrow> bool res" where
  "self_closing t =
     (if xs_length t > 0 then bindR (rd (xs_buffer t) (xs_length t - 1)) (\<lambda>c. Inr (c = SLASH))
      else Inr False)"

text \<open>
  \<open>xml_parse_node\<close> and its loop over the children call each other. The first argument bounds the
  depth of these calls; \<open>Inr None\<close> is the result when it is used up.
\<close>

definition liftF :: "'a res \<Rightarrow> 'a option res" where
  "liftF m = bindR m (\<lambda>x. Inr (Some x))"

fun xml_parse_node :: "nat \<Rightarrow> xml_parser \<Rightarrow> (xml_node option \<times> xml_parser) option res"
  and parse_children :: "nat \<Rightarrow> xml_parser \<Rightarrow> xml_node list
      \<Rightarrow> (xml_node list option \<times> xml_parser) option res" where
  "xml_parse_node 0 p = Inr None"
| "xml_parse_node (Suc fuel) p =
     bindR (xml_parse_tag_open p) (\<lambda>(tag_open, p).
       case tag_open of
         None \<Rightarrow> bindR (xml_parser_error p NO_CHARACTER) (\<lambda>_. Inr (Some (None, p)))
       | Some t \<Rightarrow>
           bindR (self_closing t) (\<lambda>self.
             if self then Inr (Some (Some (XmlNode (t\<lparr>xs_length := xs_length t - 1\<rparr>) None []), p))
             else bindR (xml_parser_peek p 0) (\<lambda>c.
               if c \<noteq> LT then
                 bindR (xml_parse_content p) (\<lambda>(content, p).
                   case content of
                     None \<Rightarrow> bindR (xml_parser_error p CURRENT_CHARACTER) (\<lambda>_. Inr (Some (None, p)))
                   | Some body \<Rightarrow> liftF (close_node t (Some body) [] p))
               else
                 bindF (parse_children fuel p []) (\<lambda>(children, p).
                   case children of
                     None \<Rightarrow> Inr (Some (None, p))
                   | Some cs \<Rightarrow> liftF (close_node t None cs p)))))"
| "parse_children 0 p children = Inr None"
| "parse_children (Suc fuel) p children =
     bindR (xml_parser_peek p 1) (\<lambda>c.
       if c = SLASH then Inr (Some (Some children, p))
       else bindF (xml_parse_node fuel p) (\<lambda>(child, p).
         case child of
           None \<Rightarrow> bindR (xml_parser_error p NEXT_CHARACTER) (\<lambda>_. Inr (Some (None, p)))
         | Some c \<Rightarrow> parse_children fuel p (children @ [c])))"

definition xml_parse_document :: "nat \<Rightarrow> byte list \<Rightarrow> nat \<Rightarrow> xml_document option option res" where
  "xml_parse_document fuel buffer len =
     (let p = \<lparr>parser_buffer = buffer, parser_position = 0, parser_length = len\<rparr>
      in if len = 0 then bindR (xml_parser_error p NO_CHARACTER) (\<lambda>_. Inr (Some None))
         else bindF (xml_parse_node fuel p) (\<lambda>(root, p).
           case root of
             None \<Rightarrow> bindR (xml_parser_error p NO_CHARACTER) (\<lambda>_. Inr (Some None))
           | Some r \<Rightarrow> Inr (Some (Some \<lparr>doc_buffer = buffer, doc_length = len, doc_root = r\<rparr>))))"

definition xml_document_root :: "xml_document \<Rightarrow> xml_node" where
  "xml_document_root d = doc_root d"

definition xml_node_name :: "xml_node \<Rightarrow> xml_string" where
  "xml_node_name n = node_name n"

definition xml_node_content :: "xml_node \<Rightarrow> xml_string option" where
  "xml_node_content n = node_content n"

definition xml_node_children :: "xml_node \<Rightarrow> nat" where
  "xml_node_children n = length (node_children n)"

definition xml_node_child :: "xml_node \<Rightarrow> nat \<Rightarrow> xml_node option" where
  "xml_node_child n child =
     (if child \<ge> xml_node_children n then None else Some (node_children n ! child))"

text \<open>
  \<open>xml_easy_child\<close>: the loop over the children returns \<open>Some next\<close>, or \<open>None\<close> when two children match;
  the names of the path are C strings.
\<close>

fun find_child :: "xml_node list \<Rightarrow> xml_string \<Rightarrow> xml_node option \<Rightarrow> xml_node option option res" where
  "find_child [] cn next = Inr (Some next)"
| "find_child (child # cs) cn next =
     bindR (xml_string_equals (xml_node_name child) cn) (\<lambda>eq.
       if eq then (case next of None \<Rightarrow> find_child cs cn (Some child) | Some _ \<Rightarrow> Inr None)
       else find_child cs cn next)"

fun xml_easy_child :: "xml_node \<Rightarrow> byte list list \<Rightarrow> xml_node option res" where
  "xml_easy_child current [] = Inr (Some current)"
| "xml_easy_child current (child_name # arguments) =
     bindR (strlen child_name) (\<lambda>len.
     bindR (find_child (node_children current) \<lparr>xs_buffer = child_name, xs_length = len\<rparr> None) (\<lambda>r.
       case r of
         None \<Rightarrow> Inr None
       | Some None \<Rightarrow> Inr None
       | Some (Some next) \<Rightarrow> xml_easy_child next arguments))"

definition xml_easy_name :: "xml_node option \<Rightarrow> byte list option res" where
  "xml_easy_name n = (case n of None \<Rightarrow> Inr None | Some n \<Rightarrow> xml_string_clone (Some (xml_node_name n)))"

definition xml_easy_content :: "xml_node option \<Rightarrow> byte list option res" where
  "xml_easy_content n = (case n of None \<Rightarrow> Inr None | Some n \<Rightarrow> xml_string_clone (xml_node_content n))"

section \<open>What the scanning functions see\<close>

text \<open>The bytes from the position to the end.\<close>

definition ahead :: "xml_parser \<Rightarrow> byte list" where
  "ahead p = drop (parser_position p) (take (parser_length p) (parser_buffer p))"

definition parser_ok :: "xml_parser \<Rightarrow> bool" where
  "parser_ok p \<longleftrightarrow> parser_position p < parser_length p \<and> parser_length p \<le> length (parser_buffer p)"

text \<open>The \<open>n\<close>-th byte that is not whitespace, or 0.\<close>

definition nonspace :: "byte list \<Rightarrow> nat \<Rightarrow> byte" where
  "nonspace xs n = (let ys = filter (\<lambda>c. \<not> isspace c) xs in if n < length ys then ys ! n else 0)"

lemma nonspace_simps [simp]:
  "nonspace [] n = 0"
  "isspace c \<Longrightarrow> nonspace (c # xs) n = nonspace xs n"
  "\<not> isspace c \<Longrightarrow> nonspace (c # xs) 0 = c"
  "\<not> isspace c \<Longrightarrow> nonspace (c # xs) (Suc n) = nonspace xs n"
  by (simp_all add: nonspace_def Let_def)

lemma peek_loop_spec:
  "len \<le> length buffer \<Longrightarrow> peek_loop buffer len position n = Inr (nonspace (drop position (take len buffer)) n)"
proof (induction buffer len position n rule: peek_loop.induct)
  case (1 buffer len position n)
  show ?case
  proof (cases "position < len")
    case True
    with "1.prems" have d: "drop position (take len buffer) =
        buffer ! position # drop (Suc position) (take len buffer)"
      by (simp add: Cons_nth_drop_Suc [symmetric])
    have r: "rd buffer position = Inr (buffer ! position)"
      using True "1.prems" by (simp add: rd_def)
    show ?thesis
    proof (cases "isspace (buffer ! position)")
      case sp: True
      with "1.IH"(2) [OF True r _ "1.prems"] True r d show ?thesis
        by (subst peek_loop.simps) simp
    next
      case sp: False
      show ?thesis
      proof (cases n)
        case 0
        with sp True r d show ?thesis by (subst peek_loop.simps) simp
      next
        case (Suc m)
        with "1.IH"(1) [OF True r _ _ "1.prems"] sp True r d show ?thesis
          by (subst peek_loop.simps) simp
      qed
    qed
  next
    case False
    then show ?thesis by (subst peek_loop.simps) simp
  qed
qed

lemma peek_spec: "parser_ok p \<Longrightarrow> xml_parser_peek p n = Inr (nonspace (ahead p) n)"
  by (simp add: xml_parser_peek_def peek_loop_spec parser_ok_def ahead_def)

text \<open>Consuming, when it does not reach the end.\<close>

lemma consume_ok: "parser_ok p \<Longrightarrow> parser_ok (xml_parser_consume p n)"
  by (auto simp: parser_ok_def xml_parser_consume_def Let_def)

lemma consume_fields [simp]:
  "parser_buffer (xml_parser_consume p n) = parser_buffer p"
  "parser_length (xml_parser_consume p n) = parser_length p"
  by (simp_all add: xml_parser_consume_def Let_def)

lemma consume_position:
  "parser_position (xml_parser_consume p n) =
     (if parser_position p + n < parser_length p then parser_position p + n else parser_length p - 1)"
  by (simp add: xml_parser_consume_def Let_def)

lemma ahead_nonempty: "parser_ok p \<Longrightarrow> ahead p \<noteq> []"
  by (simp add: ahead_def parser_ok_def)

lemma skip_loop_spec:
  "len \<le> length buffer \<Longrightarrow> position < len \<Longrightarrow>
    \<exists>q. skip_loop buffer len position = Inr q \<and> position \<le> q \<and> q < len \<and>
      (\<forall>i. position \<le> i \<and> i < q \<longrightarrow> isspace (buffer ! i)) \<and>
      (isspace (buffer ! q) \<longrightarrow> q + 1 = len)"
proof (induction buffer len position rule: skip_loop.induct)
  case (1 buffer len position)
  have r: "rd buffer position = Inr (buffer ! position)" using "1.prems" by (simp add: rd_def)
  show ?case
  proof (cases "isspace (buffer ! position) \<and> position + 1 < len")
    case True
    then have "\<not> len \<le> position + 1" by simp
    from "1.IH" [OF r _ this] True "1.prems" obtain q where
      "skip_loop buffer len (position + 1) = Inr q" "position + 1 \<le> q" "q < len"
      "\<forall>i. position + 1 \<le> i \<and> i < q \<longrightarrow> isspace (buffer ! i)" "isspace (buffer ! q) \<longrightarrow> q + 1 = len"
      by auto
    moreover have "\<forall>i. position \<le> i \<and> i < q \<longrightarrow> isspace (buffer ! i)"
      using calculation(4) True
      by (metis Suc_eq_plus1 Suc_leI le_neq_implies_less)
    ultimately show ?thesis using True r by (subst skip_loop.simps) (auto intro!: exI [of _ q])
  next
    case False
    with r "1.prems" show ?thesis by (subst skip_loop.simps) auto
  qed
qed

section \<open>The parser stays inside its buffer and moves on\<close>

text \<open>
  The parser may read one byte past its length, where callers keep a terminator: then no error
  message leaves the buffer.
\<close>

definition roomy :: "xml_parser \<Rightarrow> bool" where
  "roomy p \<longleftrightarrow> parser_position p < parser_length p \<and> parser_length p < length (parser_buffer p)"

definition forth :: "xml_parser \<Rightarrow> xml_parser \<Rightarrow> bool" where
  "forth p p' \<longleftrightarrow> parser_buffer p' = parser_buffer p \<and> parser_length p' = parser_length p \<and>
     parser_position p \<le> parser_position p'"

definition xs_ok :: "xml_string \<Rightarrow> bool" where
  "xs_ok s \<longleftrightarrow> xs_length s \<le> length (xs_buffer s)"

text \<open>The string lies in the buffer \<open>b\<close>; a node all of whose strings do.\<close>

definition xs_in :: "byte list \<Rightarrow> xml_string \<Rightarrow> bool" where
  "xs_in b s \<longleftrightarrow> xs_ok s \<and> (\<exists>k. xs_buffer s = drop k b)"

fun node_ok :: "byte list \<Rightarrow> xml_node \<Rightarrow> bool" where
  "node_ok b (XmlNode n c cs) \<longleftrightarrow>
     xs_in b n \<and> (case c of None \<Rightarrow> True | Some s \<Rightarrow> xs_in b s) \<and> list_all (node_ok b) cs"

lemma xs_in_ok: "xs_in b s \<Longrightarrow> xs_ok s"
  by (simp add: xs_in_def)

lemma xs_in_drop: "n \<le> length b - k \<Longrightarrow> xs_in b \<lparr>xs_buffer = drop k b, xs_length = n\<rparr>"
  by (auto simp: xs_in_def xs_ok_def)

lemma xs_in_shorter: "xs_in b s \<Longrightarrow> xs_in b (s\<lparr>xs_length := xs_length s - 1\<rparr>)"
  by (auto simp: xs_in_def xs_ok_def)

lemma xs_in_length: "xs_in b s \<Longrightarrow> xs_length s \<le> length b"
  by (auto simp: xs_in_def xs_ok_def)

lemma roomy_ok: "roomy p \<Longrightarrow> parser_ok p"
  by (simp add: roomy_def parser_ok_def)

lemma forth_refl [simp]: "forth p p"
  by (simp add: forth_def)

lemma forth_buffer: "forth p q \<Longrightarrow> parser_buffer q = parser_buffer p"
  by (simp add: forth_def)

lemma forth_trans: "forth p q \<Longrightarrow> forth q r \<Longrightarrow> forth p r"
  by (simp add: forth_def)

lemma forth_consume: "roomy p \<Longrightarrow> forth p (xml_parser_consume p n)"
  by (auto simp: forth_def roomy_def consume_position)

lemma roomy_consume: "roomy p \<Longrightarrow> roomy (xml_parser_consume p n)"
  by (auto simp: roomy_def consume_position)

lemma error_ok: "roomy p \<Longrightarrow> xml_parser_error p offset = Inr ()"
  by (auto simp: xml_parser_error_def error_character_def rd_def roomy_def Let_def
    split: xml_parser_offset.split)

lemma peek_ok: "roomy p \<Longrightarrow> xml_parser_peek p n = Inr (nonspace (ahead p) n)"
  by (rule peek_spec) (rule roomy_ok)

lemma skip_ok:
  assumes "roomy p"
  shows "\<exists>p'. xml_skip_whitespace p = Inr p' \<and> roomy p' \<and> forth p p'"
proof -
  from assms skip_loop_spec [of "parser_length p" "parser_buffer p" "parser_position p"] obtain q where
    "skip_loop (parser_buffer p) (parser_length p) (parser_position p) = Inr q"
    "parser_position p \<le> q" "q < parser_length p"
    by (auto simp: roomy_def)
  with assms show ?thesis by (auto simp: xml_skip_whitespace_def roomy_def forth_def)
qed

lemma consume_until_ok:
  "roomy p \<Longrightarrow> start + len \<le> parser_length p \<Longrightarrow>
    \<exists>p' n. consume_until stop start len p = Inr (p', n) \<and> roomy p' \<and> forth p p' \<and>
      start + n \<le> parser_length p"
proof (induction stop start len p rule: consume_until.induct)
  case (1 stop start len p)
  show ?case
  proof (cases "start + len < parser_length p \<and> \<not> stop (nonspace (ahead p) 0)")
    case True
    have "start + (len + 1) \<le> parser_length (xml_parser_consume p 1)" using True by simp
    from "1.IH" [OF _ peek_ok [OF "1.prems"(1)] _ roomy_consume [OF "1.prems"(1)] this] True obtain p' n where
      "consume_until stop start (len + 1) (xml_parser_consume p 1) = Inr (p', n)" "roomy p'"
      "forth (xml_parser_consume p 1) p'" "start + n \<le> parser_length p" by auto
    with True peek_ok [OF "1.prems"(1)] forth_consume [OF "1.prems"(1)] show ?thesis
      by (subst consume_until.simps) (auto intro: forth_trans)
  next
    case False
    with "1.prems" peek_ok [OF "1.prems"(1)] show ?thesis by (subst consume_until.simps) auto
  qed
qed

lemma tag_end_ok:
  assumes "roomy p"
  shows "\<exists>r p'. xml_parse_tag_end p = Inr (r, p') \<and> roomy p' \<and> forth p p' \<and>
    (\<forall>s. r = Some s \<longrightarrow> xs_in (parser_buffer p) s)"
proof -
  have "parser_position p + 0 \<le> parser_length p" using assms by (simp add: roomy_def)
  from consume_until_ok [OF assms this] obtain p' n where
    c: "consume_until (\<lambda>c. c = GT \<or> isspace c) (parser_position p) 0 p = Inr (p', n)"
      "roomy p'" "forth p p'" "parser_position p + n \<le> parser_length p" by blast
  from c(4) assms have "n \<le> length (parser_buffer p') - parser_position p"
    using c(3) by (auto simp: roomy_def forth_def)
  then show ?thesis
    using c peek_ok [OF c(2)] error_ok [OF c(2)] roomy_consume [OF c(2)]
      forth_trans [OF c(3) forth_consume [OF c(2)]] forth_buffer [OF c(3)]
    by (cases "nonspace (ahead p') 0 = GT") (auto simp: xml_parse_tag_end_def xs_in_def xs_ok_def)
qed

text \<open>A tag that starts on the last byte is never complete.\<close>

lemma ahead_last:
  assumes "roomy p" and "parser_position p = parser_length p - 1"
  shows "ahead p = [parser_buffer p ! parser_position p]"
proof -
  from assms have "parser_length p = Suc (parser_position p)" "parser_position p < length (parser_buffer p)"
    by (auto simp: roomy_def)
  then show ?thesis by (simp add: ahead_def take_Suc_conv_app_nth)
qed

lemma forth_last:
  assumes "roomy p" and "forth p p'" and "roomy p'" and "parser_position p = parser_length p - 1"
  shows "parser_position p' = parser_position p" and "ahead p' = ahead p"
proof -
  show "parser_position p' = parser_position p" using assms by (auto simp: roomy_def forth_def)
  with assms(2) show "ahead p' = ahead p" by (simp add: ahead_def forth_def)
qed

lemma tag_end_last:
  assumes "roomy p" and "parser_position p = parser_length p - 1" and "nonspace (ahead p) 0 \<noteq> GT"
  shows "\<exists>p'. xml_parse_tag_end p = Inr (None, p')"
proof -
  have "parser_position p + 0 \<le> parser_length p" using assms by (simp add: roomy_def)
  from consume_until_ok [OF assms(1) this] obtain p' n where
    c: "consume_until (\<lambda>c. c = GT \<or> isspace c) (parser_position p) 0 p = Inr (p', n)"
      "roomy p'" "forth p p'" by blast
  with forth_last [OF assms(1) c(3,2) assms(2)] assms(3) show ?thesis
    using peek_ok [OF c(2)] error_ok [OF c(2)] by (simp add: xml_parse_tag_end_def)
qed

lemma tag_open_ok:
  assumes "roomy p"
  shows "\<exists>r p'. xml_parse_tag_open p = Inr (r, p') \<and> roomy p' \<and> forth p p' \<and>
    (\<forall>s. r = Some s \<longrightarrow> xs_in (parser_buffer p) s \<and> parser_position p < parser_position p')"
proof -
  from skip_ok [OF assms] obtain p1 where
    p1: "xml_skip_whitespace p = Inr p1" "roomy p1" "forth p p1" by blast
  show ?thesis
  proof (cases "nonspace (ahead p1) 0 = LT")
    case False
    with p1 peek_ok [OF p1(2)] error_ok [OF p1(2)] show ?thesis by (auto simp: xml_parse_tag_open_def)
  next
    case True
    let ?p2 = "xml_parser_consume p1 1"
    note r2 = roomy_consume [OF p1(2), of 1]
    from tag_end_ok [OF r2] obtain r p' where
      e: "xml_parse_tag_end ?p2 = Inr (r, p')" "roomy p'" "forth ?p2 p'" "\<forall>s. r = Some s \<longrightarrow> xs_in (parser_buffer p) s"
      unfolding consume_fields forth_buffer [OF p1(3)] by blast
    have "xml_parse_tag_open p = Inr (r, p')"
      using p1 peek_ok [OF p1(2)] True e by (simp add: xml_parse_tag_open_def)
    moreover have "parser_position p < parser_position p'" if "r = Some s" for s
    proof (cases "parser_position p1 + 1 < parser_length p1")
      case True
      then show ?thesis using p1(3) e(3) by (auto simp: forth_def consume_position)
    next
      case last: False
      then have pos: "parser_position p1 = parser_length p1 - 1" using p1(2) by (auto simp: roomy_def)
      then have "ahead ?p2 = ahead p1" using last by (simp add: ahead_def consume_position)
      with True have "nonspace (ahead ?p2) 0 \<noteq> GT" by simp
      with tag_end_last [OF r2] last e(1) that show ?thesis by (auto simp: consume_position)
    qed
    moreover have "forth p p'"
      by (rule forth_trans [OF p1(3) forth_trans [OF forth_consume [OF p1(2)] e(3)]])
    ultimately show ?thesis using e by blast
  qed
qed

lemma tag_close_ok:
  assumes "roomy p"
  shows "\<exists>r p'. xml_parse_tag_close p = Inr (r, p') \<and> roomy p' \<and> forth p p' \<and>
    (\<forall>s. r = Some s \<longrightarrow> xs_in (parser_buffer p) s)"
proof -
  from skip_ok [OF assms] obtain p1 where
    p1: "xml_skip_whitespace p = Inr p1" "roomy p1" "forth p p1" by blast
  from tag_end_ok [OF roomy_consume [OF p1(2), of 2]] obtain r p' where
    e: "xml_parse_tag_end (xml_parser_consume p1 2) = Inr (r, p')" "roomy p'"
      "forth (xml_parser_consume p1 2) p'" "\<forall>s. r = Some s \<longrightarrow> xs_in (parser_buffer p) s"
    unfolding consume_fields forth_buffer [OF p1(3)] by blast
  have "forth p p'"
    by (rule forth_trans [OF p1(3) forth_trans [OF forth_consume [OF p1(2)] e(3)]])
  with p1 e peek_ok [OF p1(2)] error_ok [OF p1(2)] show ?thesis
    by (cases "nonspace (ahead p1) 0 \<noteq> LT \<or> nonspace (ahead p1) 1 \<noteq> SLASH")
      (auto simp: xml_parse_tag_close_def)
qed

lemma trim_length_ok: "start + n \<le> length b \<Longrightarrow> \<exists>m. trim_length b start n = Inr m \<and> m \<le> n"
  by (induction n) (auto simp: rd_def le_SucI)

lemma content_ok:
  assumes "roomy p"
  shows "\<exists>r p'. xml_parse_content p = Inr (r, p') \<and> roomy p' \<and> forth p p' \<and>
    (\<forall>s. r = Some s \<longrightarrow> xs_in (parser_buffer p) s)"
proof -
  from skip_ok [OF assms] obtain p1 where
    p1: "xml_skip_whitespace p = Inr p1" "roomy p1" "forth p p1" by blast
  have "parser_position p1 + 0 \<le> parser_length p1" using p1(2) by (simp add: roomy_def)
  from consume_until_ok [OF p1(2) this] obtain p' n where
    c: "consume_until (\<lambda>c. c = LT) (parser_position p1) 0 p1 = Inr (p', n)" "roomy p'" "forth p1 p'"
      "parser_position p1 + n \<le> parser_length p1" by blast
  have "parser_position p1 + n \<le> length (parser_buffer p')"
    using c(4) p1(2) c(3) by (simp add: roomy_def forth_def)
  from trim_length_ok [OF this] obtain m where
    m: "trim_length (parser_buffer p') (parser_position p1) n = Inr m" "m \<le> n" by blast
  have "m \<le> length (parser_buffer p') - parser_position p1"
    using m(2) \<open>parser_position p1 + n \<le> length (parser_buffer p')\<close> by simp
  with m(1) p1 c peek_ok [OF c(2)] error_ok [OF c(2)] forth_trans [OF p1(3) c(3)]
    forth_buffer [OF forth_trans [OF p1(3) c(3)]] show ?thesis
    by (cases "nonspace (ahead p') 0 = LT") (auto simp: xml_parse_content_def xs_in_def xs_ok_def)
qed

lemma equals_loop_ok:
  "n \<le> length a \<Longrightarrow> n \<le> length b \<Longrightarrow> equals_loop n a b = Inr (take n a = take n b)"
  by (induction n a b rule: equals_loop.induct) auto

lemma string_equals_ok:
  "xs_ok a \<Longrightarrow> xs_ok b \<Longrightarrow> xml_string_equals a b =
    Inr (take (min (xs_length a) (xs_length b)) (xs_buffer a) =
         take (min (xs_length a) (xs_length b)) (xs_buffer b))"
  by (simp add: xml_string_equals_def xs_ok_def equals_loop_ok min_def Let_def)

lemma close_node_ok:
  assumes "roomy p" and "xs_in (parser_buffer p) t" and "\<forall>s. content = Some s \<longrightarrow> xs_in (parser_buffer p) s" and "list_all (node_ok (parser_buffer p)) cs"
  shows "\<exists>r p'. close_node t content cs p = Inr (r, p') \<and> roomy p' \<and> forth p p' \<and>
    (\<forall>n. r = Some n \<longrightarrow> node_ok (parser_buffer p) n)"
proof -
  from tag_close_ok [OF assms(1)] obtain r p' where
    c: "xml_parse_tag_close p = Inr (r, p')" "roomy p'" "forth p p'" "\<forall>s. r = Some s \<longrightarrow> xs_in (parser_buffer p) s"
    by blast
  show ?thesis
  proof (cases r)
    case None
    with c error_ok [OF c(2)] show ?thesis by (simp add: close_node_def)
  next
    case (Some s)
    then have "xs_in (parser_buffer p) s" using c(4) by simp
    from string_equals_ok [OF xs_in_ok [OF assms(2)] xs_in_ok [OF this]] Some c error_ok [OF c(2)] assms(2-4) show ?thesis
      by (auto simp: close_node_def split: option.split)
  qed
qed

lemma self_closing_ok: "xs_in b t \<Longrightarrow> \<exists>b. self_closing t = Inr b"
  by (auto simp: self_closing_def xs_in_def xs_ok_def rd_def)

definition left_to_read :: "xml_parser \<Rightarrow> nat" where
  "left_to_read p = parser_length p - parser_position p"

lemma left_to_read_less:
  "forth p p' \<Longrightarrow> roomy p \<Longrightarrow> parser_position p < parser_position p' \<Longrightarrow>
    left_to_read p' < left_to_read p"
  by (auto simp: left_to_read_def forth_def roomy_def)

text \<open>The step of the fuel induction for a node, and for the loop over the children.\<close>

definition node_post :: "xml_parser \<Rightarrow> (xml_node option \<times> xml_parser) option res \<Rightarrow> bool" where
  "node_post p res \<longleftrightarrow> (\<exists>r p'. res = Inr (Some (r, p')) \<and> roomy p' \<and> forth p p' \<and>
     (\<forall>n. r = Some n \<longrightarrow> node_ok (parser_buffer p) n \<and> parser_position p < parser_position p'))"

definition children_post :: "xml_parser \<Rightarrow> (xml_node list option \<times> xml_parser) option res \<Rightarrow> bool" where
  "children_post p res \<longleftrightarrow> (\<exists>r p'. res = Inr (Some (r, p')) \<and> roomy p' \<and> forth p p' \<and>
     (\<forall>cs. r = Some cs \<longrightarrow> list_all (node_ok (parser_buffer p)) cs))"

lemma node_postI:
  "res = Inr (Some (r, p')) \<Longrightarrow> roomy p' \<Longrightarrow> forth p p' \<Longrightarrow>
    (\<And>n. r = Some n \<Longrightarrow> node_ok (parser_buffer p) n \<and> parser_position p < parser_position p') \<Longrightarrow> node_post p res"
  by (auto simp: node_post_def)

lemma close_node_post:
  assumes "roomy p1" and "forth p p1" and "parser_position p < parser_position p1" and "xs_in (parser_buffer p) t"
    and "\<forall>s. content = Some s \<longrightarrow> xs_in (parser_buffer p) s" and "list_all (node_ok (parser_buffer p)) cs"
  shows "node_post p (liftF (close_node t content cs p1))"
proof -
  have b: "parser_buffer p1 = parser_buffer p" by (rule forth_buffer [OF assms(2)])
  have "xs_in (parser_buffer p1) t" "\<forall>s. content = Some s \<longrightarrow> xs_in (parser_buffer p1) s"
    "list_all (node_ok (parser_buffer p1)) cs" using assms(4-6) b by simp_all
  from close_node_ok [OF assms(1) this] obtain r p' where
    "close_node t content cs p1 = Inr (r, p')" "roomy p'" "forth p1 p'"
    "\<forall>n. r = Some n \<longrightarrow> node_ok (parser_buffer p) n"
    unfolding b by blast
  then show ?thesis using assms(2,3)
    by (intro node_postI [of _ r p']) (auto simp: liftF_def forth_def)
qed

lemma node_step:
  assumes IH: "\<And>p. roomy p \<Longrightarrow> 2 * left_to_read p < fuel \<Longrightarrow> children_post p (parse_children fuel p [])"
    and "roomy p" and "2 * left_to_read p \<le> Suc fuel"
  shows "node_post p (xml_parse_node (Suc fuel) p)"
proof -
  from tag_open_ok [OF assms(2)] obtain r p1 where
    o: "xml_parse_tag_open p = Inr (r, p1)" "roomy p1" "forth p p1"
      "\<forall>s. r = Some s \<longrightarrow> xs_in (parser_buffer p) s \<and> parser_position p < parser_position p1" by blast
  show ?thesis
  proof (cases r)
    case None
    with o error_ok [OF o(2)] show ?thesis by (intro node_postI [of _ None p1]) simp_all
  next
    case (Some t)
    then have t: "xs_in (parser_buffer p) t" and pos: "parser_position p < parser_position p1" using o(4) by auto
    from self_closing_ok [OF t] obtain b where b: "self_closing t = Inr b" ..
    show ?thesis
    proof (cases b)
      case True
      with Some o b t pos show ?thesis
        by (intro node_postI [of _ "Some (XmlNode (t\<lparr>xs_length := xs_length t - 1\<rparr>) None [])" p1])
          (auto simp: xs_in_shorter [simplified])
    next
      case nb: False
      show ?thesis
      proof (cases "nonspace (ahead p1) 0 = LT")
        case False
        from content_ok [OF o(2)] obtain c p2 where
          c: "xml_parse_content p1 = Inr (c, p2)" "roomy p2" "forth p1 p2" "\<forall>s. c = Some s \<longrightarrow> xs_in (parser_buffer p) s"
          unfolding forth_buffer [OF o(3)] by blast
        have f: "forth p p2" "parser_position p < parser_position p2"
          using forth_trans [OF o(3) c(3)] c(3) pos by (auto simp: forth_def)
        have e: "xml_parse_node (Suc fuel) p = (case c of
            None \<Rightarrow> bindR (xml_parser_error p2 CURRENT_CHARACTER) (\<lambda>_. Inr (Some (None, p2)))
          | Some body \<Rightarrow> liftF (close_node t (Some body) [] p2))"
          using Some o b nb peek_ok [OF o(2)] False c(1) by simp
        show ?thesis
        proof (cases c)
          case None
          with e error_ok [OF c(2)] c(2) f show ?thesis by (intro node_postI [of _ None p2]) simp_all
        next
          case (Some body)
          with e close_node_post [OF c(2) f t] c(4) show ?thesis by simp
        qed
      next
        case True
        have "2 * left_to_read p1 < fuel"
          using left_to_read_less [OF o(3) assms(2) pos] assms(3) by simp
        from IH [OF o(2) this] obtain c p2 where
          c: "parse_children fuel p1 [] = Inr (Some (c, p2))" "roomy p2" "forth p1 p2"
            "\<forall>cs. c = Some cs \<longrightarrow> list_all (node_ok (parser_buffer p)) cs"
          unfolding children_post_def forth_buffer [OF o(3)] by blast
        have f: "forth p p2" "parser_position p < parser_position p2"
          using forth_trans [OF o(3) c(3)] c(3) pos by (auto simp: forth_def)
        have e: "xml_parse_node (Suc fuel) p = (case c of None \<Rightarrow> Inr (Some (None, p2))
          | Some cs \<Rightarrow> liftF (close_node t None cs p2))"
          using Some o b nb peek_ok [OF o(2)] True c(1) by (simp add: bindF_def)
        show ?thesis
        proof (cases c)
          case None
          with e c(2) f show ?thesis by (intro node_postI [of _ None p2]) simp_all
        next
          case (Some cs)
          with e close_node_post [OF c(2) f t] c(4) show ?thesis by simp
        qed
      qed
    qed
  qed
qed

lemma children_step:
  assumes IHn: "\<And>p. roomy p \<Longrightarrow> 2 * left_to_read p \<le> fuel \<Longrightarrow> node_post p (xml_parse_node fuel p)"
    and IHc: "\<And>p cs. roomy p \<Longrightarrow> 2 * left_to_read p < fuel \<Longrightarrow> list_all (node_ok (parser_buffer p)) cs \<Longrightarrow>
      children_post p (parse_children fuel p cs)"
    and "roomy p" and "2 * left_to_read p < Suc fuel" and "list_all (node_ok (parser_buffer p)) cs"
  shows "children_post p (parse_children (Suc fuel) p cs)"
proof (cases "nonspace (ahead p) 1 = SLASH")
  case True
  with peek_ok [OF assms(3)] assms(3,5) show ?thesis by (auto simp: children_post_def)
next
  case False
  have "2 * left_to_read p \<le> fuel" using assms(4) by simp
  from IHn [OF assms(3) this] obtain r p1 where
    n: "xml_parse_node fuel p = Inr (Some (r, p1))" "roomy p1" "forth p p1"
      "\<forall>n. r = Some n \<longrightarrow> node_ok (parser_buffer p) n \<and> parser_position p < parser_position p1"
    by (auto simp: node_post_def)
  show ?thesis
  proof (cases r)
    case None
    with n False peek_ok [OF assms(3)] error_ok [OF n(2)] show ?thesis
      by (auto simp: children_post_def bindF_def)
  next
    case (Some c)
    then have c: "node_ok (parser_buffer p) c" "parser_position p < parser_position p1" using n(4) by auto
    have "2 * left_to_read p1 < fuel"
      using left_to_read_less [OF n(3) assms(3) c(2)] assms(4) by simp
    from IHc [OF n(2) this, of "cs @ [c]"] assms(5) c(1) forth_buffer [OF n(3)]
    have "children_post p1 (parse_children fuel p1 (cs @ [c]))" by simp
    moreover have "parse_children (Suc fuel) p cs = parse_children fuel p1 (cs @ [c])"
      using Some n False peek_ok [OF assms(3)] by (simp add: bindF_def)
    ultimately show ?thesis using n(3) forth_buffer [OF n(3)]
      by (auto simp: children_post_def intro: forth_trans)
  qed
qed

lemma left_to_read_pos: "roomy p \<Longrightarrow> 0 < left_to_read p"
  by (simp add: roomy_def left_to_read_def)

lemma parse_node_ok:
  "(\<forall>p. roomy p \<longrightarrow> 2 * left_to_read p \<le> fuel \<longrightarrow> node_post p (xml_parse_node fuel p)) \<and>
   (\<forall>p cs. roomy p \<longrightarrow> 2 * left_to_read p < fuel \<longrightarrow> list_all (node_ok (parser_buffer p)) cs \<longrightarrow>
     children_post p (parse_children fuel p cs))"
proof (induction fuel)
  case 0
  then show ?case using left_to_read_pos by fastforce
next
  case (Suc fuel)
  then show ?case using node_step [of fuel] children_step [of fuel] by simp
qed

section \<open>Reading back what was written\<close>

text \<open>A document as a tree, its text, and the tree that a parsed node stands for.\<close>

datatype tree = Tree "byte list" "byte list option" "tree list"

text \<open>The name of an element: what stands before the attributes.\<close>

definition elem_name :: "byte list \<Rightarrow> byte list" where
  "elem_name n = takeWhile (\<lambda>c. \<not> isspace c) n"

fun render :: "tree \<Rightarrow> byte list" where
  "render (Tree n c ts) = LT # n @ GT #
     (case c of Some body \<Rightarrow> body | None \<Rightarrow> concat (map render ts)) @ LT # SLASH # elem_name n @ [GT]"

definition xs_view :: "xml_string \<Rightarrow> byte list" where
  "xs_view s = take (xs_length s) (xs_buffer s)"

fun view :: "xml_node \<Rightarrow> tree" where
  "view (XmlNode n c cs) = Tree (xs_view n) (map_option xs_view c) (map view cs)"

text \<open>Tag names and texts that the format can hold.\<close>

definition tag_ok :: "byte list \<Rightarrow> bool" where
  "tag_ok n \<longleftrightarrow> n \<noteq> [] \<and> GT \<notin> set n \<and> \<not> isspace (hd n) \<and> \<not> isspace (last n) \<and>
     hd n \<noteq> SLASH \<and> last n \<noteq> SLASH"

lemma elem_name_ok:
  assumes "GT \<notin> set n"
  shows "GT \<notin> set (elem_name n)" and "elem_name n = [] \<or> \<not> isspace (last (elem_name n))"
proof -
  have "x \<in> set (elem_name n) \<Longrightarrow> x \<in> set n \<and> \<not> isspace x" for x
    unfolding elem_name_def by (rule set_takeWhileD)
  with assms show "GT \<notin> set (elem_name n)" and "elem_name n = [] \<or> \<not> isspace (last (elem_name n))"
    by (blast, metis last_in_set)
qed

lemma elem_name_prefix: "take (length (elem_name n)) n = elem_name n"
  unfolding elem_name_def by (metis append_eq_conv_conj takeWhile_dropWhile_id)

definition body_ok :: "byte list \<Rightarrow> bool" where
  "body_ok c \<longleftrightarrow> c \<noteq> [] \<and> LT \<notin> set c \<and> \<not> isspace (hd c) \<and> \<not> isspace (last c)"

fun tree_ok :: "tree \<Rightarrow> bool" where
  "tree_ok (Tree n c ts) \<longleftrightarrow> tag_ok n \<and>
     (case c of Some body \<Rightarrow> body_ok body \<and> ts = [] | None \<Rightarrow> list_all tree_ok ts)"

lemma special_not_space [simp]: "\<not> isspace LT" "\<not> isspace GT" "\<not> isspace SLASH"
  by (simp_all add: isspace_def word_le_nat_alt)

definition at :: "xml_parser \<Rightarrow> xml_parser \<Rightarrow> byte list \<Rightarrow> bool" where
  "at p p' rest \<longleftrightarrow> roomy p' \<and> forth p p' \<and> ahead p' = rest"

lemma at_trans: "at p q r \<Longrightarrow> at q q' r' \<Longrightarrow> at p q' r'"
  by (auto simp: at_def intro: forth_trans)

lemma length_ahead: "roomy p \<Longrightarrow> length (ahead p) = parser_length p - parser_position p"
  by (simp add: ahead_def roomy_def)

lemma at_consume:
  assumes "roomy p"
  shows "at p (xml_parser_consume p k) (if k < length (ahead p) then drop k (ahead p) else [last (ahead p)])"
proof -
  have "ahead (xml_parser_consume p k) = (if k < length (ahead p) then drop k (ahead p) else [last (ahead p)])"
  proof (cases "k < length (ahead p)")
    case True
    then have "parser_position p + k < parser_length p" using length_ahead [OF assms] by simp
    with True show ?thesis by (simp add: ahead_def consume_position add.commute)
  next
    case False
    let ?q = "xml_parser_consume p k"
    have pos: "parser_position ?q = parser_length ?q - 1"
      using False length_ahead [OF assms] by (auto simp: consume_position)
    have "ahead ?q = [parser_buffer p ! (parser_length p - 1)]"
      using ahead_last [OF roomy_consume [OF assms] pos] pos by simp
    moreover have "last (ahead p) = parser_buffer p ! (parser_length p - 1)"
      using assms by (simp add: ahead_def roomy_def last_drop last_conv_nth)
    ultimately show ?thesis using False by simp
  qed
  then show ?thesis using assms by (simp add: at_def roomy_consume forth_consume)
qed

lemma skip_none:
  assumes "roomy p" and "ahead p = c # r" and "\<not> isspace c"
  shows "xml_skip_whitespace p = Inr p"
proof -
  have lt: "parser_position p < parser_length p" "parser_length p < length (parser_buffer p)"
    using assms(1) by (simp_all add: roomy_def)
  have "c = ahead p ! 0" by (simp add: assms(2))
  also have "\<dots> = parser_buffer p ! parser_position p" using lt by (simp add: ahead_def)
  finally have "rd (parser_buffer p) (parser_position p) = Inr c" using lt by (simp add: rd_def)
  with assms(3) show ?thesis by (simp add: xml_skip_whitespace_def skip_loop.simps)
qed

text \<open>The first byte that is not whitespace is in \<open>w\<close>, as long as \<open>w\<close> ends in one.\<close>

lemma nonspace_in:
  assumes "w \<noteq> []" and "\<not> isspace (last w)"
  shows "nonspace (w @ r) 0 \<in> set w \<and> \<not> isspace (nonspace (w @ r) 0)"
  using assms
proof (induction w)
  case (Cons a w)
  then show ?case by (cases "isspace a"; cases "w = []") simp_all
qed simp

lemma consume_until_stops:
  assumes "roomy p" and "ahead p = w @ s # r" and "start + len = parser_position p"
    and "w = [] \<or> \<not> isspace (last w)" and "\<And>c. c \<in> set w \<Longrightarrow> \<not> isspace c \<Longrightarrow> \<not> stop c"
    and "\<not> isspace s" and "stop s"
  shows "\<exists>p'. consume_until stop start len p = Inr (p', len + length w) \<and> at p p' (s # r)"
  using assms
proof (induction w arbitrary: p len)
  case Nil
  have "start + len < parser_length p" using Nil.prems(1,3) by (simp add: roomy_def)
  with Nil.prems peek_ok [OF Nil.prems(1), of 0] show ?case
    by (subst consume_until.simps) (simp add: at_def)
next
  case (Cons c w)
  have lt: "start + len < parser_length p" using Cons.prems(1,3) by (simp add: roomy_def)
  have "\<not> isspace (last (c # w))" using Cons.prems(4) by simp
  note n = nonspace_in [OF list.distinct(2) this, of "s # r"]
  have go: "\<not> stop (nonspace (ahead p) 0)"
    unfolding Cons.prems(2) by (rule Cons.prems(5)) (use n in blast)+
  have q: "at p (xml_parser_consume p 1) (w @ s # r)"
    using at_consume [OF Cons.prems(1), of 1] Cons.prems(2) by simp
  then have q': "roomy (xml_parser_consume p 1)" "ahead (xml_parser_consume p 1) = w @ s # r"
    by (simp_all add: at_def)
  have "1 < length (ahead p)" using Cons.prems(2) by simp
  then have "start + (len + 1) = parser_position (xml_parser_consume p 1)"
    using Cons.prems(3) length_ahead [OF Cons.prems(1)] by (simp add: consume_position)
  moreover have "w = [] \<or> \<not> isspace (last w)" using Cons.prems(4) by (auto split: if_splits)
  ultimately obtain p' where
    p': "consume_until stop start (len + 1) (xml_parser_consume p 1) = Inr (p', len + 1 + length w)"
      "at (xml_parser_consume p 1) p' (s # r)"
    using Cons.IH [OF q' _ _ _ Cons.prems(6,7)] Cons.prems(5) [OF list.set_intros(2)] by blast
  have "consume_until stop start len p = Inr (p', len + length (c # w))"
    using p'(1) lt go peek_ok [OF Cons.prems(1), of 0] by (subst consume_until.simps) simp
  with at_trans [OF q p'(2)] show ?case by blast
qed

lemma view_ahead:
  assumes "roomy p" and "ahead p = n @ r"
  shows "take (length n) (drop (parser_position p) (parser_buffer p)) = n"
proof -
  have "length n \<le> parser_length p - parser_position p"
    using assms(2) length_ahead [OF assms(1)] by (metis le_add1 length_append)
  then have "take (length n) (drop (parser_position p) (parser_buffer p)) = take (length n) (ahead p)"
    by (simp add: ahead_def drop_take min_absorb1)
  then show ?thesis by (simp add: assms(2))
qed

lemma tag_end_reads:
  assumes "roomy p" and "ahead p = n @ GT # r" 
    and "GT \<notin> set n" and "n = [] \<or> \<not> isspace (last n)"
  shows "\<exists>s p'. xml_parse_tag_end p = Inr (Some s, p') \<and> at p p' (if r = [] then [GT] else r) \<and>
    xs_ok s \<and> xs_view s = n"
proof -
  have "c \<in> set n \<Longrightarrow> \<not> isspace c \<Longrightarrow> \<not> (c = GT \<or> isspace c)" for c
    using assms(3) by auto
  then obtain p1 where
    p1: "consume_until (\<lambda>c. c = GT \<or> isspace c) (parser_position p) 0 p = Inr (p1, 0 + length n)"
      "at p p1 (GT # r)"
    using consume_until_stops [OF assms(1,2), of "parser_position p" 0 "\<lambda>c. c = GT \<or> isspace c"]
      assms(4) by auto
  then have r1: "roomy p1" "ahead p1 = GT # r" "parser_buffer p1 = parser_buffer p"
    by (simp_all add: at_def forth_def)
  have "at p (xml_parser_consume p1 1) (if r = [] then [GT] else r)"
    using at_trans [OF p1(2) at_consume [OF r1(1), of 1]] r1(2) by (cases r) simp_all
  moreover have "length n \<le> length (drop (parser_position p) (parser_buffer p))"
    using view_ahead [OF assms(1,2)] by (metis length_take min.cobounded1)
  ultimately show ?thesis
    using p1 peek_ok [OF r1(1), of 0] r1 view_ahead [OF assms(1,2)]
    by (simp add: xml_parse_tag_end_def xs_view_def xs_ok_def)
qed

lemma tag_open_reads:
  assumes "roomy p" and "ahead p = LT # n @ GT # r" 
    and "GT \<notin> set n" and "n = [] \<or> \<not> isspace (last n)"
  shows "\<exists>s p'. xml_parse_tag_open p = Inr (Some s, p') \<and> at p p' (if r = [] then [GT] else r) \<and>
    xs_ok s \<and> xs_view s = n"
proof -
  have q: "at p (xml_parser_consume p 1) (n @ GT # r)"
    using at_consume [OF assms(1), of 1] assms(2) by simp
  then have "roomy (xml_parser_consume p 1)" "ahead (xml_parser_consume p 1) = n @ GT # r"
    by (simp_all add: at_def)
  from tag_end_reads [OF this assms(3,4)] obtain s p' where
    "xml_parse_tag_end (xml_parser_consume p 1) = Inr (Some s, p')"
    "at (xml_parser_consume p 1) p' (if r = [] then [GT] else r)" "xs_ok s" "xs_view s = n" by blast
  with at_trans [OF q] peek_ok [OF assms(1), of 0] skip_none [OF assms(1,2)] assms(2) show ?thesis
    by (simp add: xml_parse_tag_open_def)
qed

lemma tag_close_reads:
  assumes "roomy p" and "ahead p = LT # SLASH # n @ GT # r"
    and "GT \<notin> set n" and "n = [] \<or> \<not> isspace (last n)"
  shows "\<exists>s p'. xml_parse_tag_close p = Inr (Some s, p') \<and> at p p' (if r = [] then [GT] else r) \<and>
    xs_ok s \<and> xs_view s = n"
proof -
  have q: "at p (xml_parser_consume p 2) (n @ GT # r)"
    using at_consume [OF assms(1), of 2] assms(2) by simp
  then have "roomy (xml_parser_consume p 2)" "ahead (xml_parser_consume p 2) = n @ GT # r"
    by (simp_all add: at_def)
  from tag_end_reads [OF this assms(3,4)] obtain s p' where
    "xml_parse_tag_end (xml_parser_consume p 2) = Inr (Some s, p')"
    "at (xml_parser_consume p 2) p' (if r = [] then [GT] else r)" "xs_ok s" "xs_view s = n" by blast
  with at_trans [OF q] peek_ok [OF assms(1)] skip_none [OF assms(1,2)] assms(2) show ?thesis
    by (simp add: xml_parse_tag_close_def)
qed

lemma content_reads:
  assumes "roomy p" and "ahead p = c @ LT # r" and "body_ok c"
  shows "\<exists>s p'. xml_parse_content p = Inr (Some s, p') \<and> at p p' (LT # r) \<and> xs_ok s \<and> xs_view s = c"
proof -
  from assms(3) obtain h t where h: "c = h # t" "\<not> isspace h" by (cases c) (auto simp: body_ok_def)
  with assms have sk: "xml_skip_whitespace p = Inr p" by (intro skip_none) simp_all
  have "x \<in> set c \<Longrightarrow> x \<noteq> LT" for x using assms(3) by (auto simp: body_ok_def)
  then obtain p1 where
    p1: "consume_until (\<lambda>c. c = LT) (parser_position p) 0 p = Inr (p1, 0 + length c)" "at p p1 (LT # r)"
    using consume_until_stops [OF assms(1,2), of "parser_position p" 0 "\<lambda>c. c = LT"] assms(3)
    by (auto simp: body_ok_def)
  then have r1: "roomy p1" "ahead p1 = LT # r" "parser_buffer p1 = parser_buffer p"
    by (simp_all add: at_def forth_def)
  have v: "take (length c) (drop (parser_position p) (parser_buffer p)) = c"
    by (rule view_ahead [OF assms(1,2)])
  have trim: "trim_length (parser_buffer p) (parser_position p) (length c) = Inr (length c)"
  proof -
    have "length c \<le> length (drop (parser_position p) (parser_buffer p))"
      using v by (metis length_take min.cobounded1)
    then have lt: "parser_position p + length t < length (parser_buffer p)" using h(1) by simp
    have "last c = c ! length t" using h(1) by (simp add: last_conv_nth)
    also have "\<dots> = take (length c) (drop (parser_position p) (parser_buffer p)) ! length t"
      by (simp add: v)
    also have "\<dots> = parser_buffer p ! (parser_position p + length t)" using lt h(1) by simp
    finally show ?thesis using assms(3) h(1) lt by (simp add: rd_def body_ok_def)
  qed
  have "length c \<le> length (drop (parser_position p) (parser_buffer p))"
    using v by (metis length_take min.cobounded1)
  with sk p1 peek_ok [OF r1(1), of 0] r1 trim v show ?thesis
    by (simp add: xml_parse_content_def Let_def xs_view_def xs_ok_def)
qed

lemma self_closing_view:
  assumes "xs_ok s" and "xs_view s = n" and "n \<noteq> []"
  shows "self_closing s = Inr (last n = SLASH)"
proof -
  have len: "xs_length s = length n" using assms(1,2) by (auto simp: xs_ok_def xs_view_def)
  have "last n = xs_view s ! (xs_length s - 1)" using assms(2,3) len by (simp add: last_conv_nth)
  also have "\<dots> = xs_buffer s ! (xs_length s - 1)" using assms(3) len by (simp add: xs_view_def)
  finally have "last n = xs_buffer s ! (xs_length s - 1)" .
  moreover have "length n - 1 < length (xs_buffer s)"
    using assms(1,3) len by (cases n) (auto simp: xs_ok_def)
  ultimately show ?thesis using assms(3) len by (simp add: self_closing_def rd_def)
qed

text \<open>Two names match as soon as one begins with the other.\<close>

definition names_match :: "byte list \<Rightarrow> byte list \<Rightarrow> bool" where
  "names_match a b \<longleftrightarrow> take (min (length a) (length b)) a = take (min (length a) (length b)) b"

lemma equals_match:
  assumes "xs_ok a" and "xs_ok b"
  shows "xml_string_equals a b = Inr (names_match (xs_view a) (xs_view b))"
proof -
  have l: "length (xs_view a) = xs_length a" "length (xs_view b) = xs_length b"
    using assms by (simp_all add: xs_ok_def xs_view_def)
  show ?thesis unfolding string_equals_ok [OF assms] names_match_def l
    by (simp add: xs_view_def min_def)
qed

lemma close_node_reads:
  assumes "roomy p" and "ahead p = LT # SLASH # elem_name n @ GT # r" and "tag_ok n" and "xs_ok t"
    and "xs_view t = n"
  shows "\<exists>p'. close_node t c cs p = Inr (Some (XmlNode t c cs), p') \<and>
    at p p' (if r = [] then [GT] else r)"
proof -
  have "GT \<notin> set n" using assms(3) by (simp add: tag_ok_def)
  from tag_close_reads [OF assms(1,2) elem_name_ok [OF this]] obtain s p' where
    s: "xml_parse_tag_close p = Inr (Some s, p')" "at p p' (if r = [] then [GT] else r)"
      "xs_ok s" "xs_view s = elem_name n" by blast
  have "min (length n) (length (elem_name n)) = length (elem_name n)"
    using length_takeWhile_le [of "\<lambda>c. \<not> isspace c" n] by (simp add: elem_name_def)
  then have "xml_string_equals t s = Inr True"
    unfolding equals_match [OF assms(4) s(3)] assms(5) s(4) names_match_def
    by (simp add: elem_name_prefix)
  with s show ?thesis by (simp add: close_node_def)
qed

definition node_reads :: "tree \<Rightarrow> bool" where
  "node_reads t \<longleftrightarrow> (\<forall>p rest fuel. roomy p \<longrightarrow> ahead p = render t @ rest \<longrightarrow> 2 * length (ahead p) \<le> fuel \<longrightarrow>
     (\<exists>n p'. xml_parse_node fuel p = Inr (Some (Some n, p')) \<and>
       at p p' (if rest = [] then [GT] else rest) \<and> view n = t))"

lemma render_start:
  assumes "tree_ok t"
  obtains m r where "render t = LT # m # r" and "\<not> isspace m" and "m \<noteq> SLASH"
proof -
  obtain n c ts where t: "t = Tree n c ts" by (cases t)
  with assms obtain m n' where "n = m # n'" "\<not> isspace m" "m \<noteq> SLASH"
    by (cases n) (auto simp: tag_ok_def)
  with t show ?thesis by (intro that) simp_all
qed

lemma children_read:
  assumes "\<And>t. t \<in> set ts \<Longrightarrow> tree_ok t \<and> node_reads t"
    and "roomy p" and "ahead p = concat (map render ts) @ LT # SLASH # m" and "2 * length (ahead p) < fuel"
  shows "\<exists>ns p'. parse_children fuel p cs = Inr (Some (Some (cs @ ns), p')) \<and>
    at p p' (LT # SLASH # m) \<and> map view ns = ts"
  using assms
proof (induction ts arbitrary: p fuel cs)
  case Nil
  then obtain k where "fuel = Suc k" by (cases fuel) auto
  with Nil peek_ok [OF Nil.prems(2), of 1] show ?case by (simp add: at_def)
next
  case (Cons t ts)
  then obtain k where k: "fuel = Suc k" by (cases fuel) auto
  have t: "tree_ok t" "node_reads t" using Cons.prems(1) by simp_all
  let ?rest = "concat (map render ts) @ LT # SLASH # m"
  have a: "ahead p = render t @ ?rest" using Cons.prems(3) by simp
  obtain x r where "render t = LT # x # r" "\<not> isspace x" "x \<noteq> SLASH"
    by (rule render_start [OF t(1)])
  with a have "nonspace (ahead p) 1 \<noteq> SLASH" by simp
  moreover obtain n p1 where
    n: "xml_parse_node k p = Inr (Some (Some n, p1))" "at p p1 ?rest" "view n = t"
    using t(2) [unfolded node_reads_def, rule_format, OF Cons.prems(2) a, of k] Cons.prems(4) k by auto
  ultimately have e: "parse_children fuel p cs = parse_children k p1 (cs @ [n])"
    using k peek_ok [OF Cons.prems(2), of 1] by (simp add: bindF_def)
  have r1: "roomy p1" "ahead p1 = ?rest" using n(2) by (simp_all add: at_def)
  have "2 * length (ahead p1) < k"
    using Cons.prems(4) k a r1(2) \<open>render t = LT # x # r\<close> by simp
  from Cons.IH [OF _ r1 this, of "cs @ [n]"] Cons.prems(1) obtain ns p' where
    "parse_children k p1 (cs @ [n]) = Inr (Some (Some ((cs @ [n]) @ ns), p'))"
    "at p1 p' (LT # SLASH # m)" "map view ns = ts" by auto
  with e n(2,3) at_trans show ?case by (intro exI [of _ "n # ns"] exI [of _ p']) auto
qed

lemma node_reads_tree: "tree_ok t \<Longrightarrow> node_reads t"
proof (induction t)
  case (Tree n c ts)
  have n: "tag_ok n" "GT \<notin> set n" "n = [] \<or> \<not> isspace (last n)" "n \<noteq> []" "last n \<noteq> SLASH"
    using Tree.prems by (simp_all add: tag_ok_def)
  show ?case unfolding node_reads_def
  proof (intro allI impI)
    fix p rest fuel
    assume p: "roomy p" "ahead p = render (Tree n c ts) @ rest" "2 * length (ahead p) \<le> fuel"
    then obtain k where k: "fuel = Suc k" by (cases fuel) auto
    let ?inner = "case c of Some body \<Rightarrow> body | None \<Rightarrow> concat (map render ts)"
    let ?close = "LT # SLASH # elem_name n @ GT # rest"
    have "ahead p = LT # n @ GT # ?inner @ ?close" using p(2) by simp
    from tag_open_reads [OF p(1) this n(2,3)] obtain s p1 where
      o: "xml_parse_tag_open p = Inr (Some s, p1)" "at p p1 (?inner @ ?close)" "xs_ok s" "xs_view s = n"
      by auto
    then have r1: "roomy p1" "ahead p1 = ?inner @ ?close" by (simp_all add: at_def)
    have sc: "self_closing s = Inr False" using self_closing_view [OF o(3,4) n(4)] n(5) by simp
    show "\<exists>nd p'. xml_parse_node fuel p = Inr (Some (Some nd, p')) \<and>
       at p p' (if rest = [] then [GT] else rest) \<and> view nd = Tree n c ts"
    proof (cases c)
      case (Some body)
      then have b: "body_ok body" "ts = []" using Tree.prems by simp_all
      have a1: "ahead p1 = body @ ?close" using r1(2) Some by simp
      obtain h b' where "body = h # b'" "\<not> isspace h" "h \<noteq> LT"
        using b(1) by (cases body) (auto simp: body_ok_def)
      with a1 have "nonspace (ahead p1) 0 \<noteq> LT" by simp
      moreover from content_reads [OF r1(1) a1 b(1)] obtain x p2 where
        x: "xml_parse_content p1 = Inr (Some x, p2)" "at p1 p2 ?close" "xs_ok x" "xs_view x = body" by blast
      moreover from x(2) have "roomy p2" "ahead p2 = ?close" by (simp_all add: at_def)
      from close_node_reads [OF this n(1) o(3,4)] obtain p3 where
        "close_node s (Some x) [] p2 = Inr (Some (XmlNode s (Some x) []), p3)"
        "at p2 p3 (if rest = [] then [GT] else rest)" by blast
      moreover from calculation have "at p p3 (if rest = [] then [GT] else rest)"
        using o(2) at_trans by blast
      ultimately show ?thesis using k o sc peek_ok [OF r1(1), of 0] Some b(2)
        by (simp add: liftF_def)
    next
      case None
      then have ts: "\<And>t. t \<in> set ts \<Longrightarrow> tree_ok t \<and> node_reads t"
        using Tree by (auto simp: list_all_iff)
      have a1: "ahead p1 = concat (map render ts) @ LT # SLASH # elem_name n @ GT # rest" using r1(2) None by simp
      have "nonspace (ahead p1) 0 = LT"
      proof (cases ts)
        case Nil
        with a1 show ?thesis by simp
      next
        case (Cons t ts')
        with ts have "tree_ok t" by simp
        then obtain x r where "render t = LT # x # r" by (rule render_start)
        with a1 Cons show ?thesis by simp
      qed
      moreover have "2 * length (ahead p1) < k"
        using p(2,3) a1 None k by simp
      from children_read [OF ts r1(1) a1 this, of "[]"] obtain ns p2 where
        x: "parse_children k p1 [] = Inr (Some (Some ns, p2))" "at p1 p2 ?close" "map view ns = ts" by auto
      moreover from x(2) have "roomy p2" "ahead p2 = ?close" by (simp_all add: at_def)
      from close_node_reads [OF this n(1) o(3,4)] obtain p3 where
        "close_node s None ns p2 = Inr (Some (XmlNode s None ns), p3)"
        "at p2 p3 (if rest = [] then [GT] else rest)" by blast
      moreover from calculation have "at p p3 (if rest = [] then [GT] else rest)"
        using o(2) at_trans by blast
      ultimately show ?thesis using k o sc peek_ok [OF r1(1), of 0] None
        by (simp add: liftF_def bindF_def)
    qed
  qed
qed

section \<open>Looking for a child\<close>

lemma find_child_spec:
  assumes "list_all (node_ok b) cs" and "xs_ok cn"
  shows "find_child cs cn next = Inr (case filter (\<lambda>x. names_match (xs_view (node_name x)) (xs_view cn)) cs of
      [] \<Rightarrow> Some next
    | [x] \<Rightarrow> if next = None then Some (Some x) else None
    | _ \<Rightarrow> None)"
  using assms
proof (induction cs arbitrary: "next")
  case Nil
  then show ?case by simp
next
  case (Cons x cs)
  have "xs_ok (node_name x)" using Cons.prems(1) by (cases x) (simp add: xs_in_def)
  note eq = equals_match [OF this Cons.prems(2)]
  note IH = Cons.IH [OF _ Cons.prems(2)]
  show ?case
  proof (cases "names_match (xs_view (node_name x)) (xs_view cn)")
    case True
    show ?thesis
    proof (cases "next")
      case None
      with True eq IH [of "Some x"] Cons.prems(1) show ?thesis
        by (auto simp: xml_node_name_def split: list.split)
    next
      case (Some y)
      with True eq show ?thesis by (simp add: xml_node_name_def split: list.split)
    qed
  next
    case False
    with eq IH [of "next"] Cons.prems(1) show ?thesis by (simp add: xml_node_name_def)
  qed
qed

lemma clone_ok:
  assumes "xs_ok s"
  shows "xml_string_clone (Some s) = Inr (Some (xs_view s @ [0]))"
proof -
  have "memcpy (replicate (xs_length s + 1) 0) 0 (xs_buffer s) (min (xs_length s) (xs_length s)) =
      Inr (xs_view s @ [0])"
    using assms by (simp add: memcpy_def xs_ok_def xs_view_def drop_replicate del: replicate_Suc) simp
  with assms show ?thesis
    by (simp add: xml_string_clone_def xml_string_copy_def wr_def xs_ok_def xs_view_def
      list_update_append)
qed

lemma document_result:
  assumes "0 < len" and "len < length buffer" and "2 * len \<le> fuel"
  shows "\<exists>r. xml_parse_document fuel buffer len = Inr (Some r) \<and>
    (\<forall>d. r = Some d \<longrightarrow> node_ok buffer (doc_root d) \<and> doc_buffer d = buffer)"
proof -
  let ?p = "\<lparr>parser_buffer = buffer, parser_position = 0, parser_length = len\<rparr>"
  have p: "roomy ?p" "2 * left_to_read ?p \<le> fuel" using assms by (simp_all add: roomy_def left_to_read_def)
  with parse_node_ok [of fuel] have "node_post ?p (xml_parse_node fuel ?p)" by blast
  then obtain r p' where
    n: "xml_parse_node fuel ?p = Inr (Some (r, p'))" "roomy p'" "\<forall>n. r = Some n \<longrightarrow> node_ok buffer n"
    by (auto simp: node_post_def)
  with assms(1) error_ok [OF n(2)] show ?thesis
    by (cases r) (auto simp: xml_parse_document_def bindF_def)
qed

lemma xml_document_ok:
  assumes "len < length buffer" and "2 * len \<le> fuel"
  shows "\<exists>r. xml_parse_document fuel buffer len = Inr (Some r) \<and>
    (\<forall>d. r = Some d \<longrightarrow> node_ok buffer (doc_root d) \<and> doc_buffer d = buffer)"
proof (cases len)
  case 0
  then show ?thesis
    by (simp add: xml_parse_document_def xml_parser_error_def error_character_def Let_def)
next
  case (Suc n)
  then show ?thesis using document_result [of len buffer fuel] assms by simp
qed

lemma document_reads:
  assumes "tree_ok t" and "buffer = render t @ x # rest" and "2 * length (render t) \<le> fuel"
  shows "\<exists>d. xml_parse_document fuel buffer (length (render t)) = Inr (Some (Some d)) \<and>
    view (xml_document_root d) = t"
proof -
  let ?p = "\<lparr>parser_buffer = buffer, parser_position = 0, parser_length = length (render t)\<rparr>"
  obtain m r where "render t = LT # m # r" by (rule render_start [OF assms(1)])
  then have ne: "render t \<noteq> []" by simp
  then have p: "roomy ?p" "ahead ?p = render t @ []" using assms(2) by (simp_all add: roomy_def ahead_def)
  then have "2 * length (ahead ?p) \<le> fuel" using assms(3) by simp
  with node_reads_tree [OF assms(1)] p obtain n p' where
    "xml_parse_node fuel ?p = Inr (Some (Some n, p'))" "view n = t"
    unfolding node_reads_def by blast
  with ne show ?thesis by (simp add: xml_parse_document_def bindF_def xml_document_root_def)
qed

section \<open>Properties\<close>

text \<open>
  C27: parsing any buffer, well formed or not, ends within \<open>2 * len\<close> nested calls and never reads
  outside of the object, when the object holds at least one byte after the \<open>len\<close> bytes to parse
  (callers keep a terminator there); all strings of the resulting document lie inside the buffer.
\<close>

theorem xml_parse_document_safe:
  assumes "len < length buffer" and "2 * len \<le> fuel"
  shows "\<exists>r. xml_parse_document fuel buffer len = Inr (Some r) \<and>
    (\<forall>d. r = Some d \<longrightarrow> node_ok buffer (doc_root d) \<and> doc_buffer d = buffer)"
  by (rule xml_document_ok [OF assms])

theorem xml_parse_document_safe_witness:
  "\<exists>r. xml_parse_document 8 (bytes_of ''<a><'' @ [0]) 4 = Inr (Some r)"
  using xml_parse_document_safe [of 4 "bytes_of ''<a><'' @ [0]" 8] by auto

text \<open>
  Without that byte the parser reads past its buffer: the message about the broken child shows
  the character after the last one.
\<close>

theorem xml_error_message_over_read:
  "xml_parse_document 8 (bytes_of ''<a><'') 4 = Inl OobRead"
  by code_simp

text \<open>
  C13: a document that is written from a tree is parsed to the same tree, for every tree whose tags
  (a name and, after it, attributes) have no \<open>>\<close> and no slash or whitespace at either end, and whose texts have no \<open><\<close> and
  no whitespace at either end.
\<close>

theorem xml_roundtrip:
  assumes "tree_ok t" and "buffer = render t @ x # rest" and "2 * length (render t) \<le> fuel"
  shows "\<exists>d. xml_parse_document fuel buffer (length (render t)) = Inr (Some (Some d)) \<and>
    view (xml_document_root d) = t"
  by (rule document_reads [OF assms])

lemma sample_tree_text:
  "render (Tree (bytes_of ''r a=7'') None [Tree (bytes_of ''x'') (Some (bytes_of ''1 2'')) []]) =
    bytes_of ''<r a=7><x>1 2</x></r>''"
  by code_simp

theorem xml_roundtrip_witness:
  "\<exists>d. xml_parse_document 42 (bytes_of ''<r a=7><x>1 2</x></r>'' @ [0])
      (length (bytes_of ''<r a=7><x>1 2</x></r>'')) = Inr (Some (Some d)) \<and>
    view (xml_document_root d) = Tree (bytes_of ''r a=7'') None [Tree (bytes_of ''x'') (Some (bytes_of ''1 2'')) []]"
proof -
  have "tree_ok (Tree (bytes_of ''r a=7'') None [Tree (bytes_of ''x'') (Some (bytes_of ''1 2'')) []])"
    by code_simp
  from xml_roundtrip [OF this refl, of 42 0 "[]"] show ?thesis
    unfolding sample_tree_text by simp
qed

text \<open>
  \<open>xml_string_equals\<close> compares as many bytes as the shorter string has, so that it holds as soon
  as one string begins with the other; the parser accepts a close tag that is cut short.
\<close>

theorem xml_string_equals_prefix:
  assumes "xs_ok a" and "xs_ok b"
  shows "xml_string_equals a b =
    Inr (take (length (xs_view b)) (xs_view a) = xs_view b \<or> take (length (xs_view a)) (xs_view b) = xs_view a)"
  unfolding equals_match [OF assms] names_match_def by (auto simp: min_def)

theorem xml_string_equals_prefix_witness:
  "xml_string_equals \<lparr>xs_buffer = bytes_of ''item>x'', xs_length = 4\<rparr>
     \<lparr>xs_buffer = bytes_of ''i>'', xs_length = 1\<rparr> = Inr True \<and>
   (case xml_parse_document 40 (bytes_of ''<item>x</i>'' @ [0]) 11 of Inr (Some (Some d)) \<Rightarrow> True | _ \<Rightarrow> False)"
proof
  show "xml_string_equals \<lparr>xs_buffer = bytes_of ''item>x'', xs_length = 4\<rparr>
     \<lparr>xs_buffer = bytes_of ''i>'', xs_length = 1\<rparr> = Inr True"
    using xml_string_equals_prefix [of "\<lparr>xs_buffer = bytes_of ''item>x'', xs_length = 4\<rparr>"
      "\<lparr>xs_buffer = bytes_of ''i>'', xs_length = 1\<rparr>"] by (simp add: xs_ok_def xs_view_def)
  show "case xml_parse_document 40 (bytes_of ''<item>x</i>'' @ [0]) 11 of
      Inr (Some (Some d)) \<Rightarrow> True | _ \<Rightarrow> False"
    by code_simp
qed

text \<open>
  \<open>xml_easy_child\<close> never leaves the buffer and gives the only child whose name matches, and
  nothing when there is none or more than one; \<open>xml_easy_content\<close> then copies its text, terminated.
\<close>

theorem xml_easy_child_spec:
  assumes "node_ok b current" and "c_content name"
  shows "xml_easy_child current [name @ 0 # r] =
      Inr (case filter (\<lambda>x. names_match (xs_view (xml_node_name x)) name) (node_children current) of
        [x] \<Rightarrow> Some x | _ \<Rightarrow> None)"
proof -
  let ?cn = "\<lparr>xs_buffer = name @ 0 # r, xs_length = length name\<rparr>"
  have cn: "xs_ok ?cn" "xs_view ?cn = name" by (simp_all add: xs_ok_def xs_view_def)
  have cs: "list_all (node_ok b) (node_children current)" using assms(1) by (cases current) simp
  show ?thesis
    using find_child_spec [OF cs cn(1), of None] strlen_content [OF assms(2), of r]
    by (auto simp: cn(2) xml_node_name_def split: list.split)
qed

definition sample_node :: "byte list \<Rightarrow> xml_node" where
  "sample_node b = XmlNode \<lparr>xs_buffer = drop 0 b, xs_length = 1\<rparr> None
     [XmlNode \<lparr>xs_buffer = drop 1 b, xs_length = 2\<rparr> (Some \<lparr>xs_buffer = drop 3 b, xs_length = 1\<rparr>) [],
      XmlNode \<lparr>xs_buffer = drop 4 b, xs_length = 1\<rparr> None []]"

theorem xml_easy_child_spec_witness:
  "xml_easy_child (sample_node [114, 97, 98, 49, 99]) [[99, 0]] =
    Inr (Some (XmlNode \<lparr>xs_buffer = [99], xs_length = 1\<rparr> None []))"
proof -
  have ok: "node_ok [114, 97, 98, 49, 99] (sample_node [114, 97, 98, 49, 99])" "c_content [99 :: byte]"
    unfolding sample_node_def node_ok.simps list.pred_inject option.case
    by (intro conjI xs_in_drop TrueI; simp)+ (simp add: c_content_def)
  show ?thesis using xml_easy_child_spec [OF ok, of "[]"]
    by (simp add: sample_node_def names_match_def xs_view_def xml_node_name_def)
qed

end
