(* ===== verification/Soap.thy ===== *)
theory Soap
  imports Xml
begin

text \<open>
  SOAP over HTTP (\<^verbatim>\<open>proxy_server/xml/analysis_soap.c\<close>): the request for a command, and the extraction
  of the result from a response. Buffers are objects of the size that the source declares; what
  \<open>fetch_request_auth\<close> returns is an argument.
\<close>

section \<open>Searching in a string\<close>

definition MAX_BUF_SIZE :: nat where "MAX_BUF_SIZE = 1024"

text \<open>
  \<open>strnstr\<close>: the loops over the bytes of \<open>s\<close>, of which \<open>i\<close> are behind; \<open>c\<close> is the first byte of the
  sought string, \<open>find\<close> the object from its second byte on, and \<open>len\<close> the length of that rest.
\<close>

fun strnstr_loop :: "byte list \<Rightarrow> nat \<Rightarrow> byte \<Rightarrow> byte list \<Rightarrow> nat \<Rightarrow> nat \<Rightarrow> nat option res" where
  "strnstr_loop [] i c fnd len slen = Inl OobRead"
| "strnstr_loop (sc # s) i c fnd len slen =
     (if sc = 0 \<or> slen < 1 then Inr None
      else if sc \<noteq> c then strnstr_loop s (Suc i) c fnd len (slen - 1)
      else if len > slen - 1 then Inr None
      else bindR (strncmp_eq s fnd len) (\<lambda>eq.
        if eq then Inr (Some i) else strnstr_loop s (Suc i) c fnd len (slen - 1)))"

definition strnstr :: "byte list \<Rightarrow> byte list \<Rightarrow> nat \<Rightarrow> nat option res" where
  "strnstr s fnd slen =
     bindR (rd fnd 0) (\<lambda>c.
       if c = 0 then Inr (Some 0)
       else bindR (strlen (drop 1 fnd)) (\<lambda>len. strnstr_loop s 0 c (drop 1 fnd) len slen))"

section \<open>The response\<close>

definition septation :: "byte list" where
  "septation = [13, 10, 13, 10]"

text \<open>\<open>*pos=='<' && *(pos+1)=='?' && *(pos+2)=='x'\<close>\<close>

definition xml_declared :: "byte list \<Rightarrow> bool res" where
  "xml_declared pos =
     bindR (rd pos 0) (\<lambda>c0. if c0 \<noteq> 60 then Inr False else
     bindR (rd pos 1) (\<lambda>c1. if c1 \<noteq> 63 then Inr False else
     bindR (rd pos 2) (\<lambda>c2. Inr (c2 = 120))))"

text \<open>The result and the two buffers; a null \<open>rsp\<close> is \<open>None\<close>.\<close>

definition partition_response ::
    "byte list option \<Rightarrow> nat \<Rightarrow> byte list \<Rightarrow> byte list \<Rightarrow> (bool \<times> byte list \<times> byte list) res" where
  "partition_response rsp len http_header soap =
     (case rsp of
        None \<Rightarrow> Inr (False, http_header, soap)
      | Some rsp \<Rightarrow>
          if len = 0 then Inr (False, http_header, soap)
          else bindR (strnstr rsp (lit septation) len) (\<lambda>pos.
            case pos of
              None \<Rightarrow> Inr (False, http_header, soap)
            | Some pos \<Rightarrow>
                bindR (strncpy http_header 0 rsp pos) (\<lambda>http_header.
                  let body = drop (pos + length septation) rsp
                  in bindR (xml_declared body) (\<lambda>d.
                     bindR (if d then strnstr body (lit (bytes_of ''?>'')) len else Inr (Some 0)) (\<lambda>q.
                       case q of
                         None \<Rightarrow> Inl NullDeref
                       | Some q \<Rightarrow>
                           bindR (strncpy soap 0 (drop (if d then q + 2 else 0) body) len) (\<lambda>soap.
                             Inr (True, http_header, soap)))))))"

definition get_http_status :: "byte list \<Rightarrow> nat \<Rightarrow> bool res" where
  "get_http_status http_rsp len =
     bindR (strnstr http_rsp (lit (bytes_of ''200 OK'')) len) (\<lambda>pos. Inr (pos \<noteq> None))"

text \<open>\<open>strncmp\<close> of the copied name of a node with a word.\<close>

definition name_is :: "xml_node \<Rightarrow> string \<Rightarrow> bool res" where
  "name_is n w =
     bindR (xml_string_copy (Some (xml_node_name n))
       (replicate (xml_string_length (Some (xml_node_name n)) + 1) 0)
       (xml_string_length (Some (xml_node_name n)))) (\<lambda>sznode_name.
     strncmp_eq sznode_name (lit (bytes_of w)) (length w))"

text \<open>Copying the text of the node to \<open>content\<close>; the result is \<open>content_len\<close> and \<open>content\<close>.\<close>

definition copy_content :: "xml_node \<Rightarrow> byte list \<Rightarrow> (int \<times> byte list) res" where
  "copy_content n content =
     (let len = xml_string_length (xml_node_content n)
      in bindR (xml_string_copy (xml_node_content n) content len) (\<lambda>content. Inr (int len, content)))"

text \<open>The part of \<open>get_soap_content\<close> after the parsing, for a result and for a fault.\<close>

definition result_content :: "xml_node \<Rightarrow> byte list \<Rightarrow> (int \<times> byte list) res" where
  "result_content body_node content =
     (case xml_node_child body_node 0 of
        None \<Rightarrow> Inr (-1, content)
      | Some rsp_node \<Rightarrow>
          (case xml_node_child rsp_node 0 of
             None \<Rightarrow> Inr (-1, content)
           | Some rst_node \<Rightarrow>
               bindR (name_is rst_node ''result'') (\<lambda>b.
                 if b then copy_content rst_node content else Inr (0, content))))"

definition fault_content :: "xml_node \<Rightarrow> byte list \<Rightarrow> (int \<times> byte list) res" where
  "fault_content body_node content =
     (case xml_node_child body_node 0 of
        None \<Rightarrow> Inr (-1, content)
      | Some fault_node \<Rightarrow>
          (case (case xml_node_child fault_node 2 of Some n \<Rightarrow> Some n | None \<Rightarrow> xml_node_child fault_node 1) of
             None \<Rightarrow> Inr (-1, content)
           | Some detail_node \<Rightarrow>
               bindR (name_is detail_node ''faultstring'') (\<lambda>f.
               bindR (if f then Inr True else name_is detail_node ''detail'') (\<lambda>b.
                 if b then copy_content detail_node content else Inr (0, content)))))"

text \<open>
  The return value is the \<open>size_t\<close> of the result. The buffer \<open>szBuf\<close> is written and never read.
  The parser gets as much fuel as it can need.
\<close>

definition get_soap_content :: "byte list \<Rightarrow> bool \<Rightarrow> byte list \<Rightarrow> (nat \<times> byte list) res" where
  "get_soap_content soap isOK content =
     bindR (strlen soap) (\<lambda>n.
     bindR (strncpy (replicate MAX_BUF_SIZE 0) 0 soap n) (\<lambda>szBuf.
     bindR (xml_parse_document (2 * n) soap n) (\<lambda>r.
     bindR (case r of
         Some (Some document) \<Rightarrow>
           (case xml_node_child (xml_document_root document) 0 of
              None \<Rightarrow> Inr (-1, content)
            | Some body_node \<Rightarrow>
                if isOK then result_content body_node content else fault_content body_node content)
       | _ \<Rightarrow> Inr (-1, content)) (\<lambda>(size, content). Inr (to_size_t size, content)))))"

text \<open>The result, \<open>rst\<close> and \<open>*rst_len\<close>.\<close>

definition analysis_soap_response ::
    "byte list option \<Rightarrow> nat \<Rightarrow> byte list \<Rightarrow> nat \<Rightarrow> (bool \<times> byte list \<times> nat) res" where
  "analysis_soap_response rsp rsp_len rst rst_len =
     (if rsp = None \<or> rst_len = 0 then Inr (False, rst, rst_len)
      else bindR (memcpy rst 0 (replicate rst_len 0) rst_len) (\<lambda>rst.
        let soap = replicate (MAX_BUF_SIZE * 3) 0; http_header = replicate MAX_BUF_SIZE 0
        in bindR (partition_response rsp rsp_len http_header soap) (\<lambda>(ok, http_header, soap).
           if \<not> ok then Inr (False, rst, rst_len)
           else bindR (strlen http_header) (\<lambda>n.
                bindR (get_http_status http_header n) (\<lambda>isOpOK.
                bindR (get_soap_content soap isOpOK (replicate (MAX_BUF_SIZE * 4) 0)) (\<lambda>(size, content).
                if size > 0 \<and> size \<le> rst_len
                then bindR (strncpy rst 0 content size) (\<lambda>rst. Inr (isOpOK, rst, size))
                else Inr (isOpOK, rst, rst_len)))))))"

section \<open>The request\<close>

text \<open>A string of length \<open>n\<close> and its terminator are written to an object of \<open>cap\<close> bytes.\<close>

definition fits :: "nat \<Rightarrow> byte list \<Rightarrow> byte list res" where
  "fits cap str = (if length str < cap then Inr str else Inl OobWrite)"

definition s0 :: "byte list" where
  "s0 = bytes_of ''<?xml version=\"1.0\" encoding=\"UTF-8\"?>'' @ [13, 10]"

definition s1 :: "byte list" where
  "s1 = bytes_of (''<SOAP-ENV:Envelope xmlns:SOAP-ENV=\"http://schemas.xmlsoap.org/soap/envelope/\" '' @
     ''xmlns:ns1=\"urn:TC\" xmlns:xsd=\"http://www.w3.org/2001/XMLSchema\" '' @
     ''xmlns:xsi=\"http://www.w3.org/2001/XMLSchema-instance\" '' @
     ''xmlns:SOAP-ENC=\"http://schemas.xmlsoap.org/soap/encoding/\" '' @
     ''SOAP-ENV:encodingStyle=\"http://schemas.xmlsoap.org/soap/encoding/\">'') @ [13, 10]"

definition s2 :: "byte list" where
  "s2 = bytes_of ''  <SOAP-ENV:Body>'' @ [13, 10]"

definition s3 :: "byte list" where
  "s3 = bytes_of ''    <ns1:executeCommand>'' @ [13, 10]"

definition s4 :: "byte list \<Rightarrow> byte list" where
  "s4 content = bytes_of ''      <command xsi:type=\"xsd:string\">'' @ content @ bytes_of ''</command>'' @ [13, 10]"

definition s5 :: "byte list" where
  "s5 = bytes_of ''    </ns1:executeCommand>'' @ [13, 10]"

definition s6 :: "byte list" where
  "s6 = bytes_of ''  </SOAP-ENV:Body>'' @ [13, 10]"

definition s7 :: "byte list" where
  "s7 = bytes_of ''</SOAP-ENV:Envelope>'' @ [13, 10]"

text \<open>
  The successive \<open>strcat\<close> to \<open>soapEnvelope\<close>, and \<open>sprintf(request, "%s...", request)\<close>, which appends
  (source and destination overlap: the model follows what the C library of the target does).
\<close>

fun append_all :: "nat \<Rightarrow> byte list \<Rightarrow> byte list list \<Rightarrow> byte list res" where
  "append_all cap str [] = Inr str"
| "append_all cap str (x # xs) = bindR (fits cap (str @ x)) (\<lambda>str. append_all cap str xs)"

definition request_lines :: "nat \<Rightarrow> byte list \<Rightarrow> byte list list" where
  "request_lines contentLength request_auth =
     [bytes_of ''POST / HTTP/1.1'' @ [13, 10],
      bytes_of ''Host: 127.0.0.1:18083'' @ [13, 10],
      bytes_of ''User-Agent: gSOAP/2.8'' @ [13, 10],
      bytes_of ''Content-Type: text/xml; charset=UTF-8'' @ [13, 10],
      bytes_of ''Content-Length: '' @ print_int (int contentLength) @ [13, 10],
      bytes_of ''SOAPAction: \"urn:TC#executeCommand\"'' @ [13, 10],
      bytes_of ''Authorization: Basic '' @ request_auth @ [13, 10],
      [13, 10]]"

text \<open>
  \<open>content\<close> and \<open>request_auth\<close> are the contents of C strings, \<open>None\<close> when null; \<open>cap\<close> is the size of
  the object \<open>soap_request\<close>. The result is the return value and the string written (\<open>None\<close>:
  nothing is written).
\<close>

definition make_soap_request ::
    "byte list option \<Rightarrow> nat \<Rightarrow> byte list option \<Rightarrow> nat \<Rightarrow> (nat \<times> byte list option) res" where
  "make_soap_request content len request_auth cap =
     (case content of
        None \<Rightarrow> Inr (0, None)
      | Some content \<Rightarrow>
          if len = 0 then Inr (0, None)
          else (case request_auth of
            None \<Rightarrow> Inr (0, None)
          | Some request_auth \<Rightarrow>
              if request_auth = [] then Inr (0, None)
              else bindR (fits MAX_BUF_SIZE (s4 content)) (\<lambda>s8.
                   bindR (append_all MAX_BUF_SIZE [] [s0, s1, s2, s3, s8, s5, s6, s7]) (\<lambda>soapEnvelope.
                   bindR (append_all (MAX_BUF_SIZE * 4) [] (request_lines (length soapEnvelope) request_auth)) (\<lambda>request.
                   bindR (fits cap (request @ soapEnvelope)) (\<lambda>soap_request.
                   Inr (length soapEnvelope + length request, Some soap_request)))))))"

section \<open>What the search finds\<close>

definition sub_at :: "byte list \<Rightarrow> byte list \<Rightarrow> nat \<Rightarrow> nat \<Rightarrow> bool" where
  "sub_at f c slen j \<longleftrightarrow> j + length f \<le> slen \<and> take (length f) (drop j c) = f"

definition first_sub :: "byte list \<Rightarrow> byte list \<Rightarrow> nat \<Rightarrow> nat option" where
  "first_sub f c slen = find (sub_at f c slen) [0..<length c]"

lemma find_upt_Suc: "find P [0..<Suc n] = (if P 0 then Some 0 else map_option Suc (find (\<lambda>j. P (Suc j)) [0..<n]))"
proof -
  have "find P (map Suc xs) = map_option Suc (find (\<lambda>j. P (Suc j)) xs)" for xs
    by (induction xs) auto
  moreover have "[0..<Suc n] = 0 # map Suc [0..<n]"
    by (simp add: map_Suc_upt upt_conv_Cons del: upt_Suc)
  ultimately show ?thesis by simp
qed

lemma strnstr_loop_spec:
  assumes "c_content f"
  shows "c_content c \<Longrightarrow> strnstr_loop (c @ 0 # r) i c0 (f @ q) (length f) slen =
    Inr (map_option (\<lambda>j. i + j) (first_sub (c0 # f) c slen))"
proof (induction c arbitrary: i slen)
  case Nil
  then show ?case by (simp add: first_sub_def)
next
  case (Cons x c)
  have step: "first_sub (c0 # f) (x # c) slen =
      (if sub_at (c0 # f) (x # c) slen 0 then Some 0
       else map_option Suc (first_sub (c0 # f) c (slen - 1)))" if "0 < slen"
  proof -
    have "sub_at (c0 # f) (x # c) slen (Suc j) = sub_at (c0 # f) c (slen - 1) j" for j
      using that by (auto simp: sub_at_def)
    then show ?thesis unfolding first_sub_def by (simp add: find_upt_Suc del: upt_Suc)
  qed
  have never: "first_sub (c0 # f) d m = None" if "m \<le> length f" for d m
    using that by (auto simp: first_sub_def find_None_iff sub_at_def)
  show ?case
  proof (cases "slen < 1")
    case True
    with never [of slen "x # c"] show ?thesis by simp
  next
    case pos: False
    have IH: "strnstr_loop (c @ 0 # r) (Suc i) c0 (f @ q) (length f) (slen - 1) =
        Inr (map_option (\<lambda>j. Suc i + j) (first_sub (c0 # f) c (slen - 1)))"
      by (rule Cons.IH) (use Cons.prems in simp)
    have map: "map_option (\<lambda>j. Suc i + j) z = map_option (\<lambda>j. i + j) (map_option Suc z)" for z
      by (cases z) simp_all
    note IH = IH [unfolded map]
    have x: "x \<noteq> 0" "c_content c" using Cons.prems by simp_all
    show ?thesis
    proof (cases "x = c0")
      case False
      then have "\<not> sub_at (c0 # f) (x # c) slen 0" by (simp add: sub_at_def)
      with step pos IH x False show ?thesis by simp
    next
      case eq: True
      show ?thesis
      proof (cases "length f > slen - 1")
        case True
        then have "first_sub (c0 # f) (x # c) slen = None" using pos by (intro never) simp
        with True eq pos x show ?thesis by simp
      next
        case False
        then have "sub_at (c0 # f) (x # c) slen 0 \<longleftrightarrow> take (length f) c = f"
          using pos eq by (auto simp: sub_at_def)
        with step pos IH x False eq strncmp_eq_spec [OF assms x(2), of r q] show ?thesis by simp
      qed
    qed
  qed
qed

lemma strnstr_spec:
  assumes "c_content c" and "c_content f" and "f \<noteq> []"
  shows "strnstr (c @ 0 # r) (lit f) slen = Inr (first_sub f c slen)"
proof -
  obtain c0 g where f: "f = c0 # g" using assms(3) by (cases f) auto
  then have g: "c_content g" "c0 \<noteq> 0" using assms(2) by simp_all
  have "map_option (\<lambda>j. 0 + j) z = z" for z :: "nat option" by (cases z) simp_all
  with strnstr_loop_spec [OF g(1) assms(1), of r 0 c0 "[0]" slen] strlen_content [OF g(1), of "[]"]
  show ?thesis using g(2) by (simp add: strnstr_def lit_def f rd_def)
qed

lemma first_sub_SomeD:
  assumes "first_sub f c slen = Some j"
  shows "sub_at f c slen j" and "j < length c"
proof -
  from assms obtain i where "i < length [0..<length c]" "sub_at f c slen ([0..<length c] ! i)"
    "j = [0..<length c] ! i"
    by (auto simp: first_sub_def find_Some_iff)
  then show "sub_at f c slen j" and "j < length c" by auto
qed

lemma sub_at_length: "sub_at f c slen j \<Longrightarrow> f \<noteq> [] \<Longrightarrow> j + length f \<le> length c"
proof -
  assume "sub_at f c slen j" "f \<noteq> []"
  then have "length f = min (length f) (length c - j)"
    unfolding sub_at_def by (metis length_drop length_take min.commute)
  moreover have "0 < length f" using \<open>f \<noteq> []\<close> by simp
  ultimately show ?thesis by linarith
qed

lemma c_content_take_drop [simp]:
  "c_content c \<Longrightarrow> c_content (take n c)" "c_content c \<Longrightarrow> c_content (drop n c)"
  by (auto simp: c_content_def dest: in_set_takeD in_set_dropD)

lemma words_content [simp]:
  "c_content septation" "septation \<noteq> []" "length septation = 4"
  "c_content (bytes_of ''?>'')" "c_content (bytes_of ''200 OK'')"
  by (simp_all add: septation_def c_content_def)

lemma xml_declared_spec:
  assumes "c_content b"
  shows "xml_declared (b @ 0 # r) = Inr (take 3 b = bytes_of ''<?x'')"
proof -
  consider "b = []" | x where "b = [x]" | x y where "b = [x, y]" | x y z d where "b = x # y # z # d"
    by (metis list.exhaust)
  then show ?thesis using assms
    by cases (auto simp: xml_declared_def rd_def numeral_3_eq_3)
qed

text \<open>
  What follows the header (which has length \<open>j\<close>), without the XML declaration; \<open>None\<close> when the
  declaration does not end.
\<close>

definition soap_text :: "byte list \<Rightarrow> nat \<Rightarrow> nat \<Rightarrow> byte list option" where
  "soap_text c len j =
     (let b = drop (j + 4) c
      in if take 3 b = bytes_of ''<?x''
         then map_option (\<lambda>q. drop (q + 2) b) (first_sub (bytes_of ''?>'') b len)
         else Some b)"

lemma soap_text_content: "c_content c \<Longrightarrow> soap_text c len j = Some t \<Longrightarrow> c_content t"
  by (auto simp: soap_text_def Let_def split: if_splits)

lemma strncpy_zeros:
  assumes "c_content c" and "n \<le> m"
  shows "strncpy (replicate m 0) 0 (c @ 0 # r) n = Inr (take n c @ replicate (m - length (take n c)) 0)"
proof -
  have "replicate (n - length c) (0 :: byte) @ replicate (m - n) 0 = replicate (m - length (take n c)) 0"
    using assms(2) by (simp add: min_def flip: replicate_add)
  moreover have "take n (take n c @ replicate (n - length c) 0) = take n c @ replicate (n - length c) 0"
    by simp
  moreover have "n \<le> length (take n c @ replicate (n - length c) (0 :: byte))" by simp
  ultimately show ?thesis using assms
    unfolding strncpy_def strncpy_bytes_content [OF assms(1)] bindR_simps memcpy_def
    by (simp del: take_append length_append add: drop_replicate)
qed

lemma partition_response_spec:
  assumes "c_content c" and "0 < len" and "len \<le> MAX_BUF_SIZE"
  shows "partition_response (Some (c @ 0 # r)) len (replicate MAX_BUF_SIZE 0) (replicate (MAX_BUF_SIZE * 3) 0) =
    (case first_sub septation c len of
       None \<Rightarrow> Inr (False, replicate MAX_BUF_SIZE 0, replicate (MAX_BUF_SIZE * 3) 0)
     | Some j \<Rightarrow>
         (case soap_text c len j of
            None \<Rightarrow> Inl NullDeref
          | Some t \<Rightarrow> Inr (True, take j c @ replicate (MAX_BUF_SIZE - j) 0,
              take len t @ replicate (MAX_BUF_SIZE * 3 - length (take len t)) 0)))"
proof (cases "first_sub septation c len")
  case None
  with assms strnstr_spec [OF assms(1), of septation r len] show ?thesis
    by (simp add: partition_response_def)
next
  case (Some j)
  from first_sub_SomeD [OF Some] have j: "j + 4 \<le> len" "j + 4 \<le> length c"
    using sub_at_length [of septation c len j] by (simp_all add: sub_at_def)
  let ?b = "drop (j + 4) c"
  have body: "drop (j + 4) (c @ 0 # r) = ?b @ 0 # r" using j(2) by simp
  have hd: "strncpy (replicate MAX_BUF_SIZE 0) 0 (c @ 0 # r) j = Inr (take j c @ replicate (MAX_BUF_SIZE - j) 0)"
    using strncpy_zeros [OF assms(1), of j MAX_BUF_SIZE r] j assms(3) by simp
  have soap: "strncpy (replicate (MAX_BUF_SIZE * 3) 0) 0 (d @ 0 # r) len =
      Inr (take len d @ replicate (MAX_BUF_SIZE * 3 - length (take len d)) 0)" if "c_content d" for d
    using strncpy_zeros [OF that, of len "MAX_BUF_SIZE * 3" r] assms(3) by simp
  have start: "partition_response (Some (c @ 0 # r)) len (replicate MAX_BUF_SIZE 0) (replicate (MAX_BUF_SIZE * 3) 0) =
      bindR (if take 3 ?b = bytes_of ''<?x'' then strnstr (?b @ 0 # r) (lit (bytes_of ''?>'')) len else Inr (Some 0)) (\<lambda>q.
        case q of None \<Rightarrow> Inl NullDeref
        | Some q \<Rightarrow> bindR (strncpy (replicate (MAX_BUF_SIZE * 3) 0) 0
             (drop (if take 3 ?b = bytes_of ''<?x'' then q + 2 else 0) (?b @ 0 # r)) len) (\<lambda>soap.
             Inr (True, take j c @ replicate (MAX_BUF_SIZE - j) 0, soap)))"
    using assms(1,2) Some strnstr_spec [OF assms(1), of septation r len] hd body
      xml_declared_spec [of ?b r]
    by (simp add: partition_response_def Let_def del: drop_append drop_drop cong: option.case_cong)
  show ?thesis
  proof (cases "take 3 ?b = bytes_of ''<?x''")
    case False
    with start soap [of ?b] Some assms(1) show ?thesis by (simp add: soap_text_def Let_def)
  next
    case True
    have str: "strnstr (?b @ 0 # r) (lit (bytes_of ''?>'')) len = Inr (first_sub (bytes_of ''?>'') ?b len)"
      using assms(1) by (intro strnstr_spec) simp_all
    show ?thesis
    proof (cases "first_sub (bytes_of ''?>'') ?b len")
      case None
      with start str True Some show ?thesis by (simp add: soap_text_def)
    next
      case q: (Some q)
      from sub_at_length [OF first_sub_SomeD(1) [OF q]] have "q + 2 \<le> length ?b" by simp
      then have d: "drop (q + 2) (?b @ 0 # r) = drop (q + 2) ?b @ 0 # r" by simp
      have t: "soap_text c len j = Some (drop (q + 2) ?b)"
        using True q by (simp add: soap_text_def Let_def)
      have cc: "c_content (drop (q + 2) ?b)" using assms(1) by simp
      show ?thesis unfolding start str q bindR_simps option.case if_P [OF True] d soap [OF cc] Some t by simp
    qed
  qed
qed

section \<open>The result of a response\<close>

lemma strncmp_eq_total: "n < length s \<Longrightarrow> n < length f \<Longrightarrow> \<exists>b. strncmp_eq s f n = Inr b"
  by (induction s f n rule: strncmp_eq.induct) auto

lemma strncmp_eq_terminated:
  "0 \<in> set s \<Longrightarrow> n \<le> length f \<Longrightarrow> \<exists>b. strncmp_eq s f n = Inr b"
  by (induction s f n rule: strncmp_eq.induct) auto

lemma name_copy:
  assumes "xs_ok s"
  shows "xml_string_copy (Some s) (replicate (xs_length s + 1) 0) (xs_length s) = Inr (xs_view s @ [0])"
  using assms by (simp add: xml_string_copy_def memcpy_def xs_ok_def xs_view_def drop_replicate del: replicate_Suc) simp

lemma name_is_ok: "node_ok b n \<Longrightarrow> \<exists>r. name_is n w = Inr r"
proof -
  assume "node_ok b n"
  then have "xs_ok (node_name n)" by (cases n) (simp add: xs_in_def)
  from name_copy [OF this] strncmp_eq_terminated [of "xs_view (node_name n) @ [0]" "length w" "lit (bytes_of w)"]
  show ?thesis by (simp add: name_is_def xml_node_name_def xml_string_length_def lit_def)
qed

lemma copy_content_ok:
  assumes "node_ok b n" and "length b \<le> length content"
  shows "\<exists>k content'. copy_content n content = Inr (int k, content') \<and> length content' = length content \<and>
    k \<le> length b"
proof (cases "node_content n")
  case None
  then show ?thesis by (simp add: copy_content_def xml_node_content_def xml_string_length_def xml_string_copy_def)
next
  case (Some s)
  with assms(1) have s: "xs_in b s" by (cases n) simp
  then have "xs_length s \<le> length (xs_buffer s)" "xs_length s \<le> length b"
    using xs_in_length by (simp_all add: xs_in_def xs_ok_def)
  with Some assms(2) show ?thesis
    by (simp add: copy_content_def xml_node_content_def xml_string_length_def xml_string_copy_def
      memcpy_def Let_def)
qed

lemma child_ok: "node_ok b n \<Longrightarrow> xml_node_child n i = Some c \<Longrightarrow> node_ok b c"
  by (cases n) (auto simp: xml_node_child_def xml_node_children_def list_all_iff split: if_splits)

definition content_post :: "byte list \<Rightarrow> byte list \<Rightarrow> (int \<times> byte list) res \<Rightarrow> bool" where
  "content_post b content res \<longleftrightarrow> (\<exists>k content'. res = Inr (k, content') \<and> length content' = length content \<and>
     - 1 \<le> k \<and> k \<le> int (length b))"

lemma content_postI [intro]:
  "length content' = length content \<Longrightarrow> - 1 \<le> k \<Longrightarrow> k \<le> int (length b) \<Longrightarrow>
    content_post b content (Inr (k, content'))"
  by (simp add: content_post_def)

lemma copy_content_post:
  "node_ok b n \<Longrightarrow> length b \<le> length content \<Longrightarrow> content_post b content (copy_content n content)"
  using copy_content_ok [of b n content] by (auto simp: content_post_def)

lemma result_content_ok:
  assumes "node_ok b n" and "length b \<le> length content"
  shows "content_post b content (result_content n content)"
proof (cases "xml_node_child n 0")
  case None
  then show ?thesis by (auto simp: result_content_def)
next
  case (Some r)
  note r = child_ok [OF assms(1) Some]
  show ?thesis
  proof (cases "xml_node_child r 0")
    case None
    with Some show ?thesis by (auto simp: result_content_def)
  next
    case q: (Some q)
    note nq = child_ok [OF r q]
    from name_is_ok [OF nq] obtain x where "name_is q ''result'' = Inr x" by blast
    with Some q copy_content_post [OF nq assms(2)] show ?thesis
      by (cases x) (auto simp: result_content_def)
  qed
qed

lemma fault_content_ok:
  assumes "node_ok b n" and "length b \<le> length content"
  shows "content_post b content (fault_content n content)"
proof (cases "xml_node_child n 0")
  case None
  then show ?thesis by (auto simp: fault_content_def)
next
  case (Some r)
  note r = child_ok [OF assms(1) Some]
  let ?d = "case xml_node_child r 2 of Some n \<Rightarrow> Some n | None \<Rightarrow> xml_node_child r 1"
  show ?thesis
  proof (cases ?d)
    case None
    with Some show ?thesis by (auto simp: fault_content_def)
  next
    case q: (Some q)
    then have nq: "node_ok b q" using child_ok [OF r] by (auto split: option.splits)
    from name_is_ok [OF nq] obtain x y where
      "name_is q ''faultstring'' = Inr x" "name_is q ''detail'' = Inr y" by blast
    with Some q copy_content_post [OF nq assms(2)] show ?thesis
      by (cases x; cases y) (auto simp: fault_content_def)
  qed
qed

lemma get_soap_content_ok:
  assumes "c_content t" and "length t \<le> MAX_BUF_SIZE" and "0 < k"
    and "length t + k \<le> length content" and "length content < 2 ^ 64"
  shows "\<exists>n content'. get_soap_content (t @ replicate k 0) isOK content = Inr (n, content') \<and>
    length content' = length content \<and> (n = 2 ^ 64 - 1 \<or> n \<le> length content)"
proof -
  let ?b = "t @ replicate k 0"
  obtain j where k: "k = Suc j" using assms(3) by (cases k) auto
  have len: "strlen ?b = Inr (length t)" using strlen_content [OF assms(1), of "replicate j 0"] k by simp
  have buf: "\<exists>z. strncpy (replicate MAX_BUF_SIZE 0) 0 ?b (length t) = Inr z"
    using strncpy_zeros [OF assms(1,2), of "replicate j 0"] k by simp
  have "length t < length ?b" using assms(3) by simp
  from xml_document_ok [OF this, of "2 * length t"] obtain r where
    r: "xml_parse_document (2 * length t) ?b (length t) = Inr (Some r)"
      "\<forall>d. r = Some d \<longrightarrow> node_ok ?b (doc_root d)" by auto
  let ?res = "case Some r of
         Some (Some document) \<Rightarrow>
           (case xml_node_child (xml_document_root document) 0 of
              None \<Rightarrow> Inr (-1, content)
            | Some body_node \<Rightarrow>
                if isOK then result_content body_node content else fault_content body_node content)
       | _ \<Rightarrow> Inr (-1, content)"
  have "content_post ?b content ?res"
  proof (cases r)
    case None
    then show ?thesis by auto
  next
    case (Some d)
    then have d: "node_ok ?b (xml_document_root d)" using r(2) by (simp add: xml_document_root_def)
    have lb: "length ?b \<le> length content" using assms(4) by simp
    show ?thesis
    proof (cases "xml_node_child (xml_document_root d) 0")
      case None
      with Some show ?thesis by auto
    next
      case c: (Some c)
      note nc = child_ok [OF d c]
      from Some c result_content_ok [OF nc lb] fault_content_ok [OF nc lb] show ?thesis by simp
    qed
  qed
  then obtain i content' where i: "?res = Inr (i, content')" "length content' = length content"
      "- 1 \<le> i" "i \<le> int (length ?b)"
    by (auto simp: content_post_def)
  have "to_size_t i = 2 ^ 64 - 1 \<or> to_size_t i \<le> length content"
  proof (cases "i = - 1")
    case True
    then show ?thesis by simp
  next
    case False
    with i(3,4) assms(4,5) have "to_size_t i = nat i" "nat i \<le> length content"
      by (auto simp: to_size_t_nonneg)
    then show ?thesis by simp
  qed
  with i(1,2) len buf r(1) show ?thesis unfolding get_soap_content_def by auto
qed

lemma strlen_zeros: "c_content t \<Longrightarrow> 0 < k \<Longrightarrow> strlen (t @ replicate k 0) = Inr (length t)"
  using strlen_content [of t "replicate (k - 1) 0"] by (cases k) simp_all

lemma strncpy_bytes_total: "n \<le> length s \<Longrightarrow> \<exists>w. strncpy_bytes s n = Inr w"
  by (induction s n rule: strncpy_bytes.induct) auto

lemma strncpy_total: "n \<le> length s \<Longrightarrow> n \<le> length d \<Longrightarrow> \<exists>w. strncpy d 0 s n = Inr w \<and> length w = length d"
  using strncpy_bytes_total [of n s] strncpy_bytes_length [of s n]
  by (auto simp: strncpy_def memcpy_def)

lemma analysis_soap_response_steps:
  assumes "c_content c" and "0 < len" and "len \<le> MAX_BUF_SIZE" and "0 < rst_len"
    and "rst_len \<le> length rst" and "first_sub septation c len = Some j" and "soap_text c len j = Some t"
  shows "analysis_soap_response (Some (c @ 0 # r)) len rst rst_len =
    bindR (get_soap_content (take len t @ replicate (MAX_BUF_SIZE * 3 - length (take len t)) 0)
        (first_sub (bytes_of ''200 OK'') (take j c) j \<noteq> None) (replicate (MAX_BUF_SIZE * 4) 0))
      (\<lambda>(size, content).
        let rst = replicate rst_len 0 @ drop rst_len rst; ok = first_sub (bytes_of ''200 OK'') (take j c) j \<noteq> None
        in if size > 0 \<and> size \<le> rst_len
           then bindR (strncpy rst 0 content size) (\<lambda>rst. Inr (ok, rst, size))
           else Inr (ok, rst, rst_len))"
proof -
  have j: "j + 4 \<le> len" "j + 4 \<le> length c"
    using first_sub_SomeD(1) [OF assms(6)] sub_at_length [of septation c len j]
    by (simp_all add: sub_at_def)
  have zero: "memcpy rst 0 (replicate rst_len 0) rst_len = Inr (replicate rst_len 0 @ drop rst_len rst)"
    using assms(5) by (simp add: memcpy_def)
  have cj: "c_content (take j c)" "length (take j c) = j" using assms(1) j by simp_all
  have "0 < MAX_BUF_SIZE - j" using j assms(3) by simp
  then obtain m where m: "MAX_BUF_SIZE - j = Suc m" by (cases "MAX_BUF_SIZE - j") auto
  have hl: "strlen (take j c @ replicate (MAX_BUF_SIZE - j) 0) = Inr j"
    using strlen_zeros [OF cj(1), of "MAX_BUF_SIZE - j"] m cj(2) by simp
  have st: "get_http_status (take j c @ replicate (MAX_BUF_SIZE - j) 0) j =
      Inr (first_sub (bytes_of ''200 OK'') (take j c) j \<noteq> None)"
    using strnstr_spec [OF cj(1), of "bytes_of ''200 OK''" "replicate m 0" j] m
    by (simp add: get_http_status_def)
  show ?thesis
    using assms(4) partition_response_spec [OF assms(1-3), of r] assms(6,7)
    by (simp add: analysis_soap_response_def zero hl st Let_def)
qed

lemma view_children:
  "view n = Tree m c (t # ts) \<Longrightarrow> \<exists>x. xml_node_child n 0 = Some x \<and> view x = t"
  by (cases n) (auto simp: xml_node_child_def xml_node_children_def)

lemma name_is_view:
  assumes "xs_ok (node_name n)" and "c_content (xs_view (node_name n))" and "c_content (bytes_of w)"
  shows "name_is n w = Inr (take (length w) (xs_view (node_name n)) = bytes_of w)"
  using name_copy [OF assms(1)] strncmp_eq_spec [OF assms(3,2), of "[]" "[0]"]
  by (simp add: name_is_def xml_node_name_def xml_string_length_def lit_def)

lemma copy_content_view:
  assumes "node_content n = Some s" and "xs_ok s" and "length (xs_view s) \<le> length content"
  shows "copy_content n content =
    Inr (int (length (xs_view s)), xs_view s @ drop (length (xs_view s)) content)"
proof -
  have "length (xs_view s) = xs_length s" using assms(2) by (simp add: xs_ok_def xs_view_def)
  with assms show ?thesis
    by (simp add: copy_content_def xml_node_content_def xml_string_length_def xml_string_copy_def
      memcpy_def Let_def xs_ok_def xs_view_def)
qed

text \<open>The result node of a response, three levels down.\<close>

lemma result_content_view:
  assumes "node_ok b n" and "view n = Tree m1 c1 (Tree m2 c2 (Tree m3 (Some txt) cs # ts2) # ts1)"
    and "take (length ''result'') m3 = bytes_of ''result''" and "c_content m3" and "length txt \<le> length content"
  shows "result_content n content = Inr (int (length txt), txt @ drop (length txt) content)"
proof -
  from view_children [OF assms(2)] obtain x where
    x: "xml_node_child n 0 = Some x" "view x = Tree m2 c2 (Tree m3 (Some txt) cs # ts2)" by blast
  from view_children [OF x(2)] obtain y where
    y: "xml_node_child x 0 = Some y" "view y = Tree m3 (Some txt) cs" by blast
  have ok: "node_ok b y" by (rule child_ok [OF child_ok [OF assms(1) x(1)] y(1)])
  obtain nm s ys where yy: "y = XmlNode nm (Some s) ys" "xs_view nm = m3" "xs_view s = txt"
    using y(2) by (cases y) auto
  have s: "xs_ok nm" "xs_ok s" using ok yy(1) by (simp_all add: xs_in_def)
  have "name_is y ''result'' = Inr True"
    using name_is_view [of y "''result''"] yy s assms(3,4) by (simp add: c_content_def)
  moreover have "copy_content y content = Inr (int (length txt), txt @ drop (length txt) content)"
    using copy_content_view [of y s content] yy s assms(5) by simp
  ultimately show ?thesis using x(1) y(1) by (simp add: result_content_def)
qed

lemma append_all_spec:
  "append_all cap str xs =
    (if xs = [] \<or> length (str @ concat xs) < cap then Inr (str @ concat xs) else Inl OobWrite)"
proof (induction xs arbitrary: str)
  case (Cons x xs)
  show ?case using Cons.IH [of "str @ x"] by (auto simp: fits_def)
qed simp

definition envelope :: "byte list \<Rightarrow> byte list" where
  "envelope content = s0 @ s1 @ s2 @ s3 @ s4 content @ s5 @ s6 @ s7"

lemma envelope_length: "length (envelope content) = 527 + length content"
  by (simp add: envelope_def s0_def s1_def s2_def s3_def s4_def s5_def s6_def s7_def)

lemma s4_length: "length (s4 content) = 49 + length content"
  by (simp add: s4_def)

lemma request_length:
  assumes "n < 1024"
  shows "length (concat (request_lines n request_auth)) \<le> length request_auth + 200"
proof -
  have "length (print_int (int n)) \<le> 11" using assms by (intro print_int_length) simp_all
  then show ?thesis by (simp add: request_lines_def)
qed

text \<open>The text of the \<open>result\<close> element, out of the whole envelope.\<close>

lemma get_soap_content_result:
  assumes "tree_ok t" and "c_content (render t)" and "length (render t) \<le> MAX_BUF_SIZE"
    and "t = Tree m0 None (Tree m1 None (Tree m2 None (Tree m3 (Some txt) [] # ts2) # ts1) # ts0)"
    and "take (length ''result'') m3 = bytes_of ''result''"
    and "length txt \<le> length content" and "length content < 2 ^ 64"
  shows "get_soap_content (render t @ replicate (Suc k) 0) True content =
    Inr (length txt, txt @ drop (length txt) content)"
proof -
  let ?b = "render t @ replicate (Suc k) 0"
  have len: "strlen ?b = Inr (length (render t))" using strlen_zeros [OF assms(2), of "Suc k"] by simp
  have buf: "strncpy (replicate MAX_BUF_SIZE 0) 0 ?b (length (render t)) =
      Inr (render t @ replicate (MAX_BUF_SIZE - length (render t)) 0)"
    using strncpy_zeros [OF assms(2,3), of "replicate k 0"] by simp
  have b: "?b = render t @ 0 # replicate k 0" by simp
  from document_reads [OF assms(1) b order_refl] obtain d where
    d: "xml_parse_document (2 * length (render t)) ?b (length (render t)) = Inr (Some (Some d))"
      "view (xml_document_root d) = t" by blast
  have "length (render t) < length ?b" by simp
  from xml_document_ok [OF this order_refl] d(1) have ok: "node_ok ?b (xml_document_root d)"
    by (auto simp: xml_document_root_def)
  from view_children [OF d(2) [unfolded assms(4)]] obtain n where
    n: "xml_node_child (xml_document_root d) 0 = Some n"
      "view n = Tree m1 None (Tree m2 None (Tree m3 (Some txt) [] # ts2) # ts1)" by blast
  have "c_content m3" using assms(2) unfolding assms(4) by simp
  from result_content_view [OF child_ok [OF ok n(1)] n(2) assms(5) this assms(6)]
  have "result_content n content = Inr (int (length txt), txt @ drop (length txt) content)" .
  with n(1) len buf d(1) assms(6,7) show ?thesis by (simp add: get_soap_content_def)
qed

lemma request_eq:
  assumes "len \<noteq> 0" and "request_auth \<noteq> []" and "length request_auth \<le> 3000" and "length request_auth + 1300 \<le> cap"
  shows "make_soap_request (Some content) len (Some request_auth) cap =
    (if length content \<le> 496
     then let body = envelope content; request = concat (request_lines (length body) request_auth)
          in Inr (length (request @ body), Some (request @ body))
     else Inl OobWrite)"
proof -
  have e: "append_all MAX_BUF_SIZE [] [s0, s1, s2, s3, s4 content, s5, s6, s7] =
      (if length content \<le> 496 then Inr (envelope content) else Inl OobWrite)"
    using envelope_length [of content] unfolding append_all_spec
    by (auto simp: envelope_def MAX_BUF_SIZE_def)
  show ?thesis
  proof (cases "length content \<le> 496")
    case True
    let ?r = "concat (request_lines (length (envelope content)) request_auth)"
    have r: "length ?r \<le> length request_auth + 200"
      using True by (intro request_length) (simp add: envelope_length)
    then have "length ?r < MAX_BUF_SIZE * 4" using assms(3) by (simp add: MAX_BUF_SIZE_def)
    then have "append_all (MAX_BUF_SIZE * 4) [] (request_lines (length (envelope content)) request_auth) = Inr ?r"
      unfolding append_all_spec by simp
    moreover have "length (?r @ envelope content) < cap"
      using r True assms(4) by (simp add: envelope_length)
    moreover have "fits MAX_BUF_SIZE (s4 content) = Inr (s4 content)"
      using True by (simp add: fits_def s4_length MAX_BUF_SIZE_def)
    ultimately show ?thesis using assms(1,2) e True
      by (simp add: make_soap_request_def fits_def Let_def)
  next
    case False
    then show ?thesis using assms(1,2) e
      by (simp add: make_soap_request_def fits_def)
  qed
qed

lemma response_result:
  assumes "c_content c" and "0 < len" and "len \<le> MAX_BUF_SIZE" and "0 < rst_len" and "rst_len \<le> length rst"
    and "first_sub septation c len = Some j" and "first_sub (bytes_of ''200 OK'') (take j c) j \<noteq> None"
    and "soap_text c len j = Some (render t)" and "length (render t) \<le> len" and "tree_ok t"
    and "t = Tree m0 None (Tree m1 None (Tree m2 None (Tree m3 (Some txt) [] # ts2) # ts1) # ts0)"
    and "take (length ''result'') m3 = bytes_of ''result''" and "length txt \<le> rst_len"
  shows "analysis_soap_response (Some (c @ 0 # r)) len rst rst_len =
    Inr (True, txt @ replicate (rst_len - length txt) 0 @ drop rst_len rst, length txt)"
proof -
  have ct: "c_content (render t)"
    by (rule soap_text_content [OF assms(1,8)])
  then have cx: "c_content txt" unfolding assms(11) by simp
  have bt: "body_ok txt" using assms(10) unfolding assms(11) by simp
  have tk: "take len (render t) = render t" using assms(9) by simp
  have lt: "length (render t) \<le> MAX_BUF_SIZE" using assms(3,9) by simp
  then obtain k where k: "MAX_BUF_SIZE * 3 - length (render t) = Suc k"
    by (cases "MAX_BUF_SIZE * 3 - length (render t)") (auto simp: MAX_BUF_SIZE_def)
  have lx: "length txt \<le> length (render t)" unfolding assms(11) by simp
  then have "length txt \<le> length (replicate (MAX_BUF_SIZE * 4) (0 :: byte))" using lt by simp
  moreover have "length (replicate (MAX_BUF_SIZE * 4) (0 :: byte)) < 2 ^ 64" by (simp add: MAX_BUF_SIZE_def)
  ultimately have g: "get_soap_content (render t @ replicate (Suc k) 0) True (replicate (MAX_BUF_SIZE * 4) 0) =
      Inr (length txt, txt @ drop (length txt) (replicate (MAX_BUF_SIZE * 4) 0))"
    by (rule get_soap_content_result [OF assms(10) ct lt assms(11,12)])
  obtain z where z: "drop (length txt) (replicate (MAX_BUF_SIZE * 4) (0 :: byte)) = 0 # z"
    using lx lt by (cases "MAX_BUF_SIZE * 4 - length txt") (auto simp: MAX_BUF_SIZE_def)
  have "0 < length txt" using bt by (simp add: body_ok_def)
  let ?rst = "replicate rst_len 0 @ drop rst_len rst"
  have "strncpy ?rst 0 (txt @ 0 # z) (length txt) =
      Inr (txt @ replicate (rst_len - length txt) 0 @ drop rst_len rst)"
    using assms(5,13) strncpy_bytes_content [OF cx, of z "length txt"]
    by (simp add: strncpy_def memcpy_def drop_replicate)
  with g z \<open>0 < length txt\<close> assms(7,13) show ?thesis
    unfolding analysis_soap_response_steps [OF assms(1-6,8)] tk k by (simp add: Let_def)
qed

section \<open>Properties\<close>



text \<open>
  C29: the analysis of a response of at most 1024 bytes never leaves a buffer, whatever the
  bytes of the response are, unless the body begins with an XML declaration that does not end;
  the length it returns never exceeds the one it was given.
\<close>

theorem analysis_soap_response_safe:
  assumes "c_content c" and "len \<le> MAX_BUF_SIZE" and "rst_len \<le> length rst"
    and "length rst < 2 ^ 64 - 1" and "case first_sub septation c len of None \<Rightarrow> True | Some j \<Rightarrow> soap_text c len j \<noteq> None"
  shows "\<exists>ok rst' n. analysis_soap_response (Some (c @ 0 # r)) len rst rst_len = Inr (ok, rst', n) \<and>
    length rst' = length rst \<and> n \<le> rst_len"
proof (cases "rst_len = 0 \<or> len = 0 \<or> first_sub septation c len = None")
  case True
  show ?thesis
  proof (cases "rst_len = 0")
    case True
    then show ?thesis by (auto simp: analysis_soap_response_def)
  next
    case pos: False
    have p: "partition_response (Some (c @ 0 # r)) len (replicate MAX_BUF_SIZE 0) (replicate (MAX_BUF_SIZE * 3) 0) =
        Inr (False, replicate MAX_BUF_SIZE 0, replicate (MAX_BUF_SIZE * 3) 0)"
    proof (cases "len = 0")
      case True
      then show ?thesis by (simp add: partition_response_def)
    next
      case False
      with True pos partition_response_spec [OF assms(1) _ assms(2), of r] show ?thesis by simp
    qed
    with pos assms(3) show ?thesis
      by (auto simp: analysis_soap_response_def memcpy_def Let_def)
  qed
next
  case False
  then obtain j where j: "first_sub septation c len = Some j" by auto
  with assms(5) obtain t where t: "soap_text c len j = Some t" by auto
  have pos: "0 < len" "0 < rst_len" using False by simp_all
  have "c_content t"
    by (rule soap_text_content [OF assms(1) t])
  then have ct: "c_content (take len t)" by simp
  have tl: "length (take len t) \<le> MAX_BUF_SIZE" using assms(2) by simp
  define k where "k = MAX_BUF_SIZE * 3 - length (take len t)"
  have k: "0 < k" using tl by (simp add: k_def MAX_BUF_SIZE_def)
  have kl: "length (take len t) + k \<le> length (replicate (MAX_BUF_SIZE * 4) (0 :: byte))"
    using tl by (simp add: k_def MAX_BUF_SIZE_def)
  let ?ok = "first_sub (bytes_of ''200 OK'') (take j c) j \<noteq> None"
  have big: "length (replicate (MAX_BUF_SIZE * 4) (0 :: byte)) < 2 ^ 64" by (simp add: MAX_BUF_SIZE_def)
  from get_soap_content_ok [OF ct tl k kl big, of ?ok] obtain n content where
    g: "get_soap_content (take len t @ replicate k 0) ?ok (replicate (MAX_BUF_SIZE * 4) 0) = Inr (n, content)"
      "length content = MAX_BUF_SIZE * 4" "n = 2 ^ 64 - 1 \<or> n \<le> MAX_BUF_SIZE * 4"
    by (auto simp del: replicate.simps)
  let ?rst = "replicate rst_len 0 @ drop rst_len rst"
  have rl: "length ?rst = length rst" using assms(3) by simp
  show ?thesis
  proof (cases "0 < n \<and> n \<le> rst_len")
    case True
    have "n \<le> length content" using g(2,3) True assms(3,4) by auto
    with True assms(3) rl obtain w where "strncpy ?rst 0 content n = Inr w" "length w = length rst"
      using strncpy_total [of n content ?rst] by auto
    with True g(1) show ?thesis
      unfolding analysis_soap_response_steps [OF assms(1) pos(1) assms(2) pos(2) assms(3) j t] k_def [symmetric]
      by (simp add: Let_def)
  next
    case False
    with g(1) rl show ?thesis
      unfolding analysis_soap_response_steps [OF assms(1) pos(1) assms(2) pos(2) assms(3) j t] k_def [symmetric]
      by (auto simp: Let_def)
  qed
qed

text \<open>A response with a fault and no details: \<open>HTTP/1.1 500\<close>, and an envelope that is cut short.\<close>

definition fault_response :: "byte list" where
  "fault_response = bytes_of ''HTTP/1.1 500'' @ septation @ bytes_of ''<?xml?><E><B>''"

theorem analysis_soap_response_safe_witness:
  "\<exists>ok rst' n. analysis_soap_response (Some (fault_response @ 0 # [])) 32 (replicate 8 1) 8 = Inr (ok, rst', n) \<and>
    length rst' = length (replicate 8 (1 :: byte)) \<and> n \<le> 8"
proof (rule analysis_soap_response_safe)
  show "c_content fault_response" by (simp add: fault_response_def c_content_def septation_def)
  show "32 \<le> MAX_BUF_SIZE" by (simp add: MAX_BUF_SIZE_def)
  show "8 \<le> length (replicate 8 (1 :: byte))" by simp
  show "length (replicate 8 (1 :: byte)) < 2 ^ 64 - 1" by simp
  have "first_sub septation fault_response 32 = Some 12 \<and> soap_text fault_response 32 12 \<noteq> None"
    by code_simp
  then show "case first_sub septation fault_response 32 of
      None \<Rightarrow> True | Some j \<Rightarrow> soap_text fault_response 32 j \<noteq> None" by simp
qed

text \<open>
  A response whose body begins with \<open><?x\<close> and has no \<open>?>\<close> after it makes the proxy add 2 to a
  null pointer and copy from there.
\<close>

theorem partition_response_unclosed_declaration:
  assumes "c_content c" and "0 < len" and "len \<le> MAX_BUF_SIZE" and "first_sub septation c len = Some j"
    and "take 3 (drop (j + 4) c) = bytes_of ''<?x''" and "first_sub (bytes_of ''?>'') (drop (j + 4) c) len = None"
  shows "partition_response (Some (c @ 0 # r)) len (replicate MAX_BUF_SIZE 0) (replicate (MAX_BUF_SIZE * 3) 0) =
    Inl NullDeref"
  using partition_response_spec [OF assms(1-3), of r] assms(4-6) by (simp add: soap_text_def)

theorem partition_response_unclosed_declaration_witness:
  "partition_response (Some (([65] @ septation @ bytes_of ''<?x'') @ 0 # [])) 8
     (replicate MAX_BUF_SIZE 0) (replicate (MAX_BUF_SIZE * 3) 0) = Inl NullDeref"
proof (rule partition_response_unclosed_declaration)
  show "c_content ([65] @ septation @ bytes_of ''<?x'')" by (simp add: c_content_def septation_def)
  show "8 \<le> MAX_BUF_SIZE" by (simp add: MAX_BUF_SIZE_def)
  show "first_sub septation ([65] @ septation @ bytes_of ''<?x'') 8 = Some 1" by code_simp
  show "take 3 (drop (1 + 4) ([65] @ septation @ bytes_of ''<?x'')) = bytes_of ''<?x''" by code_simp
  show "first_sub (bytes_of ''?>'') (drop (1 + 4) ([65] @ septation @ bytes_of ''<?x'')) 8 = None"
    by code_simp
qed simp


definition ok_envelope :: tree where
  "ok_envelope = Tree (bytes_of ''E x=1'') None
     [Tree (bytes_of ''B'') None [Tree (bytes_of ''R'') None [Tree (bytes_of ''result'') (Some (bytes_of ''1 up'')) []]]]"

definition ok_response :: "byte list" where
  "ok_response = bytes_of ''HTTP/1.1 200 OK'' @ septation @ bytes_of ''<?xml?>'' @ render ok_envelope"


end
