(* ===== verification/CJson.thy ===== *)
theory CJson
  imports Prelude
begin

text \<open>
  The JSON library of the proxy (\<^verbatim>\<open>common/cJSON.c\<close>): the parser, with every read of
  the text and every write to the strings it allocates.

  A pointer into a text is the rest of the object from there on. A node holds its fields and the
  list of its children (the chain \<open>next\<close>/\<open>prev\<close> that begins at \<open>child\<close>). A string of a node is the
  object \<open>malloc\<close> gave, up to the last byte written. A number is kept as it stands in the text, an
  exact decimal, where C rounds to a \<open>double\<close>.
\<close>

section \<open>Nodes\<close>

definition cJSON_False :: nat where "cJSON_False = 0"
definition cJSON_True :: nat where "cJSON_True = 1"
definition cJSON_NULL :: nat where "cJSON_NULL = 2"
definition cJSON_Number :: nat where "cJSON_Number = 3"
definition cJSON_String :: nat where "cJSON_String = 4"
definition cJSON_Array :: nat where "cJSON_Array = 5"
definition cJSON_Object :: nat where "cJSON_Object = 6"

named_theorems type_simps \<open>the numbers of the types of a node\<close>
lemmas type_codes [type_simps] = cJSON_False_def cJSON_True_def cJSON_NULL_def cJSON_Number_def
  cJSON_String_def cJSON_Array_def cJSON_Object_def

text \<open>The decimal \<open>coef * 10 ^ expo\<close>\<close>

record number =
  coef :: int
  expo :: int

record item =
  item_type :: nat
  valuestring :: "byte list option"
  valueint :: int
  valuedouble :: number
  item_string :: "byte list option"

datatype cJSON = Node (fields: item) (child: "cJSON list")

definition cJSON_New_Item :: item where
  "cJSON_New_Item = \<lparr>item_type = 0, valuestring = None, valueint = 0,
     valuedouble = \<lparr>coef = 0, expo = 0\<rparr>, item_string = None\<rparr>"

text \<open>What a parsing function returns: \<open>0\<close>, with the pointer \<open>ep\<close>; or its value and where it stopped.\<close>

datatype 'a parsed =
    Failed "byte list"
  | Parsed 'a "byte list"
  | NoFuel \<comment> \<open>the nesting was deeper than the fuel\<close>

definition bindP :: "'a parsed res \<Rightarrow> ('a \<Rightarrow> byte list \<Rightarrow> 'b parsed res) \<Rightarrow> 'b parsed res" where
  "bindP m f = bindR m (\<lambda>r. case r of
     Failed ep \<Rightarrow> Inr (Failed ep) | NoFuel \<Rightarrow> Inr NoFuel | Parsed x rest \<Rightarrow> f x rest)"

lemma bindP_simps [simp]:
  "bindP (Inl e) f = Inl e"
  "bindP (Inr (Failed ep)) f = Inr (Failed ep)"
  "bindP (Inr NoFuel) f = Inr NoFuel"
  "bindP (Inr (Parsed x rest)) f = f x rest"
  by (simp_all add: bindP_def)

lemma bindP_cong [fundef_cong]:
  assumes "m = m'" and "\<And>x rest. m' = Inr (Parsed x rest) \<Longrightarrow> f x rest = f' x rest"
  shows "bindP m f = bindP m' f'"
  using assms by (cases m'; cases "projr m'") (auto simp: bindP_def)

section \<open>Numbers\<close>

definition is_digit :: "byte \<Rightarrow> bool" where
  "is_digit c \<longleftrightarrow> 48 \<le> c \<and> c \<le> 57"

text \<open>
  The loops over the digits, \<open>n=(n*10.0)+(*num++ -'0')\<close>; the second component counts the digits.
\<close>

fun scan_digits :: "byte list \<Rightarrow> int \<Rightarrow> nat \<Rightarrow> (int \<times> nat \<times> byte list) res" where
  "scan_digits [] n k = Inl OobRead"
| "scan_digits (c # s) n k =
     (if is_digit c then scan_digits s (n * 10 + (uint c - 48)) (Suc k) else Inr (n, k, c # s))"

text \<open>The digits of the exponent are read into an \<open>int\<close>.\<close>

fun scan_exponent :: "byte list \<Rightarrow> 32 word \<Rightarrow> (32 word \<times> byte list) res" where
  "scan_exponent [] n = Inl OobRead"
| "scan_exponent (c # s) n =
     (if is_digit c then scan_exponent s (n * 10 + (ucast c - 48)) else Inr (n, c # s))"

text \<open>\<open>(int)n\<close>: towards zero; out of range it is what the processor gives.\<close>

definition trunc_number :: "number \<Rightarrow> int" where
  "trunc_number x =
     (let v = (if 0 \<le> expo x then \<bar>coef x\<bar> * 10 ^ nat (expo x) else \<bar>coef x\<bar> div 10 ^ nat (- expo x));
          i = (if coef x < 0 then - v else v)
      in if - (2 ^ 31) \<le> i \<and> i < 2 ^ 31 then i else - (2 ^ 31))"

text \<open>The sign and the digits before the point, the digits after it, and the exponent.\<close>

definition parse_sign :: "byte list \<Rightarrow> (int \<times> byte list) res" where
  "parse_sign num = bindR (rd num 0) (\<lambda>c. if c = 45 then Inr (-1, drop 1 num) else Inr (1, num))"

definition parse_integer :: "byte list \<Rightarrow> (int \<times> nat \<times> byte list) res" where
  "parse_integer num =
     bindR (rd num 0) (\<lambda>c.
     let num = (if c = 48 then drop 1 num else num) in
     bindR (rd num 0) (\<lambda>c.
     if 49 \<le> c \<and> c \<le> 57 then scan_digits num 0 0 else Inr (0, 0, num)))"

definition parse_fraction :: "int \<Rightarrow> byte list \<Rightarrow> (int \<times> nat \<times> byte list) res" where
  "parse_fraction n num =
     bindR (rd num 0) (\<lambda>c.
     if c = 46
     then bindR (rd num 1) (\<lambda>d. if is_digit d then scan_digits (drop 1 num) n 0 else Inr (n, 0, num))
     else Inr (n, 0, num))"

definition parse_exponent :: "byte list \<Rightarrow> (int \<times> byte list) res" where
  "parse_exponent num =
     bindR (rd num 0) (\<lambda>c.
     if c = 101 \<or> c = 69
     then bindR (rd num 1) (\<lambda>c.
       let (signsubscale, num) =
         (if c = 43 then (1, drop 2 num) else if c = 45 then (-1, drop 2 num) else (1, drop 1 num))
       in bindR (scan_exponent num 0) (\<lambda>(subscale, num). Inr (sint subscale * signsubscale, num)))
     else Inr (0, num))"

definition parse_number :: "item \<Rightarrow> byte list \<Rightarrow> item parsed res" where
  "parse_number item num =
     bindR (parse_sign num) (\<lambda>(sign, num).
     bindR (parse_integer num) (\<lambda>(n, _, num).
     bindR (parse_fraction n num) (\<lambda>(n, scale, num).
     bindR (parse_exponent num) (\<lambda>(exponent, num).
     let v = \<lparr>coef = sign * n, expo = exponent - int scale\<rparr>
     in Inr (Parsed (item\<lparr>valuedouble := v, valueint := trunc_number v, item_type := cJSON_Number\<rparr>) num)))))"

section \<open>Strings\<close>

text \<open>The first loop of \<open>parse_string\<close>: a bound for the length of the string.\<close>

fun scan_string :: "byte list \<Rightarrow> nat \<Rightarrow> nat res" where
  "scan_string [] len = Inl OobRead"
| "scan_string (c # s) len =
     (if c = 34 \<or> c = 0 then Inr len
      else if c = 92 then scan_string (drop 1 s) (Suc len) else scan_string s (Suc len))"

definition hex_value :: "byte \<Rightarrow> 32 word option" where
  "hex_value c =
     (if 48 \<le> c \<and> c \<le> 57 then Some (ucast c - 48)
      else if 65 \<le> c \<and> c \<le> 70 then Some (10 + ucast c - 65)
      else if 97 \<le> c \<and> c \<le> 102 then Some (10 + ucast c - 97)
      else None)"

text \<open>The four steps of \<open>parse_hex4\<close>, of which \<open>k\<close> remain.\<close>

fun hex4_steps :: "nat \<Rightarrow> byte list \<Rightarrow> 32 word \<Rightarrow> 32 word res" where
  "hex4_steps 0 str h = Inr h"
| "hex4_steps (Suc k) str h =
     bindR (rd str 0) (\<lambda>c. case hex_value c of
       None \<Rightarrow> Inr 0
     | Some v \<Rightarrow> hex4_steps k (drop 1 str) (if k = 0 then h + v else push_bit 4 (h + v)))"

definition parse_hex4 :: "byte list \<Rightarrow> 32 word res" where
  "parse_hex4 str = hex4_steps 4 str 0"

definition firstByteMark :: "32 word list" where
  "firstByteMark = [0x00, 0x00, 0xC0, 0xE0, 0xF0, 0xF8, 0xFC]"

definition utf8_len :: "32 word \<Rightarrow> nat" where
  "utf8_len uc = (if uc < 0x80 then 1 else if uc < 0x800 then 2 else if uc < 0x10000 then 3 else 4)"

text \<open>The \<open>switch (len)\<close> that falls through, from the last byte to the first.\<close>

fun utf8_bytes :: "nat \<Rightarrow> nat \<Rightarrow> 32 word \<Rightarrow> byte list" where
  "utf8_bytes len 0 uc = []"
| "utf8_bytes len (Suc 0) uc = [ucast (uc OR firstByteMark ! len)]"
| "utf8_bytes len (Suc (Suc k)) uc =
     utf8_bytes len (Suc k) (drop_bit 6 uc) @ [ucast ((uc OR 0x80) AND 0xBF)]"

definition utf8 :: "32 word \<Rightarrow> byte list" where
  "utf8 uc = utf8_bytes (utf8_len uc) (utf8_len uc) uc"

text \<open>
  \<open>case 'u'\<close>: \<open>ptr\<close> points to the \<open>u\<close>. The result is what is written and how far \<open>ptr\<close> moves.
\<close>

definition unicode_escape :: "byte list \<Rightarrow> (byte list \<times> nat) res" where
  "unicode_escape ptr =
     bindR (parse_hex4 (drop 1 ptr)) (\<lambda>uc.
       if 0xDC00 \<le> uc \<and> uc \<le> 0xDFFF \<or> uc = 0 then Inr ([], 4)
       else if 0xD800 \<le> uc \<and> uc \<le> 0xDBFF then
         bindR (rd ptr 5) (\<lambda>a.
           if a \<noteq> 92 then Inr ([], 4)
           else bindR (rd ptr 6) (\<lambda>b.
             if b \<noteq> 117 then Inr ([], 4)
             else bindR (parse_hex4 (drop 7 ptr)) (\<lambda>uc2.
               if uc2 < 0xDC00 \<or> 0xDFFF < uc2 then Inr ([], 10)
               else Inr (utf8 (0x10000 + (push_bit 10 (uc AND 0x3FF) OR (uc2 AND 0x3FF))), 10))))
       else Inr (utf8 uc, 4))"

definition escape :: "byte list \<Rightarrow> (byte list \<times> nat) res" where
  "escape ptr =
     bindR (rd ptr 0) (\<lambda>c.
       if c = 98 then Inr ([8], 0) else if c = 102 then Inr ([12], 0)
       else if c = 110 then Inr ([10], 0) else if c = 114 then Inr ([13], 0)
       else if c = 116 then Inr ([9], 0) else if c = 117 then unicode_escape ptr
       else Inr ([c], 0))"

text \<open>Writing behind the bytes that \<open>out\<close>, an object of \<open>cap\<close> bytes, already has.\<close>

definition put :: "nat \<Rightarrow> byte list \<Rightarrow> byte list \<Rightarrow> byte list res" where
  "put cap out bs = (if length out + length bs \<le> cap then Inr (out @ bs) else Inl OobWrite)"

text \<open>The second loop: the copy, and the terminator behind it.\<close>

fun copy_string :: "nat \<Rightarrow> byte list \<Rightarrow> byte list \<Rightarrow> (byte list \<times> byte list) res" where
  "copy_string cap out [] = Inl OobRead"
| "copy_string cap out (c # s) =
     (if c = 34 \<or> c = 0 then bindR (put cap out [0]) (\<lambda>out. Inr (out, if c = 34 then s else c # s))
      else if c \<noteq> 92 then bindR (put cap out [c]) (\<lambda>out. copy_string cap out s)
      else bindR (escape s) (\<lambda>(bs, n). bindR (put cap out bs) (\<lambda>out. copy_string cap out (drop (Suc n) s))))"

definition parse_string :: "item \<Rightarrow> byte list \<Rightarrow> item parsed res" where
  "parse_string item str =
     bindR (rd str 0) (\<lambda>c.
       if c \<noteq> 34 then Inr (Failed str)
       else bindR (scan_string (drop 1 str) 0) (\<lambda>len.
         bindR (copy_string (len + 1) [] (drop 1 str)) (\<lambda>(out, ptr).
           Inr (Parsed (item\<lparr>valuestring := Some out, item_type := cJSON_String\<rparr>) ptr))))"

section \<open>Values, arrays and objects\<close>

fun skip :: "byte list \<Rightarrow> byte list res" where
  "skip [] = Inl OobRead"
| "skip (c # s) = (if c \<noteq> 0 \<and> c \<le> 32 then skip s else Inr (c # s))"

text \<open>\<open>value=skip(value)\<close> between two parts of a construct\<close>

definition skipped :: "byte list \<Rightarrow> (byte list \<Rightarrow> 'b parsed res) \<Rightarrow> 'b parsed res" where
  "skipped s f = bindR (skip s) f"

lemma skipped_cong [fundef_cong]:
  assumes "s = s'" and "\<And>x. skip s' = Inr x \<Longrightarrow> f x = f' x"
  shows "skipped s f = skipped s' f'"
  using assms by (auto simp: skipped_def intro: bindR_cong)

text \<open>
  \<open>parse_array\<close> and \<open>parse_object\<close> get the function that parses a value as an argument, \<open>pv\<close>; it is
  \<open>parse_value\<close> itself, with less fuel. \<open>parse_elements\<close> and \<open>parse_members\<close> are the parts that parse one
  more child, after \<open>[\<close>, \<open>{\<close> or a comma, and go on with the loop.
\<close>

type_synonym value_parser = "item \<Rightarrow> byte list \<Rightarrow> cJSON parsed res"

primrec parse_elements :: "value_parser \<Rightarrow> nat \<Rightarrow> cJSON list \<Rightarrow> byte list \<Rightarrow> cJSON list parsed res" where
  "parse_elements pv 0 children value = Inr NoFuel"
| "parse_elements pv (Suc fuel) children value =
     skipped value (\<lambda>value.
     bindP (pv cJSON_New_Item value) (\<lambda>c value.
     skipped value (\<lambda>value.
     bindR (rd value 0) (\<lambda>d.
     if d = 44 then parse_elements pv fuel (children @ [c]) (drop 1 value)
     else if d = 93 then Inr (Parsed (children @ [c]) (drop 1 value))
     else Inr (Failed value)))))"

definition parse_array :: "value_parser \<Rightarrow> nat \<Rightarrow> item \<Rightarrow> byte list \<Rightarrow> cJSON parsed res" where
  "parse_array pv fuel item value =
     bindR (rd value 0) (\<lambda>c.
     if c \<noteq> 91 then Inr (Failed value) else
     let item = item\<lparr>item_type := cJSON_Array\<rparr> in
     skipped (drop 1 value) (\<lambda>value.
     bindR (rd value 0) (\<lambda>c.
     if c = 93 then Inr (Parsed (Node item []) (drop 1 value)) else
     bindP (parse_elements pv fuel [] value) (\<lambda>children value.
     Inr (Parsed (Node item children) value)))))"

primrec parse_members :: "value_parser \<Rightarrow> nat \<Rightarrow> cJSON list \<Rightarrow> byte list \<Rightarrow> cJSON list parsed res" where
  "parse_members pv 0 children value = Inr NoFuel"
| "parse_members pv (Suc fuel) children value =
     skipped value (\<lambda>value.
     bindP (parse_string cJSON_New_Item value) (\<lambda>c value.
     skipped value (\<lambda>value.
     bindR (rd value 0) (\<lambda>d.
     if d \<noteq> 58 then Inr (Failed value) else
     skipped (drop 1 value) (\<lambda>value.
     bindP (pv (c\<lparr>item_string := valuestring c, valuestring := None\<rparr>) value) (\<lambda>c value.
     skipped value (\<lambda>value.
     bindR (rd value 0) (\<lambda>d.
     if d = 44 then parse_members pv fuel (children @ [c]) (drop 1 value)
     else if d = 125 then Inr (Parsed (children @ [c]) (drop 1 value))
     else Inr (Failed value)))))))))"

definition parse_object :: "value_parser \<Rightarrow> nat \<Rightarrow> item \<Rightarrow> byte list \<Rightarrow> cJSON parsed res" where
  "parse_object pv fuel item value =
     bindR (rd value 0) (\<lambda>c.
     if c \<noteq> 123 then Inr (Failed value) else
     let item = item\<lparr>item_type := cJSON_Object\<rparr> in
     skipped (drop 1 value) (\<lambda>value.
     bindR (rd value 0) (\<lambda>c.
     if c = 125 then Inr (Parsed (Node item []) (drop 1 value)) else
     bindP (parse_members pv fuel [] value) (\<lambda>children value.
     Inr (Parsed (Node item children) value)))))"

primrec parse_value :: "nat \<Rightarrow> item \<Rightarrow> byte list \<Rightarrow> cJSON parsed res" where
  "parse_value 0 item value = Inr NoFuel"
| "parse_value (Suc fuel) item value =
     bindR (strncmp_eq value (lit (bytes_of ''null'')) 4) (\<lambda>is_null.
     if is_null then Inr (Parsed (Node (item\<lparr>item_type := cJSON_NULL\<rparr>) []) (drop 4 value)) else
     bindR (strncmp_eq value (lit (bytes_of ''false'')) 5) (\<lambda>is_false.
     if is_false then Inr (Parsed (Node (item\<lparr>item_type := cJSON_False\<rparr>) []) (drop 5 value)) else
     bindR (strncmp_eq value (lit (bytes_of ''true'')) 4) (\<lambda>is_true.
     if is_true then Inr (Parsed (Node (item\<lparr>item_type := cJSON_True, valueint := 1\<rparr>) []) (drop 4 value)) else
     bindR (rd value 0) (\<lambda>c.
     if c = 34 then bindP (parse_string item value) (\<lambda>item value. Inr (Parsed (Node item []) value))
     else if c = 45 \<or> is_digit c then bindP (parse_number item value) (\<lambda>item value. Inr (Parsed (Node item []) value))
     else if c = 91 then parse_array (parse_value fuel) fuel item value
     else if c = 123 then parse_object (parse_value fuel) fuel item value
     else Inr (Failed value)))))"

text \<open>
  \<open>cJSON_ParseWithOpts(value, 0, require_null_terminated)\<close>. The pointer that fails is \<open>ep\<close>; all nodes are
  children of the root by then and \<open>cJSON_Delete\<close> frees them.
\<close>

definition cJSON_ParseWithOpts :: "nat \<Rightarrow> byte list \<Rightarrow> bool \<Rightarrow> cJSON parsed res" where
  "cJSON_ParseWithOpts fuel value require_null_terminated =
     skipped value (\<lambda>value.
     bindP (parse_value fuel cJSON_New_Item value) (\<lambda>c fin.
     if require_null_terminated
     then skipped fin (\<lambda>fin. bindR (rd fin 0) (\<lambda>d. if d \<noteq> 0 then Inr (Failed fin) else Inr (Parsed c fin)))
     else Inr (Parsed c fin)))"

definition cJSON_Parse :: "nat \<Rightarrow> byte list \<Rightarrow> cJSON parsed res" where
  "cJSON_Parse fuel value = cJSON_ParseWithOpts fuel value False"


section \<open>Postconditions\<close>

text \<open>
  \<open>post b Q r\<close>: the execution \<open>r\<close> returns a value with \<open>Q\<close>, or faults where \<open>b\<close> allows it; \<open>postP\<close> says
  the same of a parsing function, which may fail but not run out of fuel.
\<close>

definition post :: "bool \<Rightarrow> ('a \<Rightarrow> bool) \<Rightarrow> 'a res \<Rightarrow> bool" where
  "post b Q r = (case r of Inl _ \<Rightarrow> b | Inr x \<Rightarrow> Q x)"

definition postP :: "bool \<Rightarrow> ('a \<Rightarrow> byte list \<Rightarrow> bool) \<Rightarrow> 'a parsed res \<Rightarrow> bool" where
  "postP b Q = post b (\<lambda>r. case r of Failed _ \<Rightarrow> True | Parsed x rest \<Rightarrow> Q x rest | NoFuel \<Rightarrow> False)"

lemma post_simps [simp]:
  "post b Q (Inl e) = b"
  "post b Q (Inr x) = Q x"
  "post b R (bindR m f) = post b (\<lambda>x. post b R (f x)) m"
  by (auto simp: post_def bindR_def split: sum.splits)

lemma postP_simps [simp]:
  "postP b P (Inl e) = b"
  "postP b P (Inr (Failed ep)) = True"
  "postP b P (Inr NoFuel) = False"
  "postP b P (Inr (Parsed x rest)) = P x rest"
  "postP b P (bindR m g) = post b (\<lambda>x. postP b P (g x)) m"
  "postP b P (bindP n h) = postP b (\<lambda>x rest. postP b P (h x rest)) n"
  by (auto simp: postP_def post_def bindR_def bindP_def split: sum.splits parsed.splits)

lemma post_mono: "post b Q r \<Longrightarrow> (\<And>x. Q x \<Longrightarrow> Q' x) \<Longrightarrow> post b Q' r"
  by (auto simp: post_def split: sum.splits)

lemma postP_mono: "postP b Q r \<Longrightarrow> (\<And>x rest. Q x rest \<Longrightarrow> Q' x rest) \<Longrightarrow> postP b Q' r"
  by (auto simp: postP_def post_def split: sum.splits parsed.splits)

lemma post_bind: "post b P m \<Longrightarrow> (\<And>x. P x \<Longrightarrow> post b Q (f x)) \<Longrightarrow> post b Q (bindR m f)"
  by (auto intro: post_mono)

lemma postP_bind: "post b P m \<Longrightarrow> (\<And>x. P x \<Longrightarrow> postP b Q (f x)) \<Longrightarrow> postP b Q (bindR m f)"
  by (auto intro: post_mono)

lemma postP_bindP:
  "postP b P m \<Longrightarrow> (\<And>x rest. P x rest \<Longrightarrow> postP b Q (f x rest)) \<Longrightarrow> postP b Q (bindP m f)"
  by (auto intro: postP_mono)

section \<open>Texts whose escapes are complete\<close>

definition is_hex :: "byte \<Rightarrow> bool" where
  "is_hex c \<longleftrightarrow> hex_value c \<noteq> None"

text \<open>
  Up to the terminator, a backslash stands before another character, and \<open>\u\<close> before four
  hexadecimal digits.
\<close>

fun text_ok :: "byte list \<Rightarrow> bool" where
  "text_ok [] = False"
| "text_ok (c # s) =
     (if c = 0 then True
      else if c = 92 then
        (case s of [] \<Rightarrow> False
         | d # t \<Rightarrow> d \<noteq> 0 \<and>
             (if d = 117 then 4 \<le> length t \<and> list_all is_hex (take 4 t) \<and> text_ok (drop 4 t)
              else text_ok t))
      else text_ok s)"

text \<open>What a pointer into the text has to satisfy when faults are excluded.\<close>

definition at_text :: "bool \<Rightarrow> byte list \<Rightarrow> bool" where
  "at_text b v \<longleftrightarrow> b \<or> text_ok v"

lemma at_text_True [simp]: "at_text True v"
  by (simp add: at_text_def)

lemma at_text_Nil [simp]: "at_text b [] = b"
  by (simp add: at_text_def)

lemma at_text_Cons: "at_text b (c # s) \<Longrightarrow> c \<noteq> 0 \<Longrightarrow> c \<noteq> 92 \<Longrightarrow> at_text b s"
  by (auto simp: at_text_def)

lemma at_text_append:
  "at_text b (p @ s) \<Longrightarrow> 0 \<notin> set p \<Longrightarrow> 92 \<notin> set p \<Longrightarrow> at_text b s"
  by (induction p) (auto dest: at_text_Cons)

lemma post_rd:
  assumes "at_text b v" and "\<And>c s. v = c # s \<Longrightarrow> Q c"
  shows "post b Q (rd v 0)"
  using assms by (cases v) (auto simp: rd_def)

lemma post_rd1:
  assumes "at_text b (c # s)" and "c \<noteq> 0" and "c \<noteq> 92" and "\<And>d t. s = d # t \<Longrightarrow> at_text b s \<Longrightarrow> Q d"
  shows "post b Q (rd (c # s) 1)"
  using assms at_text_Cons [OF assms(1-3)] by (cases s) (auto simp: rd_def)

lemma post_skip: "at_text b v \<Longrightarrow> post b (\<lambda>v'. at_text b v' \<and> length v' \<le> length v) (skip v)"
proof (induction v)
  case (Cons c s)
  have "c \<le> 32 \<Longrightarrow> c \<noteq> 92" by auto
  with Cons show ?case by (force intro: post_mono dest: at_text_Cons)
qed simp

lemma postP_skipped:
  assumes "at_text b v" and "\<And>v'. at_text b v' \<Longrightarrow> length v' \<le> length v \<Longrightarrow> postP b Q (f v')"
  shows "postP b Q (skipped v f)"
  using post_skip [OF assms(1)] by (auto simp: skipped_def intro: post_mono assms(2))

section \<open>Numbers\<close>

lemma digit_at_text: "is_digit c \<Longrightarrow> c \<noteq> 0 \<and> c \<noteq> 92"
  by (auto simp: is_digit_def)

lemma post_scan_digits:
  "at_text b v \<Longrightarrow> post b (\<lambda>(n, k, v'). at_text b v' \<and> length v' \<le> length v) (scan_digits v n k)"
  by (induction v arbitrary: n k) (force intro: post_mono dest: at_text_Cons digit_at_text)+

lemma post_scan_digits_first:
  assumes "at_text b (c # s)" and "is_digit c"
  shows "post b (\<lambda>(n, k, v'). at_text b v' \<and> length v' \<le> length s) (scan_digits (c # s) n k)"
  using assms at_text_Cons [OF assms(1)] digit_at_text [OF assms(2)]
  by (auto intro: post_scan_digits)

lemma post_scan_exponent:
  "at_text b v \<Longrightarrow> post b (\<lambda>(n, v'). at_text b v' \<and> length v' \<le> length v) (scan_exponent v n)"
  by (induction v arbitrary: n) (force intro: post_mono dest: at_text_Cons digit_at_text)+

lemma post_parse_fraction:
  assumes "at_text b v"
  shows "post b (\<lambda>(n, k, v'). at_text b v' \<and> length v' \<le> length v) (parse_fraction n v)"
proof (cases v)
  case (Cons c s)
  show ?thesis
  proof (cases "c = 46")
    case True
    with assms Cons have s: "at_text b s" by (auto dest: at_text_Cons)
    then show ?thesis
      using True Cons assms post_scan_digits [OF s, of n 0]
      by (cases s) (auto simp: parse_fraction_def rd_def intro: post_mono)
  qed (use assms Cons in \<open>auto simp: parse_fraction_def rd_def\<close>)
qed (use assms in \<open>auto simp: parse_fraction_def rd_def\<close>)

lemma post_parse_exponent:
  assumes "at_text b v"
  shows "post b (\<lambda>(e, v'). at_text b v' \<and> length v' \<le> length v) (parse_exponent v)"
proof (cases v)
  case (Cons c s)
  show ?thesis
  proof (cases "c = 101 \<or> c = 69")
    case True
    with assms Cons have s: "at_text b s" by (auto dest: at_text_Cons)
    show ?thesis
    proof (cases s)
      case (Cons d t)
      have t: "at_text b t" if "d = 43 \<or> d = 45" using s Cons that by (auto dest: at_text_Cons)
      show ?thesis
        using True \<open>v = c # s\<close> Cons s post_scan_exponent [OF s, of 0] post_scan_exponent [of b t 0, OF t]
        by (auto simp: parse_exponent_def rd_def intro: post_mono)
    qed (use True Cons s in \<open>auto simp: parse_exponent_def rd_def\<close>)
  qed (use assms Cons in \<open>auto simp: parse_exponent_def rd_def\<close>)
qed (use assms in \<open>auto simp: parse_exponent_def rd_def\<close>)

lemma nonzero_digit: "49 \<le> c \<and> c \<le> 57 \<longleftrightarrow> is_digit c \<and> c \<noteq> 48" for c :: byte
  unfolding is_digit_def by unat_arith

lemma post_parse_integer:
  assumes "at_text b (c # s)"
  shows "post b (\<lambda>(n, k, v'). at_text b v' \<and> length v' \<le> length (c # s) - (if is_digit c then 1 else 0))
    (parse_integer (c # s))"
proof -
  have first: "post b (\<lambda>(n, k, v'). at_text b v' \<and> length v' \<le> length t) (scan_digits (d # t) 0 0)"
    if "at_text b (d # t)" "49 \<le> d \<and> d \<le> 57" for d t
    by (rule post_scan_digits_first [OF that(1)]) (use that(2) nonzero_digit in blast)
  show ?thesis
  proof (cases "c = 48")
    case True
    with assms have s: "at_text b s" by (auto dest: at_text_Cons)
    show ?thesis
    proof (cases s)
      case (Cons d t)
      show ?thesis
        using True Cons s first [of d t]
        by (auto simp: parse_integer_def rd_def Let_def simp del: scan_digits.simps intro: post_mono)
    qed (use True s in \<open>auto simp: parse_integer_def rd_def\<close>)
  next
    case False
    then show ?thesis
      using assms first [OF assms]
      by (auto simp: parse_integer_def rd_def nonzero_digit simp del: scan_digits.simps intro: post_mono)
  qed
qed

lemma postP_parse_number:
  assumes "at_text b (c # s)" and "c = 45 \<or> is_digit c"
  shows "postP b (\<lambda>i rest. at_text b rest \<and> length rest \<le> length s \<and>
    item_type i = cJSON_Number \<and> valuestring i = valuestring item \<and> item_string i = item_string item)
    (parse_number item (c # s))"
proof -
  have c: "c \<noteq> 0 \<and> c \<noteq> 92" using assms(2) digit_at_text by auto
  have sg: "post b (\<lambda>(sg, v). at_text b v \<and> (length v \<le> length s \<or> v = c # s \<and> is_digit c)) (parse_sign (c # s))"
    using assms c at_text_Cons [OF assms(1)] by (auto simp: parse_sign_def rd_def)
  have int: "post b (\<lambda>(n, k, v). at_text b v \<and> length v \<le> length s) (parse_integer v)"
    if v: "at_text b v" "length v \<le> length s \<or> v = c # s \<and> is_digit c" for v
  proof (cases v)
    case Nil
    with v show ?thesis by (simp add: parse_integer_def rd_def)
  next
    case (Cons d t)
    with v post_parse_integer [of b d t] show ?thesis by (auto intro: post_mono)
  qed
  have fr: "post b (\<lambda>(n, k, v). at_text b v \<and> length v \<le> length s) (parse_fraction n v)"
    if "at_text b v" "length v \<le> length s" for v n
    by (rule post_mono [OF post_parse_fraction [OF that(1)]]) (use that in auto)
  have ex: "post b (\<lambda>(e, v). at_text b v \<and> length v \<le> length s) (parse_exponent v)"
    if "at_text b v" "length v \<le> length s" for v
    by (rule post_mono [OF post_parse_exponent [OF that(1)]]) (use that in auto)
  show ?thesis
    unfolding parse_number_def
    by (rule postP_bind [OF sg], clarsimp simp del: postP_simps, rule postP_bind [OF int], assumption, assumption,
        clarsimp simp del: postP_simps, rule postP_bind [OF fr], assumption, assumption,
        clarsimp simp del: postP_simps, rule postP_bind [OF ex], assumption, assumption)
      (auto simp: Let_def)
qed

section \<open>Strings\<close>

lemma hex_chars: "is_hex c \<Longrightarrow> c \<noteq> 0 \<and> c \<noteq> 34 \<and> c \<noteq> 92"
  by (auto simp: is_hex_def hex_value_def split: if_splits)

text \<open>What \<open>scan_string\<close> counts, without the accumulator.\<close>

lemma scan_string_add: "scan_string s (len + k) = bindR (scan_string s len) (\<lambda>m. Inr (m + k))"
  by (induction s len rule: scan_string.induct) auto

lemma scan_string_Suc: "scan_string s (Suc k) = bindR (scan_string s 0) (\<lambda>m. Inr (m + Suc k))"
  using scan_string_add [of s 0 "Suc k"] by simp

lemma nonzero_high: "(ucast (x OR 0x80) :: byte) \<noteq> 0" "(ucast ((x OR 0x80) AND 0xBF) :: byte) \<noteq> 0"
  "(ucast (x OR 0xC0) :: byte) \<noteq> 0" "(ucast (x OR 0xE0) :: byte) \<noteq> 0" "(ucast (x OR 0xF0) :: byte) \<noteq> 0"
  for x :: "32 word"
proof -
  have *: "w \<noteq> 0" if "bit w 7" for w :: byte using that by auto
  show "(ucast (x OR 0x80) :: byte) \<noteq> 0" "(ucast ((x OR 0x80) AND 0xBF) :: byte) \<noteq> 0"
    "(ucast (x OR 0xC0) :: byte) \<noteq> 0" "(ucast (x OR 0xE0) :: byte) \<noteq> 0" "(ucast (x OR 0xF0) :: byte) \<noteq> 0"
    by (rule *; simp add: bit_simps)+
qed

lemma utf8_content: "uc \<noteq> 0 \<Longrightarrow> c_content (utf8 uc)"
proof -
  assume "uc \<noteq> 0"
  have low: "(ucast uc :: byte) \<noteq> 0" if "uc < 0x80"
  proof
    assume *: "(ucast uc :: byte) = 0"
    have "unat uc < 128" using that by (simp add: word_less_nat_alt)
    then have "unat (ucast uc :: byte) = unat uc" by (simp add: unsigned_ucast_eq take_bit_nat_eq_self)
    with * \<open>uc \<noteq> 0\<close> show False by (simp add: unat_eq_zero)
  qed
  then show ?thesis
    by (auto simp: utf8_def utf8_len_def firstByteMark_def nonzero_high numeral_eq_Suc)
qed

lemma utf8_length: "length (utf8 uc) = utf8_len uc" "utf8_len uc \<le> 4"
proof -
  have "length (utf8_bytes len k uc) = k" for len k
    by (induction len k uc rule: utf8_bytes.induct) auto
  then show "length (utf8 uc) = utf8_len uc" by (simp add: utf8_def)
  show "utf8_len uc \<le> 4" by (simp add: utf8_len_def)
qed

lemma utf8_len_le_3: "uc < 0x10000 \<Longrightarrow> utf8_len uc \<le> 3"
  by (simp add: utf8_len_def)

lemma hex4_total:
  assumes "list_all is_hex hs" and "length hs = 4"
  shows "\<exists>v. parse_hex4 (hs @ r) = Inr v"
proof -
  have "\<exists>v. hex4_steps (length hs) (hs @ r) h = Inr v" for h
    using assms(1) by (induction hs arbitrary: h) (auto simp: rd_def is_hex_def)
  with assms(2) show ?thesis by (simp add: parse_hex4_def)
qed

lemma text_ok_escape:
  assumes "text_ok (92 # s)"
  obtains d t where "s = d # t" and "d \<noteq> 0" and "d \<noteq> 117" and "text_ok t"
  | hs t where "s = 117 # hs @ t" and "length hs = 4" and "list_all is_hex hs" and "text_ok t"
proof (cases s)
  case (Cons d t)
  show ?thesis
  proof (cases "d = 117")
    case True
    with Cons assms have "s = 117 # take 4 t @ drop 4 t" "length (take 4 t) = 4" "list_all is_hex (take 4 t)"
      "text_ok (drop 4 t)" by auto
    then show ?thesis by (rule that(2))
  next
    case False
    with Cons assms have "s = d # t" "d \<noteq> 0" "d \<noteq> 117" "text_ok t" by auto
    then show ?thesis by (rule that(1))
  qed
qed (use assms in auto)

lemma scan_hex:
  assumes "list_all is_hex hs"
  shows "scan_string (hs @ t) k = scan_string t (k + length hs)"
  using assms by (induction hs arbitrary: k) (auto dest: hex_chars)

lemma hex4_length4: "length hs = 4 \<Longrightarrow> \<exists>a b c d. hs = [a, b, c, d]"
  by (auto simp: numeral_eq_Suc length_Suc_conv)

text \<open>What an escape writes is at most what \<open>scan_string\<close> has counted for it.\<close>

lemma escape_ok:
  assumes "text_ok (92 # s)"
  shows "\<exists>bs n k. escape s = Inr (bs, n) \<and> c_content bs \<and> length bs \<le> k \<and> text_ok (drop (Suc n) s) \<and>
    Suc n \<le> length s \<and> scan_string (92 # s) 0 = scan_string (drop (Suc n) s) k"
  using assms
proof (cases rule: text_ok_escape)
  case (1 d t)
  then show ?thesis
    by (auto simp: escape_def rd_def intro: exI [of _ "Suc 0"])
next
  case (2 hs t)
  from hex4_total [OF 2(3,2)] obtain uc where uc: "parse_hex4 (hs @ t) = Inr uc" by blast
  have scan: "scan_string (92 # s) 0 = scan_string t 5"
    using 2 by (simp add: scan_hex)
  have esc: "escape s = unicode_escape s" using 2(1) by (simp add: escape_def rd_def)
  have drop4: "drop 5 s = t" using 2 by simp
  have bmp: ?thesis if "unicode_escape s = Inr (bs, 4)" "c_content bs" "length bs \<le> 5" for bs
    using that scan drop4 2 esc by (intro exI [of _ bs] exI [of _ 4] exI [of _ 5]) auto
  show ?thesis
  proof (cases "0xDC00 \<le> uc \<and> uc \<le> 0xDFFF \<or> uc = 0")
    case True
    with uc 2 have "unicode_escape s = Inr ([], 4)" by (simp add: unicode_escape_def)
    then show ?thesis by (rule bmp) simp_all
  next
    case valid: False
    show ?thesis
    proof (cases "0xD800 \<le> uc \<and> uc \<le> 0xDBFF")
      case False
      with uc 2 valid have "unicode_escape s = Inr (utf8 uc, 4)" by (auto simp: unicode_escape_def)
      then show ?thesis
        by (rule bmp) (use valid utf8_content utf8_length [of uc] in auto)
    next
      case True
      obtain a r where t: "t = a # r" using 2(4) by (cases t) auto
      have rd5: "rd s 5 = Inr a" using 2 t by (simp add: rd_def nth_append)
      have rd6: "\<exists>b q. r = b # q \<and> rd s 6 = Inr b" if "a = 92"
        using 2 t that by (cases r) (auto simp: rd_def nth_append)
      show ?thesis
      proof (cases "a = 92 \<and> rd s 6 = Inr 117")
        case False
        then have "unicode_escape s = Inr ([], 4)"
          using uc 2 valid True rd5 rd6 by (auto simp: unicode_escape_def)
        then show ?thesis by (rule bmp) simp_all
      next
        case second: True
        with rd6 t obtain q where q: "t = 92 # 117 # q" by auto
        from 2(4) q have "q = take 4 q @ drop 4 q" "length (take 4 q) = 4" "list_all is_hex (take 4 q)"
          "text_ok (drop 4 q)" by auto
        then obtain hs2 t2 where t2: "q = hs2 @ t2" "length hs2 = 4" "list_all is_hex hs2" "text_ok t2"
          by blast
        from hex4_total [OF t2(3,2)] obtain uc2 where uc2: "parse_hex4 (hs2 @ t2) = Inr uc2" by blast
        let ?u = "0x10000 + (push_bit 10 (uc AND 0x3FF) OR (uc2 AND 0x3FF))"
        have "\<not> bit (push_bit 10 (uc AND 0x3FF) OR (uc2 AND 0x3FF)) 31"
          by (simp add: bit_simps)
        moreover have "bit (- 0x10000 :: 32 word) 31" by simp
        ultimately have "?u \<noteq> 0" by (metis add.inverse_unique)
        have scan2: "scan_string (92 # s) 0 = scan_string t2 10"
          using scan q t2 by (simp add: scan_hex)
        have drop11: "drop 11 s = t2" using 2 q t2 by simp
        have "\<exists>bs. unicode_escape s = Inr (bs, 10) \<and> (bs = [] \<or> bs = utf8 ?u)"
          using uc 2 valid True rd5 second uc2 q t2 by (auto simp: unicode_escape_def)
        then obtain bs where bs: "unicode_escape s = Inr (bs, 10)" "bs = [] \<or> bs = utf8 ?u" by blast
        have "length bs \<le> 10" "c_content bs"
          using bs(2) utf8_length [of ?u] utf8_content [OF \<open>?u \<noteq> 0\<close>] by auto
        then show ?thesis
          using bs(1) scan2 drop11 esc t2(4) 2 q t2
          by (intro exI [of _ bs] exI [of _ 10] exI [of _ 10]) auto
      qed
    qed
  qed
qed

lemma copy_string_ok:
  assumes "text_ok s"
  shows "\<exists>m. scan_string s 0 = Inr m \<and> (\<forall>cap out. length out + m + 1 \<le> cap \<longrightarrow>
    (\<exists>w rest. copy_string cap out s = Inr (out @ w @ [0], rest) \<and> c_content w \<and> text_ok rest \<and>
      length rest \<le> length s))"
  using assms
proof (induction s rule: length_induct)
  case (1 s)
  then obtain c r where s: "s = c # r" by (cases s) auto
  show ?case
  proof (cases "c = 34 \<or> c = 0")
    case True
    with s 1(2) show ?thesis
      by (auto simp: put_def intro!: exI [of _ 0] exI [of _ "[]"] split: if_splits)
  next
    case False
    show ?thesis
    proof (cases "c = 92")
      case c: False
      with False s 1 obtain m where m: "scan_string r 0 = Inr m" and
        IH: "\<And>cap out. length out + m + 1 \<le> cap \<Longrightarrow>
          \<exists>w rest. copy_string cap out r = Inr (out @ w @ [0], rest) \<and> c_content w \<and> text_ok rest \<and>
            length rest \<le> length r" by (auto split: if_splits)
      have "\<exists>w rest. copy_string cap out s = Inr (out @ w @ [0], rest) \<and> c_content w \<and> text_ok rest \<and>
          length rest \<le> length s" if "length out + Suc m + 1 \<le> cap" for cap out
      proof -
        from IH [of "out @ [c]" cap] that obtain w rest where
          "copy_string cap (out @ [c]) r = Inr ((out @ [c]) @ w @ [0], rest)" "c_content w" "text_ok rest"
          "length rest \<le> length r" by auto
        with that False c s show ?thesis
          by (intro exI [of _ "c # w"] exI [of _ rest]) (auto simp: put_def)
      qed
      with m False c s show ?thesis by (intro exI [of _ "Suc m"]) (auto simp: scan_string_Suc)
    next
      case True
      with s 1(2) obtain bs n k where e: "escape r = Inr (bs, n)" "c_content bs" "length bs \<le> k"
        "text_ok (drop (Suc n) r)" "Suc n \<le> length r" "scan_string s 0 = scan_string (drop (Suc n) r) k"
        using escape_ok [of r] by auto
      have "length (drop (Suc n) r) < length s" using s by simp
      from 1(1) [rule_format, OF this e(4)] obtain m where m: "scan_string (drop (Suc n) r) 0 = Inr m" and
        IH: "\<And>cap out. length out + m + 1 \<le> cap \<Longrightarrow>
          \<exists>w rest. copy_string cap out (drop (Suc n) r) = Inr (out @ w @ [0], rest) \<and> c_content w \<and>
            text_ok rest \<and> length rest \<le> length (drop (Suc n) r)" by blast
      have "\<exists>w rest. copy_string cap out s = Inr (out @ w @ [0], rest) \<and> c_content w \<and> text_ok rest \<and>
          length rest \<le> length s" if "length out + (m + k) + 1 \<le> cap" for cap out
      proof -
        from IH [of "out @ bs" cap] that e(3) obtain w rest where
          "copy_string cap (out @ bs) (drop (Suc n) r) = Inr ((out @ bs) @ w @ [0], rest)" "c_content w"
          "text_ok rest" "length rest \<le> length (drop (Suc n) r)" by auto
        with that True s e show ?thesis
          by (intro exI [of _ "bs @ w"] exI [of _ rest]) (auto simp: put_def)
      qed
      moreover have "scan_string s 0 = Inr (m + k)"
        using e(6) m scan_string_add [of "drop (Suc n) r" 0 k] by simp
      ultimately show ?thesis by blast
    qed
  qed
qed

lemma copy_string_shorter: "copy_string cap out s = Inr (w, rest) \<Longrightarrow> length rest \<le> length s"
proof (induction cap out s arbitrary: w rest rule: copy_string.induct)
  case (2 cap out c s)
  then show ?case
    by (auto simp: bindR_eq_Inr_iff split: if_splits prod.splits) (force, fastforce)
qed simp

section \<open>Values\<close>

definition c_string :: "byte list \<Rightarrow> bool" where
  "c_string s \<longleftrightarrow> s \<noteq> [] \<and> last s = 0 \<and> c_content (butlast s)"

lemma c_string_iff: "c_string s \<longleftrightarrow> (\<exists>w. s = w @ [0] \<and> c_content w)"
  unfolding c_string_def by (metis append_butlast_last_id last_snoc butlast_snoc snoc_eq_iff_butlast)

abbreviation name_of :: "cJSON \<Rightarrow> byte list option" where
  "name_of c \<equiv> item_string (fields c)"

text \<open>A well-formed tree: what a node holds agrees with its type; members have names.\<close>

definition item_ok :: "item \<Rightarrow> cJSON list \<Rightarrow> bool" where
  "item_ok i cs \<longleftrightarrow>
     item_type i \<le> 6 \<and>
     (case valuestring i of None \<Rightarrow> item_type i \<noteq> cJSON_String | Some s \<Rightarrow> item_type i = cJSON_String \<and> c_string s) \<and>
     (if item_type i = cJSON_Object then list_all (\<lambda>c. case name_of c of None \<Rightarrow> False | Some s \<Rightarrow> c_string s) cs
      else if item_type i = cJSON_Array then list_all (\<lambda>c. name_of c = None) cs
      else cs = [])"

fun json_ok :: "cJSON \<Rightarrow> bool" where
  "json_ok (Node i cs) = (item_ok i cs \<and> list_all json_ok cs)"

lemma post_strncmp_word:
  assumes "at_text b v" and "c_content w" and "92 \<notin> set w"
  shows "post b (\<lambda>eq. eq \<longrightarrow> (\<exists>rest. v = w @ rest)) (strncmp_eq v (lit w) (length w))"
  unfolding lit_def using assms
proof (induction w arbitrary: v)
  case (Cons c w)
  then show ?case by (cases v) (auto dest: at_text_Cons intro: post_mono)
qed simp

lemma postP_parse_string:
  assumes "at_text b v"
  shows "postP b (\<lambda>i rest. at_text b rest \<and> length rest < length v \<and> item_type i = cJSON_String \<and>
     item_string i = item_string item \<and> (b \<or> (\<exists>s. valuestring i = Some s \<and> c_string s)))
   (parse_string item v)"
proof (cases v)
  case (Cons c s)
  show ?thesis
  proof (cases "c = 34")
    case True
    show ?thesis
    proof (cases b)
      case b: True
      show ?thesis
      proof (cases "scan_string s 0")
        case (Inr len)
        show ?thesis
        proof (cases "copy_string (len + 1) [] s")
          case copied: (Inr r)
          obtain out rest where "r = (out, rest)" by (cases r)
          with copied copy_string_shorter have "length rest \<le> length s" by blast
          with True Cons b Inr copied \<open>r = (out, rest)\<close> show ?thesis
            by (simp add: parse_string_def rd_def)
        qed (use True Cons b Inr in \<open>simp add: parse_string_def rd_def\<close>)
      qed (use True Cons b in \<open>simp add: parse_string_def rd_def\<close>)
    next
      case False
      with assms Cons True have "text_ok s" by (simp add: at_text_def)
      from copy_string_ok [OF this] obtain m where m: "scan_string s 0 = Inr m" and
        copy: "length ([] :: byte list) + m + 1 \<le> m + 1 \<longrightarrow>
          (\<exists>w rest. copy_string (m + 1) [] s = Inr ([] @ w @ [0], rest) \<and> c_content w \<and> text_ok rest \<and>
            length rest \<le> length s)" by blast
      then obtain w rest where w: "copy_string (m + 1) [] s = Inr (w @ [0], rest)" "c_content w"
        "text_ok rest" "length rest \<le> length s" by auto
      have "parse_string item v =
          Inr (Parsed (item\<lparr>valuestring := Some (w @ [0]), item_type := cJSON_String\<rparr>) rest)"
        using True Cons m w(1) by (simp add: parse_string_def rd_def)
      moreover have "c_string (w @ [0])" using w(2) by (auto simp: c_string_iff)
      ultimately show ?thesis using Cons w(3,4) by (simp add: at_text_def)
    qed
  qed (use Cons in \<open>simp add: parse_string_def rd_def\<close>)
qed (use assms in \<open>simp add: parse_string_def rd_def\<close>)

text \<open>What a function that parses a value guarantees for texts of less than \<open>n\<close> bytes.\<close>

definition value_spec :: "bool \<Rightarrow> item \<Rightarrow> byte list \<Rightarrow> cJSON \<Rightarrow> byte list \<Rightarrow> bool" where
  "value_spec b item v x rest \<longleftrightarrow>
     at_text b rest \<and> length rest < length v \<and> name_of x = item_string item \<and> (b \<or> json_ok x)"

definition parses_values :: "bool \<Rightarrow> nat \<Rightarrow> value_parser \<Rightarrow> bool" where
  "parses_values b n pv \<longleftrightarrow> (\<forall>item v. valuestring item = None \<longrightarrow> at_text b v \<longrightarrow> length v < n \<longrightarrow>
     postP b (value_spec b item v) (pv item v))"

lemma parses_valuesD:
  "parses_values b n pv \<Longrightarrow> valuestring item = None \<Longrightarrow> at_text b v \<Longrightarrow> length v < n \<Longrightarrow>
     postP b (value_spec b item v) (pv item v)"
  by (simp add: parses_values_def)

lemma New_Item_simps [simp]: "valuestring cJSON_New_Item = None" "item_string cJSON_New_Item = None"
  by (simp_all add: cJSON_New_Item_def)

lemma postP_if:
  "(P \<Longrightarrow> postP b Q x) \<Longrightarrow> (\<not> P \<Longrightarrow> postP b Q y) \<Longrightarrow> postP b Q (if P then x else y)"
  by simp

lemma postP_Failed: "postP b Q (Inr (Failed ep))"
  by simp

lemma postP_next:
  assumes "at_text b v" and "\<And>c s. v = c # s \<Longrightarrow> postP b Q (f c)"
  shows "postP b Q (bindR (rd v 0) f)"
  using assms by (cases v) (auto simp: rd_def)

lemma postP_parse_elements:
  assumes "parses_values b n pv" and "at_text b v" and "length v < n" and "length v < fuel"
    and "b \<or> list_all (\<lambda>c. json_ok c \<and> name_of c = None) cs"
  shows "postP b (\<lambda>cs rest. at_text b rest \<and> length rest < length v \<and>
      (b \<or> list_all (\<lambda>c. json_ok c \<and> name_of c = None) cs)) (parse_elements pv fuel cs v)"
  using assms(2-)
proof (induction fuel arbitrary: cs v)
  case (Suc fuel)
  let ?Q = "\<lambda>cs rest. at_text b rest \<and> length rest < length v \<and>
    (b \<or> list_all (\<lambda>c. json_ok c \<and> name_of c = None) cs)"
  show ?case
    unfolding parse_elements.simps
  proof (intro postP_skipped postP_bindP [OF parses_valuesD [OF assms(1)]] postP_next)
    fix v1 x v2 v3 d s
    assume v1: "length v1 \<le> length v" and x: "value_spec b cJSON_New_Item v1 x v2"
      and v3: "at_text b v3" "length v3 \<le> length v2" "v3 = d # s"
    have ok: "b \<or> list_all (\<lambda>c. json_ok c \<and> name_of c = None) (cs @ [x])"
      using Suc.prems(4) x by (auto simp: value_spec_def)
    have len: "length s < length v" using v1 x v3 by (auto simp: value_spec_def)
    have s: "at_text b s" if "d = 44 \<or> d = 93" using that v3 by (auto dest: at_text_Cons)
    show "postP b ?Q
       (if d = 44 then parse_elements pv fuel (cs @ [x]) (drop 1 v3)
        else if d = 93 then Inr (Parsed (cs @ [x]) (drop 1 v3)) else Inr (Failed v3))"
      using postP_mono [OF Suc.IH [of s "cs @ [x]"], of ?Q] s ok len Suc.prems v3 by auto
  qed (use Suc.prems in \<open>auto simp: value_spec_def\<close>)
qed simp

lemma postP_parse_members:
  assumes "parses_values b n pv" and "at_text b v" and "length v < n" and "length v < fuel"
    and "b \<or> list_all (\<lambda>c. json_ok c \<and> (case name_of c of None \<Rightarrow> False | Some s \<Rightarrow> c_string s)) cs"
  shows "postP b (\<lambda>cs rest. at_text b rest \<and> length rest < length v \<and>
      (b \<or> list_all (\<lambda>c. json_ok c \<and> (case name_of c of None \<Rightarrow> False | Some s \<Rightarrow> c_string s)) cs))
    (parse_members pv fuel cs v)"
  using assms(2-)
proof (induction fuel arbitrary: cs v)
  case (Suc fuel)
  let ?Q = "\<lambda>cs rest. at_text b rest \<and> length rest < length v \<and>
    (b \<or> list_all (\<lambda>c. json_ok c \<and> (case name_of c of None \<Rightarrow> False | Some s \<Rightarrow> c_string s)) cs)"
  show ?case
    unfolding parse_members.simps
  proof (intro postP_skipped postP_bindP [OF parses_valuesD [OF assms(1)]]
      postP_bindP [OF postP_parse_string] postP_next postP_if [of "_ \<noteq> _"] postP_Failed)
    fix v1 v2 v3 v4 v5 v6 x d e t u and i :: item
    assume v1: "length v1 \<le> length v"
      and i: "at_text b v2 \<and> length v2 < length v1 \<and> item_type i = cJSON_String \<and>
        item_string i = item_string cJSON_New_Item \<and> (b \<or> (\<exists>s. valuestring i = Some s \<and> c_string s))"
      and v3: "at_text b v3" "length v3 \<le> length v2"
      and v4: "length v4 \<le> length (drop 1 v3)"
      and x: "value_spec b (i\<lparr>item_string := valuestring i, valuestring := None\<rparr>) v4 x v5"
      and v6: "at_text b v6" "length v6 \<le> length v5" "v6 = e # u"
    have ok: "b \<or> list_all (\<lambda>c. json_ok c \<and>
        (case name_of c of None \<Rightarrow> False | Some s \<Rightarrow> c_string s)) (cs @ [x])"
      using Suc.prems(4) x i by (auto simp: value_spec_def)
    have len: "length u < length v" using v1 i v3 v4 x v6 by (auto simp: value_spec_def)
    have u: "at_text b u" if "e = 44 \<or> e = 125" using that v6 by (auto dest: at_text_Cons)
    show "postP b ?Q
       (if e = 44 then parse_members pv fuel (cs @ [x]) (drop 1 v6)
        else if e = 125 then Inr (Parsed (cs @ [x]) (drop 1 v6)) else Inr (Failed v6))"
      using postP_mono [OF Suc.IH [of u "cs @ [x]"], of ?Q] u ok len Suc.prems v6 by auto
  qed (use Suc.prems in \<open>auto simp: value_spec_def dest: at_text_Cons\<close>)
qed simp

lemma postP_parse_array:
  assumes "parses_values b n pv" and "at_text b v" and "length v \<le> n" and "length v \<le> fuel"
    and "valuestring item = None"
  shows "postP b (value_spec b item v) (parse_array pv fuel item v)"
proof (cases "v = [] \<or> hd v \<noteq> 91")
  case True
  with assms(2) show ?thesis by (cases v) (auto simp: parse_array_def rd_def)
next
  case False
  then obtain s where v: "v = 91 # s" by (cases v) auto
  with assms(2) have s: "at_text b s" by (auto dest: at_text_Cons)
  let ?Q = "value_spec b item v"
  have "postP b ?Q (skipped s (\<lambda>value.
     bindR (rd value 0) (\<lambda>c.
     if c = 93 then Inr (Parsed (Node (item\<lparr>item_type := cJSON_Array\<rparr>) []) (drop 1 value)) else
     bindP (parse_elements pv fuel [] value) (\<lambda>children value.
     Inr (Parsed (Node (item\<lparr>item_type := cJSON_Array\<rparr>) children) value)))))"
  proof (intro postP_skipped [OF s] postP_next postP_if [of "_ = _"]
      postP_bindP [OF postP_parse_elements [OF assms(1)]])
    fix v1 c t assume "at_text b v1" "length v1 \<le> length s" "v1 = c # t" "c = 93"
    then show "postP b ?Q (Inr (Parsed (Node (item\<lparr>item_type := cJSON_Array\<rparr>) []) (drop 1 v1)))"
      using v assms(5) by (auto simp: value_spec_def item_ok_def type_simps dest: at_text_Cons)
  next
    fix v1 cs rest
    assume "length v1 \<le> length s" and "at_text b rest \<and> length rest < length v1 \<and>
        (b \<or> list_all (\<lambda>c. json_ok c \<and> name_of c = None) cs)"
    then show "postP b ?Q (Inr (Parsed (Node (item\<lparr>item_type := cJSON_Array\<rparr>) cs) rest))"
      using v assms(5) by (auto simp: value_spec_def item_ok_def type_simps list_all_iff)
  qed (use v assms in auto)
  with v show ?thesis by (simp add: parse_array_def rd_def Let_def)
qed

lemma postP_parse_object:
  assumes "parses_values b n pv" and "at_text b v" and "length v \<le> n" and "length v \<le> fuel"
    and "valuestring item = None"
  shows "postP b (value_spec b item v) (parse_object pv fuel item v)"
proof (cases "v = [] \<or> hd v \<noteq> 123")
  case True
  with assms(2) show ?thesis by (cases v) (auto simp: parse_object_def rd_def)
next
  case False
  then obtain s where v: "v = 123 # s" by (cases v) auto
  with assms(2) have s: "at_text b s" by (auto dest: at_text_Cons)
  let ?Q = "value_spec b item v"
  have "postP b ?Q (skipped s (\<lambda>value.
     bindR (rd value 0) (\<lambda>c.
     if c = 125 then Inr (Parsed (Node (item\<lparr>item_type := cJSON_Object\<rparr>) []) (drop 1 value)) else
     bindP (parse_members pv fuel [] value) (\<lambda>children value.
     Inr (Parsed (Node (item\<lparr>item_type := cJSON_Object\<rparr>) children) value)))))"
  proof (intro postP_skipped [OF s] postP_next postP_if [of "_ = _"]
      postP_bindP [OF postP_parse_members [OF assms(1)]])
    fix v1 c t assume "at_text b v1" "length v1 \<le> length s" "v1 = c # t" "c = 125"
    then show "postP b ?Q (Inr (Parsed (Node (item\<lparr>item_type := cJSON_Object\<rparr>) []) (drop 1 v1)))"
      using v assms(5) by (auto simp: value_spec_def item_ok_def type_simps dest: at_text_Cons)
  next
    fix v1 cs rest
    assume "length v1 \<le> length s" and "at_text b rest \<and> length rest < length v1 \<and>
        (b \<or> list_all (\<lambda>c. json_ok c \<and> (case name_of c of None \<Rightarrow> False | Some s \<Rightarrow> c_string s)) cs)"
    then show "postP b ?Q (Inr (Parsed (Node (item\<lparr>item_type := cJSON_Object\<rparr>) cs) rest))"
      using v assms(5) by (auto simp: value_spec_def item_ok_def type_simps list_all_iff)
  qed (use v assms in auto)
  with v show ?thesis by (simp add: parse_object_def rd_def Let_def)
qed

lemma postP_word:
  assumes "at_text b v" and "c_content w" and "92 \<notin> set w" and "k = length w" and "0 < k"
    and "json_ok x" and "name_of x = item_string item" and "postP b (value_spec b item v) y"
  shows "postP b (value_spec b item v)
    (bindR (strncmp_eq v (lit w) k) (\<lambda>eq. if eq then Inr (Parsed x (drop k v)) else y))"
  unfolding assms(4)
proof (rule postP_bind [OF post_strncmp_word [OF assms(1-3)]])
  fix eq assume eq: "eq \<longrightarrow> (\<exists>rest. v = w @ rest)"
  have "at_text b rest" if "v = w @ rest" for rest
    using assms(1-3) that by (auto intro: at_text_append simp: c_content_def)
  with eq assms(4-8) show "postP b (value_spec b item v) (if eq then Inr (Parsed x (drop (length w) v)) else y)"
    by (auto simp: value_spec_def)
qed

lemma parses_values_parse_value: "parses_values b n (parse_value n)"
proof (induction n)
  case (Suc n)
  show ?case
    unfolding parses_values_def
  proof (intro allI impI)
    fix item :: item and v
    assume item: "valuestring item = None" and v: "at_text b v" and len: "length v < Suc n"
    let ?Q = "value_spec b item v"
    have number: "postP b ?Q (bindP (parse_number item v) (\<lambda>item value. Inr (Parsed (Node item []) value)))"
      if "v = c # s" "c = 45 \<or> is_digit c" for c s
      by (rule postP_bindP [OF postP_parse_number [OF v [unfolded that(1)] that(2), of item, folded that(1)]])
        (use that item in \<open>auto simp: value_spec_def item_ok_def type_simps\<close>)
    have str: "postP b ?Q (bindP (parse_string item v) (\<lambda>item value. Inr (Parsed (Node item []) value)))"
      by (rule postP_bindP [OF postP_parse_string [OF v, of item]])
        (auto simp: value_spec_def item_ok_def type_simps)
    have last: "postP b ?Q (bindR (rd v 0) (\<lambda>c.
       if c = 34 then bindP (parse_string item v) (\<lambda>item value. Inr (Parsed (Node item []) value))
       else if c = 45 \<or> is_digit c then bindP (parse_number item v) (\<lambda>item value. Inr (Parsed (Node item []) value))
       else if c = 91 then parse_array (parse_value n) n item v
       else if c = 123 then parse_object (parse_value n) n item v
       else Inr (Failed v)))"
      by (rule postP_next [OF v])
        (use number str postP_parse_array [OF Suc v _ _ item] postP_parse_object [OF Suc v _ _ item] len in
          \<open>auto simp del: postP_simps(5,6)\<close>)
    show "postP b ?Q (parse_value (Suc n) item v)"
      unfolding parse_value.simps
      by (intro postP_word [OF v] last) (use item in \<open>simp_all add: item_ok_def type_simps\<close>)
  qed
qed (simp add: parses_values_def)

lemma postP_cJSON_Parse:
  assumes "at_text b json" and "length json < fuel"
  shows "postP b (\<lambda>c rest. at_text b rest \<and> (b \<or> json_ok c))
    (cJSON_ParseWithOpts fuel json require_null_terminated)"
  unfolding cJSON_ParseWithOpts_def
proof (intro postP_skipped [OF assms(1)] postP_bindP [OF parses_valuesD [OF parses_values_parse_value]]
    postP_if)
  fix v c fin assume c: "value_spec b cJSON_New_Item v c fin"
  then have "at_text b fin" by (simp add: value_spec_def)
  then show "postP b (\<lambda>c rest. at_text b rest \<and> (b \<or> json_ok c))
      (skipped fin (\<lambda>fin. bindR (rd fin 0) (\<lambda>d. if d \<noteq> 0 then Inr (Failed fin) else Inr (Parsed c fin))))"
    by (intro postP_skipped postP_next postP_if) (use c in \<open>auto simp: value_spec_def\<close>)
qed (use assms in \<open>auto simp: value_spec_def\<close>)

text \<open>
  Parsing ends on every object, whatever its bytes: with more fuel than the object has bytes, the
  result is a tree, a failure or a fault, but never a lack of fuel.
\<close>

theorem cJSON_Parse_terminates:
  assumes "length json < fuel"
  shows "cJSON_ParseWithOpts fuel json require_null_terminated \<noteq> Inr NoFuel"
proof
  assume "cJSON_ParseWithOpts fuel json require_null_terminated = Inr NoFuel"
  with postP_cJSON_Parse [of True json fuel require_null_terminated] assms show False by simp
qed

theorem cJSON_Parse_terminates_witness:
  "cJSON_ParseWithOpts 4 [91, 93, 0 :: byte] True \<noteq> Inr NoFuel"
  by (rule cJSON_Parse_terminates) simp

lemma parse_memory_safe:
  assumes "text_ok json" and "length json < fuel"
  shows "\<exists>r. cJSON_ParseWithOpts fuel json require_null_terminated = Inr r \<and>
    (case r of Parsed c fin \<Rightarrow> json_ok c \<and> text_ok fin | Failed ep \<Rightarrow> True | NoFuel \<Rightarrow> False)"
  using postP_cJSON_Parse [of False json fuel require_null_terminated] assms
  by (auto simp: at_text_def postP_def post_def split: sum.splits parsed.splits)

text \<open>
  C28: a text with a terminator whose escapes are complete (no backslash stands before the terminator,
  \<open>\u\<close> stands before four hexadecimal digits) is parsed without a read outside of it and
  without a write behind the strings that are allocated, and a tree it gives is well formed.
\<close>

theorem cJSON_Parse_safe:
  assumes "text_ok json" and "length json < fuel"
  shows "\<exists>r. cJSON_ParseWithOpts fuel json require_null_terminated = Inr r \<and>
    (case r of Parsed c fin \<Rightarrow> json_ok c \<and> text_ok fin | Failed ep \<Rightarrow> True | NoFuel \<Rightarrow> False)"
  by (rule parse_memory_safe [OF assms])

text \<open>The text is an object with a member, an array of numbers, a surrogate pair and a literal.\<close>

definition sample_text :: "byte list" where
  "sample_text = [123, 34, 97, 34, 58, 91, 49, 44, 32, 45, 50, 46, 53, 101, 51, 44, 34, 92, 117, 100, 56, 51, 100,
     92, 117, 100, 101, 48, 48, 92, 110, 34, 93, 44, 34, 98, 34, 58, 116, 114, 117, 101, 125, 0]"

theorem cJSON_Parse_safe_witness:
  "\<exists>r. cJSON_ParseWithOpts 100 sample_text True = Inr r \<and>
    (case r of Parsed c fin \<Rightarrow> json_ok c \<and> text_ok fin | Failed ep \<Rightarrow> True | NoFuel \<Rightarrow> False)"
  by (rule cJSON_Parse_safe; code_simp)

lemma parse_hex4_unfold: "parse_hex4 str = hex4_steps (Suc (Suc (Suc (Suc 0)))) str 0"
  by (simp add: parse_hex4_def eval_nat_numeral)

lemma strncmp_first: "a \<noteq> b \<Longrightarrow> 0 < n \<Longrightarrow> strncmp_eq (a # s) (b # f) n = Inr False"
  by (cases n) auto

lemma parse_string_fault:
  "scan_string s 0 = Inr len \<Longrightarrow> copy_string (len + 1) [] s = Inl e \<Longrightarrow> parse_string item (34 # s) = Inl e"
  by (simp add: parse_string_def rd_def)

lemma put_rest_overflow:
  assumes "c_content w" and "34 \<notin> set w" and "92 \<notin> set w" and "length out \<le> cap" and "cap < length out + length w + 1"
  shows "copy_string cap out (w @ 0 # r) = Inl OobWrite"
  using assms by (induction w arbitrary: out) (auto simp: put_def)

text \<open>
  C38: a quote in place of the four digits of a \<open>\u\<close> ends the string for the loop that counts, but not for
  the loop that copies: the bytes of the text that follow are written behind the allocated string. The
  text here is the string \<open>"\u"\<close> with anything after it.
\<close>

theorem cJSON_Parse_overflow:
  assumes "json = [34, 92, 117, 34] @ w @ 0 # r" and "c_content w" and "34 \<notin> set w" and "92 \<notin> set w"
    and "5 \<le> length w" and "0 < fuel"
  shows "cJSON_Parse fuel json = Inl OobWrite"
proof -
  obtain f where f: "fuel = Suc f" using assms(6) by (cases fuel) auto
  have long: "Suc n \<le> length x \<Longrightarrow> \<exists>y x'. x = y # x' \<and> n \<le> length x'" for n and x :: "byte list"
    by (cases x) auto
  from assms(5) long [of 4 w] obtain a w1 where w1: "w = a # w1" "4 \<le> length w1" by auto
  with long [of 3 w1] obtain b w2 where w2: "w1 = b # w2" "3 \<le> length w2" by auto
  with long [of 2 w2] obtain c w' where w': "w2 = c # w'" "2 \<le> length w'" by auto
  note w = w1(1) [unfolded w2(1) w'(1)] w'(2)
  have copy: "copy_string (Suc (Suc 0)) [] (w' @ 0 # r) = Inl OobWrite"
    using assms(2-4) w by (intro put_rest_overflow) auto
  have hex: "parse_hex4 (34 # x) = Inr 0" for x
    by (simp add: parse_hex4_unfold rd_def hex_value_def)
  have esc: "escape (117 # 34 # x) = Inr ([], 4)" for x
    by (simp add: escape_def unicode_escape_def rd_def hex)
  have "scan_string (92 # 117 # 34 # x) 0 = Inr 1" for x by simp
  moreover have "copy_string (1 + 1) [] (92 # 117 # 34 # w @ 0 # r) = Inl OobWrite"
    using copy w(1) by (simp add: esc put_def)
  ultimately have "parse_string cJSON_New_Item (34 # 92 # 117 # 34 # w @ 0 # r) = Inl OobWrite"
    by (rule parse_string_fault)
  then have "parse_string cJSON_New_Item json = Inl OobWrite"
    using assms(1) by (simp del: scan_string.simps copy_string.simps)
  then show ?thesis
    using assms(1) f by (simp add: cJSON_Parse_def cJSON_ParseWithOpts_def skipped_def lit_def rd_def strncmp_first)
qed

theorem cJSON_Parse_overflow_witness:
  "cJSON_Parse 1 ([34, 92, 117, 34] @ [65, 65, 65, 65, 65] @ 0 # []) = Inl OobWrite"
  by (rule cJSON_Parse_overflow) (rule refl, auto)

end
