(* ===== verification/CJsonPrint.thy ===== *)
theory CJsonPrint
  imports CJson
begin

text \<open>
  The printer of \<^verbatim>\<open>common/cJSON.c\<close> as \<open>cJSON_Print\<close> and \<open>cJSON_PrintUnformatted\<close> run it; the variant with a
  \<open>printbuffer\<close> is in \<open>CJsonBuffer\<close>. Every string is built from its beginning in an object of a length
  that is computed before; a function returns what it wrote, the terminator included.
\<close>

section \<open>The bytes that are written\<close>

text \<open>Filling a new object of \<open>len\<close> bytes\<close>

definition built :: "nat \<Rightarrow> byte list \<Rightarrow> byte list res" where
  "built len bs = (if length bs \<le> len then Inr bs else Inl OobWrite)"

lemma built_ok: "length bs \<le> len \<Longrightarrow> built len bs = Inr bs"
  by (simp add: built_def)

subsection \<open>Numbers\<close>

text \<open>
  The conversions of \<open>printf\<close> for the exact decimal \<open>coef * 10 ^ expo\<close>: the nearest number with the
  digits that are asked for, half to even.
\<close>

definition round_div :: "nat \<Rightarrow> nat \<Rightarrow> nat" where
  "round_div a b =
     (let q = a div b; r = a mod b in if 2 * r < b \<or> 2 * r = b \<and> even q then q else q + 1)"

definition scaled :: "number \<Rightarrow> int \<Rightarrow> nat" where
  "scaled x p =
     (if 0 \<le> expo x + p then nat \<bar>coef x\<bar> * 10 ^ nat (expo x + p)
      else round_div (nat \<bar>coef x\<bar>) (10 ^ nat (- (expo x + p))))"

definition padded :: "nat \<Rightarrow> nat \<Rightarrow> byte list" where
  "padded p n = replicate (p - length (digits n)) 48 @ digits n"

definition sign_bytes :: "number \<Rightarrow> byte list" where
  "sign_bytes x = (if coef x < 0 then [45] else [])"

definition print_fixed :: "nat \<Rightarrow> number \<Rightarrow> byte list" where
  "print_fixed p x =
     (let m = scaled x (int p)
      in sign_bytes x @ digits (m div 10 ^ p) @ (if p = 0 then [] else 46 # padded p (m mod 10 ^ p)))"

definition print_exponential :: "number \<Rightarrow> byte list" where
  "print_exponential x =
     (let e = int (length (digits (nat \<bar>coef x\<bar>))) - 1 + expo x;
          m = scaled x (6 - e);
          (m, e) = (if 10 ^ 7 \<le> m then (10 ^ 6, e + 1) else (m, e))
      in sign_bytes x @ digits (m div 10 ^ 6) @ 46 # padded 6 (m mod 10 ^ 6) @
         101 # (if e < 0 then 45 else 43) # padded 2 (nat \<bar>e\<bar>))"

text \<open>\<open>fabs(d)\<close> and \<open>10 ^ k\<close>, both multiplied by the same power of ten that makes them integers\<close>

definition abs_and_power :: "number \<Rightarrow> int \<Rightarrow> int \<times> int" where
  "abs_and_power x k =
     (let s = max 0 (- min k (expo x)) in (\<bar>coef x\<bar> * 10 ^ nat (expo x + s), 10 ^ nat (k + s)))"

text \<open>\<open>fabs(v - d) <= DBL_EPSILON\<close> for an integer \<open>v\<close>, and the fractional part of \<open>d\<close>\<close>

definition near_int :: "int \<Rightarrow> number \<Rightarrow> bool" where
  "near_int v x =
     (if 0 \<le> expo x then v = coef x * 10 ^ nat (expo x)
      else \<bar>v * 10 ^ nat (- expo x) - coef x\<bar> * 2 ^ 52 \<le> 10 ^ nat (- expo x))"

definition floor_number :: "number \<Rightarrow> int" where
  "floor_number x =
     (if 0 \<le> expo x then coef x * 10 ^ nat (expo x) else coef x div 10 ^ nat (- expo x))"

definition in_int_range :: "number \<Rightarrow> bool" where
  "in_int_range x =
     (let (a, b) = (if 0 \<le> expo x then (coef x * 10 ^ nat (expo x), 1) else (coef x, 10 ^ nat (- expo x)))
      in - (2 ^ 31) * b \<le> a \<and> a \<le> (2 ^ 31 - 1) * b)"

definition print_number :: "item \<Rightarrow> byte list res" where
  "print_number i =
     (let d = valuedouble i in
      if coef d = 0 then built 2 [48, 0]
      else if near_int (valueint i) d \<and> in_int_range d then built 21 (print_int (valueint i) @ [0])
      else
        let (small, million) = abs_and_power d (-6); (big, milliard) = abs_and_power d 9;
            (huge, limit) = abs_and_power d 60
        in built 64
          ((if near_int (floor_number d) d \<and> huge < limit then print_fixed 0 d
            else if small < million \<or> milliard < big then print_exponential d
            else print_fixed 6 d) @ [0]))"

subsection \<open>Strings\<close>

definition is_escaped :: "byte \<Rightarrow> bool" where
  "is_escaped c \<longleftrightarrow> 0 < c \<and> c < 32 \<or> c = 34 \<or> c = 92"

text \<open>The count of the bytes that the loop before the second allocation makes\<close>

fun escaped_length :: "byte list \<Rightarrow> nat" where
  "escaped_length [] = 0"
| "escaped_length (c # s) =
     (if c \<in> {34, 92, 8, 12, 10, 13, 9} then 2 else if c < 32 then 6 else 1) + escaped_length s"

definition hex_digit :: "byte \<Rightarrow> byte" where
  "hex_digit d = (if d < 10 then 48 + d else 87 + d)"

text \<open>What is written for a character; \<open>sprintf(ptr2,"u%04x",token)\<close> in the last case.\<close>

definition escape_char :: "byte \<Rightarrow> byte list" where
  "escape_char c =
     (if 31 < c \<and> c \<noteq> 34 \<and> c \<noteq> 92 then [c]
      else 92 #
        (if c = 92 then [92] else if c = 34 then [34] else if c = 8 then [98] else if c = 12 then [102]
         else if c = 10 then [110] else if c = 13 then [114] else if c = 9 then [116]
         else [117, 48, 48, hex_digit (drop_bit 4 c), hex_digit (c AND 15)]))"

definition print_string_ptr :: "byte list option \<Rightarrow> byte list res" where
  "print_string_ptr str =
     (case str of
        None \<Rightarrow> Inl NullDeref \<comment> \<open>the first loop reads \<open>*ptr\<close> before the test of \<open>str\<close>\<close>
      | Some s \<Rightarrow>
          bindR (strlen s) (\<lambda>len.
            let w = take len s in
            if \<not> list_ex is_escaped w then built (len + 3) (34 # w @ [34, 0])
            else built (escaped_length w + 3) (34 # concat (map escape_char w) @ [34, 0])))"

subsection \<open>Arrays, objects and values\<close>

text \<open>The string in an entry, without the terminator\<close>

definition entry_text :: "byte list \<Rightarrow> byte list" where
  "entry_text ret = take (projr (strlen ret)) ret"

definition array_length :: "bool \<Rightarrow> byte list list \<Rightarrow> nat" where
  "array_length fmt rets = 5 + sum_list (map (\<lambda>ret. length (entry_text ret) + 2 + (if fmt then 1 else 0)) rets)"

fun join_elements :: "bool \<Rightarrow> byte list list \<Rightarrow> byte list" where
  "join_elements fmt [] = []"
| "join_elements fmt [ret] = entry_text ret"
| "join_elements fmt (ret # rets) = entry_text ret @ 44 # (if fmt then [32] else []) @ join_elements fmt rets"

definition object_length :: "bool \<Rightarrow> nat \<Rightarrow> (byte list \<times> byte list) list \<Rightarrow> nat" where
  "object_length fmt depth ents =
     7 + (if fmt then depth else 0) +
     sum_list (map (\<lambda>(str, ret). length (entry_text ret) + length (entry_text str) + 2 +
       (if fmt then 2 + depth else 0)) ents)"

fun join_members :: "bool \<Rightarrow> nat \<Rightarrow> (byte list \<times> byte list) list \<Rightarrow> byte list" where
  "join_members fmt depth [] = []"
| "join_members fmt depth ((str, ret) # ents) =
     (if fmt then replicate depth 9 else []) @ entry_text str @ 58 # (if fmt then [9] else []) @ entry_text ret @
     (if ents = [] then [] else [44]) @ (if fmt then [10] else []) @ join_members fmt depth ents"

text \<open>
  What \<open>print_array\<close> and \<open>print_object\<close> do without children, and what they compose of the entries; an
  entry that is missing makes them fail. The text of the members of an object is one level deeper.
\<close>

definition print_empty_array :: "byte list option res" where
  "print_empty_array = bindR (built 3 [91, 93, 0]) (\<lambda>out. Inr (Some out))"

definition print_array :: "bool \<Rightarrow> byte list list option \<Rightarrow> byte list option res" where
  "print_array fmt entries =
     (case entries of
        None \<Rightarrow> Inr None
      | Some rets \<Rightarrow>
          bindR (built (array_length fmt rets) (91 # join_elements fmt rets @ [93, 0])) (\<lambda>out. Inr (Some out)))"

definition print_empty_object :: "bool \<Rightarrow> nat \<Rightarrow> byte list option res" where
  "print_empty_object fmt depth =
     bindR (built (if fmt then depth + 4 else 3)
       (123 # (if fmt then 10 # replicate (depth - 1) 9 else []) @ [125, 0])) (\<lambda>out. Inr (Some out))"

definition print_object :: "bool \<Rightarrow> nat \<Rightarrow> (byte list \<times> byte list) list option \<Rightarrow> byte list option res" where
  "print_object fmt depth entries =
     (case entries of
        None \<Rightarrow> Inr None
      | Some ents \<Rightarrow>
          bindR (built (object_length fmt (depth + 1) ents)
            (123 # (if fmt then [10] else []) @ join_members fmt (depth + 1) ents @
             (if fmt then replicate depth 9 else []) @ [125, 0])) (\<lambda>out. Inr (Some out)))"

text \<open>
  \<open>print_elements\<close> and \<open>print_members\<close> are the loops over the children that collect the entries; the
  result \<open>None\<close> of the functions is a null pointer.
\<close>

fun print_value :: "cJSON \<Rightarrow> nat \<Rightarrow> bool \<Rightarrow> byte list option res"
  and print_elements :: "cJSON list \<Rightarrow> nat \<Rightarrow> bool \<Rightarrow> byte list list option res"
  and print_members :: "cJSON list \<Rightarrow> nat \<Rightarrow> bool \<Rightarrow> (byte list \<times> byte list) list option res" where
  "print_value (Node i cs) depth fmt =
     (let t = item_type i mod 256 in
      if t = cJSON_NULL then Inr (Some (lit (bytes_of ''null'')))
      else if t = cJSON_False then Inr (Some (lit (bytes_of ''false'')))
      else if t = cJSON_True then Inr (Some (lit (bytes_of ''true'')))
      else if t = cJSON_Number then bindR (print_number i) (\<lambda>out. Inr (Some out))
      else if t = cJSON_String then bindR (print_string_ptr (valuestring i)) (\<lambda>out. Inr (Some out))
      else if t = cJSON_Array then
        (if cs = [] then print_empty_array
         else bindR (print_elements cs (depth + 1) fmt) (print_array fmt))
      else if t = cJSON_Object then
        (if cs = [] then print_empty_object fmt depth
         else bindR (print_members cs (depth + 1) fmt) (print_object fmt depth))
      else Inr None)"
| "print_elements [] depth fmt = Inr (Some [])"
| "print_elements (c # cs) depth fmt =
     bindR (print_value c depth fmt) (\<lambda>ret.
     case ret of
       None \<Rightarrow> Inr None
     | Some ret \<Rightarrow> bindR (print_elements cs depth fmt) (\<lambda>rets.
         case rets of None \<Rightarrow> Inr None | Some rets \<Rightarrow> Inr (Some (ret # rets))))"
| "print_members [] depth fmt = Inr (Some [])"
| "print_members (c # cs) depth fmt =
     bindR (print_string_ptr (name_of c)) (\<lambda>str.
     bindR (print_value c depth fmt) (\<lambda>ret.
     bindR (print_members cs depth fmt) (\<lambda>ents.
     case (ret, ents) of (Some ret, Some ents) \<Rightarrow> Inr (Some ((str, ret) # ents)) | _ \<Rightarrow> Inr None)))"

definition cJSON_Print :: "cJSON \<Rightarrow> byte list option res" where
  "cJSON_Print c = print_value c 0 True"

definition cJSON_PrintUnformatted :: "cJSON \<Rightarrow> byte list option res" where
  "cJSON_PrintUnformatted c = print_value c 0 False"

section \<open>The allocated strings are long enough\<close>

text \<open>
  The numbers that are considered: an \<open>int\<close>, and a decimal whose exponent and digits can be counted in
  twenty digits (a \<open>double\<close> has far fewer).
\<close>

definition number_ok :: "item \<Rightarrow> bool" where
  "number_ok i \<longleftrightarrow> - (2 ^ 31) \<le> valueint i \<and> valueint i < 2 ^ 31 \<and>
     \<bar>expo (valuedouble i)\<bar> < 10 ^ 20 \<and> length (digits (nat \<bar>coef (valuedouble i)\<bar>)) < 10 ^ 20"

lemma round_div_le:
  assumes "a \<le> n * b" and "0 < b"
  shows "round_div a b \<le> n"
proof (cases "a = n * b")
  case True
  with assms(2) show ?thesis by (simp add: round_div_def)
next
  case False
  with assms have "a div b < n" by (simp add: less_mult_imp_div_less)
  then show ?thesis by (simp add: round_div_def Let_def)
qed

lemma digits_bound: "n < 10 ^ length (digits n)"
proof (induction n rule: digits.induct)
  case (1 n)
  show ?case
  proof (cases "n < 10")
    case True
    then show ?thesis by (simp add: digits.simps [of n])
  next
    case False
    with 1 have "n div 10 < 10 ^ length (digits (n div 10))" by simp
    then have "n < 10 ^ length (digits (n div 10)) * 10" by (simp add: div_less_iff_less_mult)
    with False show ?thesis by (simp add: digits.simps [of n])
  qed
qed

text \<open>Rounding \<open>coef / 10 ^ q\<close> stays below a power of ten that bounds the number.\<close>

lemma scaled_le:
  assumes "nat \<bar>coef x\<bar> \<le> 10 ^ k" and "int n = int k + expo x + p"
  shows "scaled x p \<le> 10 ^ n"
proof (cases "0 \<le> expo x + p")
  case True
  with assms(2) have "n = k + nat (expo x + p)" by linarith
  with assms(1) True show ?thesis by (simp add: scaled_def power_add)
next
  case False
  with assms(2) have "k = n + nat (- (expo x + p))" by linarith
  with assms(1) have "nat \<bar>coef x\<bar> \<le> 10 ^ n * 10 ^ nat (- (expo x + p))" by (simp add: power_add)
  with False show ?thesis by (simp add: scaled_def round_div_le)
qed

lemma scaled_le_bound:
  assumes "abs_and_power x (int k) = (a, b)" and "a \<le> b"
  shows "scaled x (int p) \<le> 10 ^ (k + p)"
proof (cases "0 \<le> expo x")
  case True
  then have s: "max 0 (- min (int k) (expo x)) = 0" by linarith
  from assms have "\<bar>coef x\<bar> * 10 ^ nat (expo x) \<le> 10 ^ k" by (auto simp: abs_and_power_def s)
  then have "nat (\<bar>coef x\<bar> * 10 ^ nat (expo x)) \<le> nat (10 ^ k)" by (rule nat_mono)
  then have "nat \<bar>coef x\<bar> * 10 ^ nat (expo x) \<le> 10 ^ k" by (simp add: nat_mult_distrib nat_power_eq)
  then have "nat \<bar>coef x\<bar> * 10 ^ nat (expo x) * 10 ^ p \<le> 10 ^ k * 10 ^ p" by (rule mult_right_mono) simp
  moreover have "nat (expo x + int p) = nat (expo x) + p" using True by (simp add: nat_add_distrib)
  ultimately show ?thesis using True by (simp add: scaled_def power_add mult.assoc)
next
  case False
  then have s: "max 0 (- min (int k) (expo x)) = - expo x" by linarith
  from assms have "\<bar>coef x\<bar> \<le> 10 ^ nat (int k - expo x)" by (auto simp: abs_and_power_def s)
  then have "nat \<bar>coef x\<bar> \<le> nat (10 ^ nat (int k - expo x))" by (rule nat_mono)
  then have "nat \<bar>coef x\<bar> \<le> 10 ^ nat (int k - expo x)" by (simp add: nat_power_eq)
  then show ?thesis by (rule scaled_le) (use False in simp)
qed

lemma sign_length: "length (sign_bytes x) \<le> 1"
  by (simp add: sign_bytes_def)

lemma padded_length: "n < 10 ^ p \<Longrightarrow> 0 < p \<Longrightarrow> length (padded p n) = p"
  using digits_length [of n p] by (simp add: padded_def)

lemma padded_length_le: "n < 10 ^ q \<Longrightarrow> 0 < q \<Longrightarrow> length (padded p n) \<le> max p q"
  using digits_length [of n q] by (simp add: padded_def)

lemma print_fixed_0_length:
  assumes "abs_and_power d 60 = (a, b)" and "a < b"
  shows "length (print_fixed 0 d) \<le> 62"
proof -
  have "scaled d 0 \<le> 10 ^ 60" using scaled_le_bound [of d 60 a b 0] assms by simp
  then have "scaled d 0 < 10 ^ 61" by (rule le_less_trans) simp
  then have "length (digits (scaled d 0)) \<le> 61" by (rule digits_length) simp
  then show ?thesis using sign_length [of d] by (simp add: print_fixed_def)
qed

lemma print_fixed_6_length:
  assumes "abs_and_power d 9 = (a, b)" and "a \<le> b"
  shows "length (print_fixed 6 d) \<le> 18"
proof -
  have "scaled d 6 \<le> 10 ^ 15" using scaled_le_bound [of d 9 a b 6] assms by simp
  then have "scaled d 6 div 10 ^ 6 < 10 ^ 10"
    by (intro less_mult_imp_div_less) (simp add: order_le_less_trans)
  then have "length (digits (scaled d 6 div 10 ^ 6)) \<le> 10" by (rule digits_length) simp
  moreover have "length (padded 6 (scaled d 6 mod 10 ^ 6)) = 6" by (rule padded_length) simp_all
  ultimately show ?thesis using sign_length [of d] by (simp add: print_fixed_def Let_def)
qed

lemma print_exponential_length:
  assumes "\<bar>expo d\<bar> < 10 ^ 20" and "length (digits (nat \<bar>coef d\<bar>)) < 10 ^ 20"
  shows "length (print_exponential d) \<le> 40"
proof -
  let ?k = "length (digits (nat \<bar>coef d\<bar>))"
  let ?e = "int ?k - 1 + expo d"
  let ?m = "scaled d (6 - ?e)"
  have m: "?m \<le> 10 ^ 7"
    by (rule scaled_le [of d ?k]) (use digits_bound [of "nat \<bar>coef d\<bar>"] in auto)
  obtain m e where me: "(if 10 ^ 7 \<le> ?m then (10 ^ 6, ?e + 1) else (?m, ?e)) = (m, e)" by force
  with m have m7: "m < 10 ^ 7" by (auto split: if_splits)
  have "m div 10 ^ 6 < 10 ^ 1" using m7 by (intro less_mult_imp_div_less) simp
  then have d: "length (digits (m div 10 ^ 6)) \<le> 1" by (rule digits_length) simp
  have f: "length (padded 6 (m mod 10 ^ 6)) = 6" by (rule padded_length) simp_all
  have "e = ?e + 1 \<or> e = ?e" using me by (auto split: if_splits)
  moreover have "int ?k < 100000000000000000000" "\<bar>expo d\<bar> < 100000000000000000000"
    using assms by simp_all
  ultimately have "\<bar>e\<bar> < 1000000000000000000000" by linarith
  then have "nat \<bar>e\<bar> < 10 ^ 21" by (simp add: nat_less_iff)
  then have p: "length (padded 2 (nat \<bar>e\<bar>)) \<le> 21" using padded_length_le [of "nat \<bar>e\<bar>" 21 2] by simp
  have "print_exponential d = sign_bytes d @ digits (m div 10 ^ 6) @ 46 # padded 6 (m mod 10 ^ 6) @
         101 # (if e < 0 then 45 else 43) # padded 2 (nat \<bar>e\<bar>)"
    unfolding print_exponential_def Let_def me by simp
  with p d f show ?thesis using sign_length [of d] by simp
qed

lemma content_digits [simp]: "c_content (digits n)"
  using digits_range [of 0 n] by (auto simp: c_content_def)

lemma content_parts [simp]: "c_content (print_int v)" "c_content (sign_bytes x)" "c_content (padded p n)"
  by (auto simp: print_int_def sign_bytes_def padded_def c_content_def [of "replicate _ _"])

lemma content_formats [simp]: "c_content (print_fixed p x)" "c_content (print_exponential x)"
  by (simp_all add: print_fixed_def print_exponential_def Let_def case_prod_beta)

lemma print_number_fits:
  assumes "number_ok i"
  shows "\<exists>w. print_number i = Inr (w @ [0]) \<and> c_content w"
proof -
  let ?d = "valuedouble i"
  obtain a1 b1 where small: "abs_and_power ?d (-6) = (a1, b1)" by force
  obtain a2 b2 where big: "abs_and_power ?d 9 = (a2, b2)" by force
  obtain a3 b3 where huge: "abs_and_power ?d 60 = (a3, b3)" by force
  have "length (print_int (valueint i)) \<le> 11"
    using assms by (intro print_int_length) (simp_all add: number_ok_def)
  moreover have "length (print_exponential ?d) \<le> 40"
    using assms by (intro print_exponential_length) (simp_all add: number_ok_def)
  moreover have "\<not> b2 < a2 \<Longrightarrow> length (print_fixed 6 ?d) \<le> 18"
    by (rule print_fixed_6_length [OF big]) simp
  moreover have "a3 < b3 \<Longrightarrow> length (print_fixed 0 ?d) \<le> 62"
    by (rule print_fixed_0_length [OF huge])
  ultimately show ?thesis
    by (auto simp: print_number_def Let_def built_def small big huge)
qed

lemma escaped_length_eq: "c_content s \<Longrightarrow> length (concat (map escape_char s)) = escaped_length s"
proof (induction s)
  case (Cons c s)
  have "31 < c \<longleftrightarrow> \<not> c < 32" by unat_arith
  with Cons show ?case by (auto simp: escape_char_def)
qed simp

definition string_bytes :: "byte list \<Rightarrow> byte list" where
  "string_bytes w = 34 # concat (map escape_char w) @ [34]"

lemma escape_char_plain: "\<not> is_escaped c \<Longrightarrow> c \<noteq> 0 \<Longrightarrow> escape_char c = [c]"
  unfolding is_escaped_def escape_char_def by (auto simp: word_neq_0_conv) unat_arith

lemma print_string_ptr_ok:
  assumes "c_content w"
  shows "print_string_ptr (Some (w @ [0])) = Inr (string_bytes w @ [0])"
proof (cases "list_ex is_escaped w")
  case True
  with assms show ?thesis
    using strlen_content [OF assms, of "[]"] escaped_length_eq [OF assms]
    by (simp add: print_string_ptr_def built_def string_bytes_def)
next
  case False
  have "concat (map escape_char w) = w"
    using False assms by (induction w) (auto simp: escape_char_plain)
  with False show ?thesis
    using strlen_content [OF assms, of "[]"]
    by (simp add: print_string_ptr_def built_def string_bytes_def)
qed

text \<open>The escapes of the control characters, one by one\<close>

lemma control_table:
  "list_all (\<lambda>n. let c = of_nat n :: byte in
     hex_digit (drop_bit 4 c) \<noteq> 0 \<and> hex_digit (c AND 15) \<noteq> 0 \<and>
     (c \<noteq> 0 \<longrightarrow> parse_hex4 [48, 48, hex_digit (drop_bit 4 c), hex_digit (c AND 15)] = Inr (ucast c) \<and>
       (ucast c :: 32 word) < 0x80 \<and> (ucast c :: 32 word) \<noteq> 0 \<and> utf8 (ucast c) = [c] \<and>
       list_all is_hex [48, 48, hex_digit (drop_bit 4 c), hex_digit (c AND 15)])) [0..<32]"
  by code_simp

lemma word_unat_eq: "of_nat (unat w) = w"
  by simp

lemma control:
  fixes c :: byte
  assumes "c < 32"
  shows "hex_digit (drop_bit 4 c) \<noteq> 0" "hex_digit (c AND 15) \<noteq> 0"
    "c \<noteq> 0 \<Longrightarrow> parse_hex4 [48, 48, hex_digit (drop_bit 4 c), hex_digit (c AND 15)] = Inr (ucast c)"
    "c \<noteq> 0 \<Longrightarrow> (ucast c :: 32 word) < 0x80" "c \<noteq> 0 \<Longrightarrow> (ucast c :: 32 word) \<noteq> 0"
    "c \<noteq> 0 \<Longrightarrow> utf8 (ucast c) = [c]"
    "c \<noteq> 0 \<Longrightarrow> is_hex 48 \<and> is_hex (hex_digit (drop_bit 4 c)) \<and> is_hex (hex_digit (c AND 15))"
proof -
  have "unat c \<in> set [0..<32]" using assms by (simp add: word_less_nat_alt)
  with control_table have *: "let c = of_nat (unat c) :: byte in
     hex_digit (drop_bit 4 c) \<noteq> 0 \<and> hex_digit (c AND 15) \<noteq> 0 \<and>
     (c \<noteq> 0 \<longrightarrow> parse_hex4 [48, 48, hex_digit (drop_bit 4 c), hex_digit (c AND 15)] = Inr (ucast c) \<and>
       (ucast c :: 32 word) < 0x80 \<and> (ucast c :: 32 word) \<noteq> 0 \<and> utf8 (ucast c) = [c] \<and>
       list_all is_hex [48, 48, hex_digit (drop_bit 4 c), hex_digit (c AND 15)])"
    unfolding list_all_iff by blast
  show "hex_digit (drop_bit 4 c) \<noteq> 0" "hex_digit (c AND 15) \<noteq> 0"
    "c \<noteq> 0 \<Longrightarrow> parse_hex4 [48, 48, hex_digit (drop_bit 4 c), hex_digit (c AND 15)] = Inr (ucast c)"
    "c \<noteq> 0 \<Longrightarrow> (ucast c :: 32 word) < 0x80" "c \<noteq> 0 \<Longrightarrow> (ucast c :: 32 word) \<noteq> 0"
    "c \<noteq> 0 \<Longrightarrow> utf8 (ucast c) = [c]"
    "c \<noteq> 0 \<Longrightarrow> is_hex 48 \<and> is_hex (hex_digit (drop_bit 4 c)) \<and> is_hex (hex_digit (c AND 15))"
    using * by (simp_all only: Let_def word_unat_eq list.pred_inject simp_thms)
qed

lemma not_printable: "\<not> 31 < c \<longleftrightarrow> c < 32" for c :: byte
  by unat_arith

lemma content_escape: "c \<noteq> 0 \<Longrightarrow> c_content (escape_char c)"
  by (auto simp: escape_char_def control(1,2) not_printable)

lemma string_bytes_content: "c_content w \<Longrightarrow> c_content (string_bytes w)"
  unfolding string_bytes_def
  by (induction w) (auto simp: content_escape)

section \<open>What is printed\<close>

definition name_bytes :: "cJSON \<Rightarrow> byte list" where
  "name_bytes c = (case name_of c of None \<Rightarrow> [] | Some s \<Rightarrow> butlast s)"

definition string_value :: "item \<Rightarrow> byte list" where
  "string_value i = (case valuestring i of None \<Rightarrow> [] | Some s \<Rightarrow> butlast s)"

fun separated :: "byte list \<Rightarrow> byte list list \<Rightarrow> byte list" where
  "separated sep [] = []"
| "separated sep [w] = w"
| "separated sep (w # ws) = w @ sep @ separated sep ws"

definition tabs :: "bool \<Rightarrow> nat \<Rightarrow> byte list" where
  "tabs fmt n = (if fmt then replicate n 9 else [])"

definition newline :: "bool \<Rightarrow> byte list" where
  "newline fmt = (if fmt then [10] else [])"

definition member_bytes :: "bool \<Rightarrow> nat \<Rightarrow> byte list \<Rightarrow> byte list \<Rightarrow> byte list" where
  "member_bytes fmt depth n v = tabs fmt depth @ string_bytes n @ 58 # (if fmt then [9] else []) @ v"

text \<open>The text of a tree, without the memory\<close>

fun json_render :: "bool \<Rightarrow> nat \<Rightarrow> cJSON \<Rightarrow> byte list" where
  "json_render fmt depth (Node i cs) =
     (if item_type i = cJSON_NULL then bytes_of ''null''
      else if item_type i = cJSON_False then bytes_of ''false''
      else if item_type i = cJSON_True then bytes_of ''true''
      else if item_type i = cJSON_Number then butlast (projr (print_number i))
      else if item_type i = cJSON_String then string_bytes (string_value i)
      else if item_type i = cJSON_Array then
        91 # separated (44 # (if fmt then [32] else [])) (map (json_render fmt (depth + 1)) cs) @ [93]
      else if cs = [] then 123 # newline fmt @ tabs fmt (depth - 1) @ [125]
      else 123 # newline fmt @
        separated (44 # newline fmt)
          (map (\<lambda>c. member_bytes fmt (depth + 1) (name_bytes c) (json_render fmt (depth + 1) c)) cs) @
        newline fmt @ tabs fmt depth @ [125])"

fun numbers_ok :: "cJSON \<Rightarrow> bool" where
  "numbers_ok (Node i cs) = ((item_type i = cJSON_Number \<longrightarrow> number_ok i) \<and> list_all numbers_ok cs)"

lemma entry_text_content [simp]: "c_content w \<Longrightarrow> entry_text (w @ [0]) = w"
  using strlen_content [of w "[]"] by (simp add: entry_text_def)

lemma content_separated: "c_content sep \<Longrightarrow> list_all c_content ws \<Longrightarrow> c_content (separated sep ws)"
  by (induction sep ws rule: separated.induct) auto

lemma content_tabs [simp]: "c_content (tabs fmt n)" "c_content (newline fmt)"
  by (auto simp: tabs_def newline_def c_content_def)

lemma join_elements_separated:
  "list_all c_content ws \<Longrightarrow>
     join_elements fmt (map (\<lambda>w. w @ [0]) ws) = separated (44 # (if fmt then [32] else [])) ws"
  by (induction ws rule: separated.induct [of "\<lambda>_ ws. _ ws" "[]"]) auto

lemma length_separated:
  "length (separated sep ws) \<le> sum_list (map (\<lambda>w. length w + length sep) ws)"
  by (induction sep ws rule: separated.induct) auto

lemma array_length_enough:
  assumes "list_all c_content ws"
  shows "length (91 # separated (44 # (if fmt then [32] else [])) ws @ [93, 0]) \<le>
    array_length fmt (map (\<lambda>w. w @ [0]) ws)"
proof -
  have "sum_list (map (\<lambda>w. length w + length (44 # (if fmt then [32 :: byte] else []))) ws) \<le>
      sum_list (map (\<lambda>w. length (entry_text (w @ [0])) + 2 + (if fmt then 1 else 0)) ws)"
    using assms by (intro sum_list_mono) (auto simp: list_all_iff)
  then show ?thesis
    using length_separated [of "44 # (if fmt then [32] else [])" ws] by (simp add: array_length_def comp_def)
qed

lemma join_members_separated:
  assumes "list_all (\<lambda>(n, w). c_content n \<and> c_content w) ents"
  shows "join_members fmt depth (map (\<lambda>(n, w). (string_bytes n @ [0], w @ [0])) ents) =
    separated (44 # newline fmt) (map (\<lambda>(n, w). member_bytes fmt depth n w) ents) @
    (if ents = [] then [] else newline fmt)"
  using assms
proof (induction ents)
  case (Cons e ents)
  then show ?case
    by (cases e; cases ents) (auto simp: string_bytes_content member_bytes_def tabs_def newline_def)
qed simp

lemma object_length_enough:
  assumes "list_all (\<lambda>(n, w). c_content n \<and> c_content w) ents"
  shows "length (123 # newline fmt @ separated (44 # newline fmt) (map (\<lambda>(n, w). member_bytes fmt (Suc d) n w) ents) @
      newline fmt @ tabs fmt d @ [125, 0]) \<le>
    object_length fmt (Suc d) (map (\<lambda>(n, w). (string_bytes n @ [0], w @ [0])) ents)"
proof -
  have "length (separated (44 # newline fmt) (map (\<lambda>(n, w). member_bytes fmt (Suc d) n w) ents)) \<le>
      sum_list (map (\<lambda>(str, ret). length (entry_text ret) + length (entry_text str) + 2 +
        (if fmt then 2 + Suc d else 0)) (map (\<lambda>(n, w). (string_bytes n @ [0], w @ [0])) ents))"
    using assms
  proof (induction ents)
    case (Cons e ents)
    then show ?case
      by (cases e; cases ents)
        (auto simp: member_bytes_def tabs_def newline_def string_bytes_content split: if_splits)
  qed simp
  then show ?thesis
    by (auto simp: object_length_def tabs_def newline_def)
qed

lemma print_renders:
  "json_ok c \<Longrightarrow> numbers_ok c \<Longrightarrow>
     print_value c depth fmt = Inr (Some (json_render fmt depth c @ [0])) \<and> c_content (json_render fmt depth c)"
  "list_all json_ok cs \<Longrightarrow> list_all numbers_ok cs \<Longrightarrow>
     print_elements cs depth fmt = Inr (Some (map (\<lambda>c. json_render fmt depth c @ [0]) cs)) \<and>
     list_all c_content (map (json_render fmt depth) cs)"
  "list_all json_ok cs \<Longrightarrow> list_all numbers_ok cs \<Longrightarrow>
     list_all (\<lambda>c. case name_of c of None \<Rightarrow> False | Some s \<Rightarrow> c_string s) cs \<Longrightarrow>
     print_members cs depth fmt =
       Inr (Some (map (\<lambda>c. (string_bytes (name_bytes c) @ [0], json_render fmt depth c @ [0])) cs)) \<and>
     list_all (\<lambda>c. c_content (name_bytes c) \<and> c_content (json_render fmt depth c)) cs"
proof (induction c depth fmt and cs depth fmt and cs depth fmt
    rule: print_value_print_elements_print_members.induct)
  case (1 i cs depth fmt)
  have item: "item_ok i cs" and cs: "list_all json_ok cs" "list_all numbers_ok cs"
    and num: "item_type i = cJSON_Number \<Longrightarrow> number_ok i"
    using "1.prems" by simp_all
  then have "item_type i \<le> 6" by (simp add: item_ok_def)
  then have t: "item_type i mod 256 = item_type i" by simp
  consider "item_type i \<in> {cJSON_NULL, cJSON_False, cJSON_True}" | "item_type i = cJSON_Number"
    | "item_type i = cJSON_String" | "item_type i = cJSON_Array" | "item_type i = cJSON_Object"
    using \<open>item_type i \<le> 6\<close> unfolding type_codes by (auto simp: le_Suc_eq numeral_eq_Suc)
  then show ?case
  proof cases
    case 1
    then show ?thesis by (auto simp: Let_def t type_simps lit_def)
  next
    case 2
    with print_number_fits [OF num] show ?thesis by (auto simp: Let_def t type_simps)
  next
    case 3
    with item obtain w where "valuestring i = Some (w @ [0])" "c_content w"
      by (auto simp: item_ok_def type_simps c_string_iff split: option.splits)
    with 3 show ?thesis
      by (auto simp: Let_def t type_simps print_string_ptr_ok string_value_def string_bytes_content)
  next
    case 4
    show ?thesis
    proof (cases "cs = []")
      case True
      with 4 show ?thesis by (auto simp: Let_def t type_simps built_def print_empty_array_def)
    next
      case False
      from "1.IH"(1) [OF refl _ _ _ _ _ _ False cs] 4
      have el: "print_elements cs (depth + 1) fmt = Inr (Some (map (\<lambda>c. json_render fmt (depth + 1) c @ [0]) cs))"
        and w: "list_all c_content (map (json_render fmt (depth + 1)) cs)" by (simp_all add: t type_simps)
      have "map (\<lambda>c. json_render fmt (depth + 1) c @ [0]) cs = map (\<lambda>w. w @ [0]) (map (json_render fmt (depth + 1)) cs)"
        by simp
      with 4 False el array_length_enough [OF w, of fmt] join_elements_separated [OF w, of fmt] w show ?thesis
        by (auto simp: Let_def t type_simps built_ok print_array_def intro!: content_separated simp del: map_map)
    qed
  next
    case 5
    show ?thesis
    proof (cases "cs = []")
      case True
      with 5 show ?thesis
        by (auto simp: Let_def t type_simps built_def tabs_def newline_def print_empty_object_def
              c_content_def [of "replicate _ _"])
    next
      case False
      have names: "list_all (\<lambda>c. case name_of c of None \<Rightarrow> False | Some s \<Rightarrow> c_string s) cs"
        using item 5 by (simp add: item_ok_def)
      from "1.IH"(2) [OF refl _ _ _ _ _ _ _ False cs names] 5
      have el: "print_members cs (Suc depth) fmt =
          Inr (Some (map (\<lambda>c. (string_bytes (name_bytes c) @ [0], json_render fmt (Suc depth) c @ [0])) cs))"
        and w: "list_all (\<lambda>c. c_content (name_bytes c) \<and> c_content (json_render fmt (Suc depth) c)) cs"
        by (simp_all add: t type_simps)
      let ?ents = "map (\<lambda>c. (name_bytes c, json_render fmt (Suc depth) c)) cs"
      have ents: "list_all (\<lambda>(n, w). c_content n \<and> c_content w) ?ents" using w by (simp add: list_all_iff)
      have split: "map (\<lambda>c. (string_bytes (name_bytes c) @ [0], json_render fmt (Suc depth) c @ [0])) cs =
          map (\<lambda>(n, w). (string_bytes n @ [0], w @ [0])) ?ents"
        "map (\<lambda>c. member_bytes fmt (Suc depth) (name_bytes c) (json_render fmt (Suc depth) c)) cs =
          map (\<lambda>(n, w). member_bytes fmt (Suc depth) n w) ?ents" by simp_all
      have content: "list_all c_content (map (\<lambda>(n, w). member_bytes fmt (Suc depth) n w) ?ents)"
        using w by (auto simp: list_all_iff member_bytes_def string_bytes_content)
      have json_render: "json_render fmt depth (Node i cs) = 123 # newline fmt @
          separated (44 # newline fmt) (map (\<lambda>(n, w). member_bytes fmt (Suc depth) n w) ?ents) @
          newline fmt @ tabs fmt depth @ [125]"
        using 5 False unfolding split(2) [symmetric] by (simp add: type_simps)
      have print: "print_value (Node i cs) depth fmt =
          bindR (built (object_length fmt (Suc depth) (map (\<lambda>(n, w). (string_bytes n @ [0], w @ [0])) ?ents))
            (123 # newline fmt @
             separated (44 # newline fmt) (map (\<lambda>(n, w). member_bytes fmt (Suc depth) n w) ?ents) @
             newline fmt @ tabs fmt depth @ [125, 0])) (\<lambda>out. Inr (Some out))"
      proof -
        have members: "join_members fmt (Suc depth) (map (\<lambda>(n, w). (string_bytes n @ [0], w @ [0])) ?ents) =
            separated (44 # newline fmt) (map (\<lambda>(n, w). member_bytes fmt (Suc depth) n w) ?ents) @ newline fmt"
          using False join_members_separated [OF ents, of fmt "Suc depth"] by simp
        have "item_type i = 6" using 5 by (simp add: type_simps)
        with False el [unfolded split(1)] show ?thesis
          unfolding print_value.simps Let_def t type_codes newline_def [symmetric] tabs_def [symmetric]
          by (simp add: members print_object_def newline_def tabs_def del: map_map)
      qed
      have "c_content (123 # newline fmt @
          separated (44 # newline fmt) (map (\<lambda>(n, w). member_bytes fmt (Suc depth) n w) ?ents) @
          newline fmt @ tabs fmt depth @ [125])"
        using content by (simp add: content_separated)
      then show ?thesis
        unfolding json_render print using object_length_enough [OF ents, of fmt depth] by (simp add: built_ok)
    qed
  qed
next
  case (5 c cs depth fmt)
  then obtain s where "name_of c = Some s" "c_string s" by (auto split: option.splits)
  then have "print_string_ptr (name_of c) = Inr (string_bytes (name_bytes c) @ [0])" "c_content (name_bytes c)"
    by (auto simp: c_string_iff name_bytes_def print_string_ptr_ok)
  with 5 show ?case by simp
qed auto

text \<open>
  Printing a well-formed tree, formatted or not, at any depth, gives a terminated string and
  never writes behind one of the strings whose lengths were computed before. This includes the escapes,
  the tabulators of the formatted output, and all numbers whose digits and exponent have fewer than
  twenty digits.
\<close>

theorem cJSON_Print_fits:
  assumes "json_ok c" and "numbers_ok c"
  shows "\<exists>w. print_value c depth fmt = Inr (Some (w @ [0])) \<and> c_content w"
  using print_renders(1) [OF assms] by blast

definition sample_tree :: cJSON where
  "sample_tree =
     Node (cJSON_New_Item\<lparr>item_type := cJSON_Object\<rparr>)
       [Node (cJSON_New_Item\<lparr>item_type := cJSON_Array, item_string := Some [97, 0]\<rparr>)
          [Node (cJSON_New_Item\<lparr>item_type := cJSON_Number, valueint := -25,
                  valuedouble := \<lparr>coef = -25, expo = 0\<rparr>\<rparr>) [],
           Node (cJSON_New_Item\<lparr>item_type := cJSON_String, valuestring := Some [34, 1, 200, 10, 0]\<rparr>) []],
        Node (cJSON_New_Item\<lparr>item_type := cJSON_True, item_string := Some [0]\<rparr>) []]"

lemma sample_tree_ok: "json_ok sample_tree" "numbers_ok sample_tree"
  by (simp_all add: sample_tree_def cJSON_New_Item_def item_ok_def type_simps c_string_def number_ok_def
      digits.simps)

theorem cJSON_Print_fits_witness:
  "\<exists>w. print_value sample_tree 0 True = Inr (Some (w @ [0])) \<and> c_content w"
  by (rule cJSON_Print_fits [OF sample_tree_ok])

end
