(* ===== verification/CJsonRound.thy ===== *)
theory CJsonRound
  imports CJsonPrint
begin

text \<open>
  What \<^verbatim>\<open>common/cJSON.c\<close> prints it parses again: the text of a tree gives a tree with the same content.
\<close>

section \<open>The content of a tree\<close>

datatype json =
    JNull
  | JBool bool
  | JNumber number
  | JString "byte list"
  | JArray "json list"
  | JObject "(byte list \<times> json) list"

fun json_view :: "cJSON \<Rightarrow> json" where
  "json_view (Node i cs) =
     (if item_type i = cJSON_NULL then JNull
      else if item_type i = cJSON_False then JBool False
      else if item_type i = cJSON_True then JBool True
      else if item_type i = cJSON_Number then JNumber (valuedouble i)
      else if item_type i = cJSON_String then JString (string_value i)
      else if item_type i = cJSON_Array then JArray (map json_view cs)
      else JObject (map (\<lambda>c. (name_bytes c, json_view c)) cs))"

text \<open>Trees whose numbers are integers that fit into an \<open>int\<close>\<close>

definition int_number :: "item \<Rightarrow> bool" where
  "int_number i \<longleftrightarrow> valuedouble i = \<lparr>coef = valueint i, expo = 0\<rparr> \<and>
     - (2 ^ 31) \<le> valueint i \<and> valueint i < 2 ^ 31"

fun integers_only :: "cJSON \<Rightarrow> bool" where
  "integers_only (Node i cs) = ((item_type i = cJSON_Number \<longrightarrow> int_number i) \<and> list_all integers_only cs)"

lemma int_number_ok: "int_number i \<Longrightarrow> number_ok i"
proof -
  assume i: "int_number i"
  then have "nat \<bar>valueint i\<bar> < 10 ^ 10" by (auto simp: int_number_def)
  then have "length (digits (nat \<bar>valueint i\<bar>)) \<le> 10" by (rule digits_length) simp
  with i show "number_ok i" by (simp add: int_number_def number_ok_def)
qed

lemma integers_numbers_ok: "integers_only c \<Longrightarrow> numbers_ok c"
  by (induction c) (auto simp: int_number_ok list_all_iff)

lemma print_int_number:
  assumes "int_number i"
  shows "print_number i = Inr (print_int (valueint i) @ [0])"
proof -
  have "length (print_int (valueint i)) \<le> 11"
    using assms by (intro print_int_length) (simp_all add: int_number_def)
  moreover have "print_int 0 = [48]" by (simp add: print_int_def digits.simps)
  moreover have "near_int v \<lparr>coef = v, expo = 0\<rparr>" for v by (simp add: near_int_def)
  moreover have "in_int_range \<lparr>coef = valueint i, expo = 0\<rparr>"
    using assms by (simp add: int_number_def in_int_range_def)
  ultimately show ?thesis
    using assms by (simp add: int_number_def print_number_def built_def Let_def)
qed

section \<open>Reading a string back\<close>

text \<open>The characters that are escaped by a letter, and the others\<close>

lemma letter_escape:
  assumes "c \<in> {92, 34, 8, 12, 10, 13, 9}"
  shows "\<exists>e. escape_char c = [92, e] \<and> (\<forall>t. escape (e # t) = Inr ([c], 0))"
  using assms
  by (elim insertE emptyE) (simp_all add: escape_char_def escape_def rd_def)

lemma escape_char_cases:
  assumes "c \<noteq> 0"
  obtains "escape_char c = [c]" and "c \<noteq> 34" and "c \<noteq> 92"
  | e where "escape_char c = [92, e]" and "\<And>t. escape (e # t) = Inr ([c], 0)"
  | "c < 32" and "escape_char c = [92, 117, 48, 48, hex_digit (drop_bit 4 c), hex_digit (c AND 15)]"
proof (cases "31 < c \<and> c \<noteq> 34 \<and> c \<noteq> 92")
  case True
  then show ?thesis by (intro that(1)) (simp_all add: escape_char_def)
next
  case False
  show ?thesis
  proof (cases "c \<in> {92, 34, 8, 12, 10, 13, 9}")
    case True
    from letter_escape [OF this] obtain e where e: "escape_char c = [92, e]" "\<forall>t. escape (e # t) = Inr ([c], 0)"
      by blast
    show ?thesis by (rule that(2) [OF e(1) e(2) [rule_format]])
  next
    case special: False
    with False have "c < 32" using not_printable [of c] by simp
    moreover have "escape_char c = [92, 117, 48, 48, hex_digit (drop_bit 4 c), hex_digit (c AND 15)]"
      using False special unfolding escape_char_def if_not_P [OF False] by simp
    ultimately show ?thesis by (rule that(3))
  qed
qed

lemma scan_escape_char:
  assumes "c \<noteq> 0"
  shows "\<exists>m\<ge>1. \<forall>k. scan_string (escape_char c @ t) k = scan_string t (k + m)"
  using assms
proof (cases rule: escape_char_cases)
  case 1
  with assms show ?thesis by (intro exI [of _ 1]) simp
next
  case (2 e)
  then show ?thesis by (intro exI [of _ 1]) simp
next
  case 3
  have "list_all is_hex [48, 48, hex_digit (drop_bit 4 c), hex_digit (c AND 15)]"
    using control(7) [OF 3(1) assms] by simp
  note hex = scan_hex [OF this, of t]
  have "scan_string (92 # 117 # h) k = scan_string h (Suc k)" for h k by simp
  with hex have "scan_string (escape_char c @ t) k = scan_string t (k + Suc 4)" for k
    unfolding 3(2) by (simp del: scan_string.simps add: eval_nat_numeral)
  then show ?thesis by (intro exI [of _ "Suc 4"]) simp
qed

lemma hex4_steps_append: "length hs = n \<Longrightarrow> hex4_steps n (hs @ r) h = hex4_steps n hs h"
proof (induction n arbitrary: hs h)
  case (Suc n)
  then show ?case by (cases hs) (auto simp: rd_def split: option.splits)
qed simp

lemma parse_hex4_append: "length hs = 4 \<Longrightarrow> parse_hex4 (hs @ r) = parse_hex4 hs"
  by (simp add: parse_hex4_def hex4_steps_append)

text \<open>Copying an escaped character writes the character.\<close>

lemma copy_escape_char:
  assumes "c \<noteq> 0" and "length out < cap"
  shows "copy_string cap out (escape_char c @ t) = copy_string cap (out @ [c]) t"
  using assms(1)
proof (cases rule: escape_char_cases)
  case 1
  with assms show ?thesis by (simp add: put_def)
next
  case (2 e)
  with assms(2) show ?thesis by (simp add: put_def)
next
  case 3
  let ?hs = "[48, 48, hex_digit (drop_bit 4 c), hex_digit (c AND 15)]"
  have "parse_hex4 (?hs @ t) = Inr (ucast c)"
    using parse_hex4_append [of ?hs t] control(3) [OF 3(1) assms(1)] by simp
  moreover note control(4-6) [OF 3(1) assms(1)]
  moreover have "\<not> (0xDC00 \<le> (ucast c :: 32 word))" "\<not> (0xD800 \<le> (ucast c :: 32 word))"
    using control(4) [OF 3(1) assms(1)] by (auto simp: word_less_nat_alt word_le_nat_alt)
  ultimately have "unicode_escape (117 # ?hs @ t) = Inr ([c], 4)"
    unfolding unicode_escape_def by (simp del: append.simps)
  then have "escape (117 # ?hs @ t) = Inr ([c], 4)"
    by (simp add: escape_def rd_def)
  with 3(2) assms(2) show ?thesis by (simp add: put_def)
qed

lemma parse_string_bytes:
  assumes "c_content w"
  shows "parse_string item (string_bytes w @ t) =
    Inr (Parsed (item\<lparr>valuestring := Some (w @ [0]), item_type := cJSON_String\<rparr>) t)"
proof -
  let ?s = "concat (map escape_char w) @ 34 # t"
  have "\<exists>m\<ge>length w. scan_string ?s k = Inr (k + m)" for k
    using assms
  proof (induction w arbitrary: k)
    case (Cons c w)
    then have "c \<noteq> 0" by simp
    from scan_escape_char [OF this, of "concat (map escape_char w) @ 34 # t"]
    obtain m where m: "m \<ge> 1" "\<And>k. scan_string (escape_char c @ concat (map escape_char w) @ 34 # t) k =
        scan_string (concat (map escape_char w) @ 34 # t) (k + m)" by blast
    from Cons obtain n where "n \<ge> length w" "scan_string (concat (map escape_char w) @ 34 # t) (k + m) =
        Inr (k + m + n)" by auto
    with m show ?case by (intro exI [of _ "m + n"]) auto
  qed simp
  from this [of 0] obtain m where m: "m \<ge> length w" "scan_string ?s 0 = Inr m" by auto
  have "copy_string cap out ?s = Inr (out @ w @ [0], t)" if "length out + length w < cap" for cap out
    using that assms
  proof (induction w arbitrary: out)
    case (Cons c w)
    then show ?case by (simp add: copy_escape_char)
  qed (simp add: put_def)
  from this [of "[]" "m + 1"] m show ?thesis
    by (simp add: parse_string_def string_bytes_def rd_def)
qed

section \<open>Reading a number back\<close>

text \<open>A character that ends a value in a printed text\<close>

definition ends_value :: "byte list \<Rightarrow> bool" where
  "ends_value rest \<longleftrightarrow> rest \<noteq> [] \<and> hd rest \<in> {44, 93, 125, 10, 0}"

lemma ends_valueE:
  assumes "ends_value rest"
  obtains c s where "rest = c # s" and "\<not> is_digit c" and "c \<noteq> 46" and "c \<noteq> 101" and "c \<noteq> 69"
    and "\<not> (49 \<le> c \<and> c \<le> 57)"
proof -
  from assms obtain c s where "rest = c # s" "c \<in> {44, 93, 125, 10, 0}"
    by (cases rest) (auto simp: ends_value_def)
  then show ?thesis by (intro that [of c s]) (auto simp: is_digit_def)
qed

lemma scan_digits_all:
  assumes "list_all is_digit ds" and "\<not> is_digit c"
  shows "scan_digits (ds @ c # s) a k =
    Inr (foldl (\<lambda>v d. v * 10 + (uint d - 48)) a ds, k + length ds, c # s)"
  using assms by (induction ds arbitrary: a k) auto

lemma digits_is_digit: "list_all is_digit (digits n)"
  using digits_range [of _ n] by (auto simp: list_all_iff is_digit_def word_le_nat_alt)

lemma foldl_digits:
  assumes "list_all is_digit ds"
  shows "foldl (\<lambda>v d. v * 10 + (uint d - 48)) (int a) ds = int (foldl (\<lambda>v d. v * 10 + (unat d - 48)) a ds)"
  using assms
proof (induction ds arbitrary: a)
  case (Cons d ds)
  then have "48 \<le> unat d" by (simp add: is_digit_def word_le_nat_alt)
  then have "int a * 10 + (uint d - 48) = int (a * 10 + (unat d - 48))" by (simp add: of_nat_diff)
  with Cons show ?case by (simp del: of_nat_add of_nat_mult)
qed simp

lemma digits_first: "0 < n \<Longrightarrow> \<exists>d ds. digits n = d # ds \<and> is_digit d \<and> d \<noteq> 48"
proof (induction n rule: digits.induct)
  case (1 n)
  show ?case
  proof (cases "n < 10")
    case True
    with "1.prems" have "n \<in> {1, 2, 3, 4, 5, 6, 7, 8, 9}" by auto
    then show ?thesis by (auto simp: digits.simps [of n] is_digit_def)
  next
    case False
    then have "0 < n div 10" by simp
    with "1.IH" False show ?thesis by (auto simp: digits.simps [of n])
  qed
qed

lemma parse_integer_digits:
  assumes "ends_value rest"
  shows "\<exists>k. parse_integer (digits n @ rest) = Inr (int n, k, rest)"
proof -
  from assms obtain c s where c: "rest = c # s" "\<not> is_digit c" "\<not> (49 \<le> c \<and> c \<le> 57)"
    by (rule ends_valueE)
  show ?thesis
  proof (cases "n = 0")
    case True
    with c show ?thesis by (auto simp: digits.simps parse_integer_def rd_def Let_def)
  next
    case False
    then obtain d ds where d: "digits n = d # ds" "is_digit d" "d \<noteq> 48" using digits_first by blast
    then have "49 \<le> d \<and> d \<le> 57" by (simp add: nonzero_digit)
    moreover have "scan_digits (digits n @ c # s) 0 0 = Inr (int n, length (digits n), c # s)"
      using scan_digits_all [OF digits_is_digit c(2), of n s 0 0] foldl_digits [OF digits_is_digit, of 0 n]
        digits_value_digits [of n] by (simp add: digits_value_def)
    ultimately show ?thesis
      using d c(1) by (simp add: parse_integer_def rd_def del: scan_digits.simps)
  qed
qed

lemma parse_print_int:
  assumes "ends_value rest" and "- (2 ^ 31) \<le> v" and "v < 2 ^ 31"
  shows "parse_number item (print_int v @ rest) =
    Inr (Parsed (item\<lparr>valuedouble := \<lparr>coef = v, expo = 0\<rparr>, valueint := v, item_type := cJSON_Number\<rparr>) rest)"
proof -
  from assms(1) obtain c s where c: "rest = c # s" "c \<noteq> 46" "c \<noteq> 101" "c \<noteq> 69" by (rule ends_valueE)
  let ?n = "nat \<bar>v\<bar>"
  have sign: "parse_sign (print_int v @ rest) = Inr (if v < 0 then -1 else 1, digits ?n @ rest)"
  proof (cases "v < 0")
    case False
    obtain d ds where "digits ?n = d # ds" by (cases "digits ?n") auto
    moreover have "is_digit d" using digits_is_digit [of ?n] calculation by simp
    then have "d \<noteq> 45" by (auto simp: is_digit_def)
    ultimately show ?thesis using False by (simp add: print_int_def parse_sign_def rd_def)
  qed (simp add: print_int_def parse_sign_def rd_def)
  from parse_integer_digits [OF assms(1), of ?n] obtain k where
    "parse_integer (digits ?n @ rest) = Inr (int ?n, k, rest)" by blast
  moreover have "parse_fraction m rest = Inr (m, 0, rest)" "parse_exponent rest = Inr (0, rest)" for m
    using c by (simp_all add: parse_fraction_def parse_exponent_def rd_def)
  moreover have "trunc_number \<lparr>coef = v, expo = 0\<rparr> = v"
    using assms(2,3) by (simp add: trunc_number_def Let_def)
  ultimately show ?thesis
    by (auto simp: parse_number_def sign Let_def)
qed

section \<open>Reading arrays and objects back\<close>

definition blank :: "byte list \<Rightarrow> bool" where
  "blank ws \<longleftrightarrow> list_all (\<lambda>c. c \<noteq> 0 \<and> c \<le> 32) ws"

definition visible :: "byte list \<Rightarrow> bool" where
  "visible w \<longleftrightarrow> w \<noteq> [] \<and> \<not> hd w \<le> 32"

lemma skip_blank: "blank ws \<Longrightarrow> visible v \<Longrightarrow> skip (ws @ v) = Inr v"
  unfolding blank_def visible_def by (induction ws) (cases v; auto)+

lemma skip_visible: "visible v \<Longrightarrow> skip v = Inr v"
  using skip_blank [of "[]" v] by (simp add: blank_def)

lemma visible_append [simp]: "visible w \<Longrightarrow> visible (w @ s)"
  by (cases w) (auto simp: visible_def)

lemma blank_parts [simp]: "blank (tabs fmt n)" "blank (newline fmt)" "blank []" "blank [9]" "blank [32]"
  "blank (a @ b) = (blank a \<and> blank b)"
  by (auto simp: blank_def tabs_def newline_def list_all_iff)

lemma separated_Cons: "ws \<noteq> [] \<Longrightarrow> separated sep (w # ws) = w @ sep @ separated sep ws"
  by (cases ws) auto

text \<open>What is asked of the function that reads the values back, for the values of a list\<close>

definition reads_value :: "value_parser \<Rightarrow> (cJSON \<Rightarrow> byte list) \<Rightarrow> cJSON \<Rightarrow> bool" where
  "reads_value pv r c \<longleftrightarrow> visible (r c) \<and> (\<forall>item rest. valuestring item = None \<longrightarrow> ends_value rest \<longrightarrow>
     (\<exists>c'. pv item (r c @ rest) = Inr (Parsed c' rest) \<and> json_view c' = json_view c \<and> name_of c' = item_string item))"

lemma reads_valueD:
  assumes "reads_value pv r c" and "valuestring item = None" and "ends_value rest"
  obtains c' where "pv item (r c @ rest) = Inr (Parsed c' rest)" "json_view c' = json_view c" "name_of c' = item_string item"
  using assms unfolding reads_value_def by blast

lemma skipped_blank: "blank ws \<Longrightarrow> visible v \<Longrightarrow> skipped (ws @ v) f = f v"
  by (simp add: skipped_def skip_blank)

lemma parse_elements_render:
  assumes "list_all (reads_value pv r) cs" and "cs \<noteq> []" and "length cs \<le> fuel" and "blank ws" and "blank sp"
  shows "\<exists>cs'. parse_elements pv fuel acc (ws @ separated (44 # sp) (map r cs) @ 93 # rest) =
      Inr (Parsed (acc @ cs') rest) \<and> map json_view cs' = map json_view cs"
  using assms
proof (induction cs arbitrary: acc ws fuel)
  case (Cons c cs)
  then obtain f where f: "fuel = Suc f" by (cases fuel) auto
  let ?after = "if cs = [] then 93 # rest else 44 # sp @ separated (44 # sp) (map r cs) @ 93 # rest"
  have shape: "separated (44 # sp) (map r (c # cs)) @ 93 # rest = r c @ ?after"
    by (simp add: separated_Cons)
  have ends: "ends_value ?after" "visible ?after" by (auto simp: ends_value_def visible_def)
  from Cons.prems(1) have rc: "reads_value pv r c" by simp
  then have vis: "visible (r c)" by (simp add: reads_value_def)
  from reads_valueD [OF rc _ ends(1), of cJSON_New_Item] obtain c' where
    c': "pv cJSON_New_Item (r c @ ?after) = Inr (Parsed c' ?after)" "json_view c' = json_view c" by auto
  show ?case
  proof (cases "cs = []")
    case True
    with c' f vis ends Cons.prems(4) show ?thesis
      unfolding shape by (auto simp: skipped_blank skip_visible skipped_def skip_blank rd_def)
  next
    case False
    from Cons.IH [of f sp "acc @ [c']"] Cons.prems False f obtain cs' where
      "parse_elements pv f (acc @ [c']) (sp @ separated (44 # sp) (map r cs) @ 93 # rest) =
        Inr (Parsed ((acc @ [c']) @ cs') rest)" "map json_view cs' = map json_view cs" by auto
    with c' f vis ends Cons.prems(4) False show ?thesis
      unfolding shape by (intro exI [of _ "c' # cs'"]) (auto simp: skipped_def skip_blank skip_visible rd_def)
  qed
qed simp

lemma visible_string: "visible (string_bytes w)"
  by (simp add: visible_def string_bytes_def)

lemma parse_members_render:
  assumes "list_all (\<lambda>c. reads_value pv r c \<and> c_content (name_bytes c)) cs" and "cs \<noteq> []" and "length cs \<le> fuel"
    and "blank ws" and "blank sp" and "blank end_ws" and "end_ws = [] \<or> hd end_ws = 10"
  shows "\<exists>cs'. parse_members pv fuel acc
        (ws @ separated (44 # sp) (map (\<lambda>c. member_bytes fmt d (name_bytes c) (r c)) cs) @ end_ws @ 125 # rest) =
      Inr (Parsed (acc @ cs') rest) \<and>
      map (\<lambda>c. (name_bytes c, json_view c)) cs' = map (\<lambda>c. (name_bytes c, json_view c)) cs"
  using assms(1-5)
proof (induction cs arbitrary: acc ws fuel)
  case (Cons c cs)
  then obtain f where f: "fuel = Suc f" by (cases fuel) auto
  let ?m = "\<lambda>c. member_bytes fmt d (name_bytes c) (r c)"
  let ?ws1 = "if cs = [] then end_ws else []"
  let ?after = "if cs = [] then 125 # rest else 44 # sp @ separated (44 # sp) (map ?m cs) @ end_ws @ 125 # rest"
  let ?tab = "if fmt then [9] else []"
  have shape: "ws @ separated (44 # sp) (map ?m (c # cs)) @ end_ws @ 125 # rest =
      (ws @ tabs fmt d) @ string_bytes (name_bytes c) @ 58 # ?tab @ r c @ ?ws1 @ ?after"
    by (simp add: separated_Cons member_bytes_def)
  have after: "ends_value (?ws1 @ ?after)" "visible ?after"
    using assms(7) by (cases end_ws; auto simp: ends_value_def visible_def)+
  have blanks: "blank ?ws1" "blank ?tab" "blank (ws @ tabs fmt d)"
    using assms(6) Cons.prems(4) by simp_all
  from Cons.prems(1) have rc: "reads_value pv r c" and name: "c_content (name_bytes c)" by simp_all
  then have vis: "visible (r c)" by (simp add: reads_value_def)
  let ?item = "cJSON_New_Item\<lparr>item_type := cJSON_String, item_string := Some (name_bytes c @ [0]), valuestring := None\<rparr>"
  have "valuestring ?item = None" by simp
  from reads_valueD [OF rc this after(1)] obtain c' where
    c': "pv ?item (r c @ ?ws1 @ ?after) = Inr (Parsed c' (?ws1 @ ?after))" "json_view c' = json_view c"
      and "name_of c' = item_string ?item" by blast
  then have name': "name_bytes c' = name_bytes c" by (simp add: name_bytes_def)
  have step: "parse_members pv fuel acc (ws @ separated (44 # sp) (map ?m (c # cs)) @ end_ws @ 125 # rest) =
      bindR (rd ?after 0) (\<lambda>d.
        if d = 44 then parse_members pv f (acc @ [c']) (drop 1 ?after)
        else if d = 125 then Inr (Parsed (acc @ [c']) (drop 1 ?after))
        else Inr (Failed ?after))"
  proof -
    let ?str = "cJSON_New_Item\<lparr>valuestring := Some (name_bytes c @ [0]), item_type := cJSON_String\<rparr>"
    have skip1: "\<And>x f. skipped ((ws @ tabs fmt d) @ string_bytes (name_bytes c) @ x) f =
        f (string_bytes (name_bytes c) @ x)"
      by (rule skipped_blank [OF blanks(3)]) (simp add: visible_string)
    have skip2: "\<And>x f. skipped (58 # x) f = f (58 # x)"
      by (simp add: skipped_def)
    have skip3: "\<And>x f. skipped (?tab @ r c @ x) f = f (r c @ x)"
      by (rule skipped_blank [OF blanks(2)]) (simp add: vis)
    have skip4: "\<And>f. skipped (?ws1 @ ?after) f = f ?after"
      by (rule skipped_blank [OF blanks(1) after(2)])
    have colon: "rd (58 # x) 0 = Inr 58" "drop 1 (58 # x) = x" for x :: "byte list"
      by (simp_all add: rd_def)
    have item: "?str\<lparr>item_string := valuestring ?str, valuestring := None\<rparr> = ?item" by simp
    have test: "(if (58 :: byte) \<noteq> 58 then x else y) = y" for x y :: "cJSON list parsed res" by simp
    show ?thesis
      unfolding shape f parse_members.simps skip1 parse_string_bytes [OF name] bindP_simps skip2 colon bindR_simps
        test item skip3 c'(1) skip4 ..
  qed
  show ?case
  proof (cases "cs = []")
    case True
    with step c'(2) name' show ?thesis by (simp add: rd_def)
  next
    case False
    from Cons.IH [of f sp "acc @ [c']"] Cons.prems False f obtain cs' where
      "parse_members pv f (acc @ [c']) (sp @ separated (44 # sp) (map ?m cs) @ end_ws @ 125 # rest) =
        Inr (Parsed ((acc @ [c']) @ cs') rest)"
      "map (\<lambda>c. (name_bytes c, json_view c)) cs' = map (\<lambda>c. (name_bytes c, json_view c)) cs" by auto
    with step c'(2) name' False show ?thesis
      by (intro exI [of _ "c' # cs'"]) (simp add: rd_def)
  qed
qed simp

lemma separated_length:
  assumes "list_all (\<lambda>w. w \<noteq> []) ws"
  shows "length ws \<le> length (separated sep ws)"
  using assms
proof (induction ws)
  case (Cons w ws)
  then have "1 \<le> length w" by (cases w) auto
  with Cons show ?case by (cases ws) auto
qed simp

lemma separated_member: "w \<in> set ws \<Longrightarrow> length w \<le> length (separated sep ws)"
  by (induction sep ws rule: separated.induct) auto

lemma word_first:
  assumes "c_content w" and "n = length w"
  shows "strncmp_eq (w @ rest) (lit w) n = Inr True"
  unfolding assms(2) lit_def using assms(1) by (induction w) auto

lemma parse_value_words:
  "parse_value (Suc f) item (bytes_of ''null'' @ rest) =
     Inr (Parsed (Node (item\<lparr>item_type := cJSON_NULL\<rparr>) []) rest)"
  "parse_value (Suc f) item (bytes_of ''false'' @ rest) =
     Inr (Parsed (Node (item\<lparr>item_type := cJSON_False\<rparr>) []) rest)"
  "parse_value (Suc f) item (bytes_of ''true'' @ rest) =
     Inr (Parsed (Node (item\<lparr>item_type := cJSON_True, valueint := 1\<rparr>) []) rest)"
proof -
  have n: "strncmp_eq (bytes_of ''null'' @ rest) (lit (bytes_of ''null'')) 4 = Inr True"
    "strncmp_eq (bytes_of ''false'' @ rest) (lit (bytes_of ''false'')) 5 = Inr True"
    "strncmp_eq (bytes_of ''true'' @ rest) (lit (bytes_of ''true'')) 4 = Inr True"
    by (rule word_first; simp)+
  have d: "drop 4 (bytes_of ''null'' @ rest) = rest" "drop 5 (bytes_of ''false'' @ rest) = rest"
    "drop 4 (bytes_of ''true'' @ rest) = rest" by simp_all
  have o: "strncmp_eq (bytes_of ''false'' @ rest) (lit (bytes_of ''null'')) 4 = Inr False"
    "strncmp_eq (bytes_of ''true'' @ rest) (lit (bytes_of ''null'')) 4 = Inr False"
    "strncmp_eq (bytes_of ''true'' @ rest) (lit (bytes_of ''false'')) 5 = Inr False"
    by (simp_all add: lit_def strncmp_first)
  show "parse_value (Suc f) item (bytes_of ''null'' @ rest) =
      Inr (Parsed (Node (item\<lparr>item_type := cJSON_NULL\<rparr>) []) rest)"
    "parse_value (Suc f) item (bytes_of ''false'' @ rest) =
      Inr (Parsed (Node (item\<lparr>item_type := cJSON_False\<rparr>) []) rest)"
    "parse_value (Suc f) item (bytes_of ''true'' @ rest) =
      Inr (Parsed (Node (item\<lparr>item_type := cJSON_True, valueint := 1\<rparr>) []) rest)"
    unfolding parse_value.simps n o d bindR_simps by (simp_all only: if_True if_False)
qed

lemma parse_value_other:
  assumes "c \<notin> {110, 102, 116}"
  shows "parse_value (Suc f) item (c # s) =
    (if c = 34 then bindP (parse_string item (c # s)) (\<lambda>item v. Inr (Parsed (Node item []) v))
     else if c = 45 \<or> is_digit c then bindP (parse_number item (c # s)) (\<lambda>item v. Inr (Parsed (Node item []) v))
     else if c = 91 then parse_array (parse_value f) f item (c # s)
     else if c = 123 then parse_object (parse_value f) f item (c # s)
     else Inr (Failed (c # s)))"
  using assms by (simp add: lit_def strncmp_first rd_def)

lemma parse_members_skips:
  assumes "blank ws" and "visible v"
  shows "parse_members pv fuel acc v = parse_members pv fuel acc (ws @ v)"
  using assms by (cases fuel) (simp_all add: skipped_blank, simp add: skipped_def skip_visible)

lemma print_int_first:
  obtains x s where "print_int v = x # s" and "x = 45 \<or> is_digit x"
proof (cases "v < 0")
  case False
  obtain d ds where "digits (nat v) = d # ds" by (cases "digits (nat v)") auto
  with digits_is_digit [of "nat v"] False that show thesis by (auto simp: print_int_def)
qed (use that in \<open>auto simp: print_int_def\<close>)

text \<open>A printed value begins with a character that no array and no object ends with.\<close>

lemma render_first:
  assumes "json_ok c" and "integers_only c"
  shows "\<exists>x s. json_render fmt d c = x # s \<and> \<not> x \<le> 32 \<and> x \<noteq> 93 \<and> x \<noteq> 125"
proof (cases c)
  case (Node i cs)
  obtain x s where "print_int (valueint i) = x # s" and x: "x = 45 \<or> is_digit x"
    by (rule print_int_first)
  moreover have "\<not> x \<le> 32 \<and> x \<noteq> 93 \<and> x \<noteq> 125"
    using x by (auto simp: is_digit_def word_le_nat_alt)
  ultimately show ?thesis
    using Node assms by (auto simp: print_int_number string_bytes_def)
qed

lemma render_visible: "json_ok c \<Longrightarrow> integers_only c \<Longrightarrow> visible (json_render fmt d c)"
  using render_first [of c fmt d] by (auto simp: visible_def)

lemma reads_valueI:
  assumes "visible (r c)"
    and "\<And>item rest. valuestring item = None \<Longrightarrow> ends_value rest \<Longrightarrow>
      \<exists>c'. pv item (r c @ rest) = Inr (Parsed c' rest) \<and> json_view c' = json_view c \<and> name_of c' = item_string item"
  shows "reads_value pv r c"
  using assms by (simp add: reads_value_def)

lemma parse_value_render:
  assumes "json_ok c" and "integers_only c" and "length (json_render fmt d c) < fuel"
  shows "reads_value (parse_value fuel) (json_render fmt d) c"
  using assms
proof (induction c arbitrary: d fuel)
  case (Node i cs)
  then obtain f where f: "fuel = Suc f" by (cases fuel) auto
  have item: "item_ok i cs" and cs: "list_all json_ok cs" "list_all integers_only cs"
    using Node.prems by simp_all
  show ?case
  proof (rule reads_valueI, rule render_visible [OF Node.prems(1,2)])
    fix item :: item and rest
    assume none: "valuestring item = None" and rest: "ends_value rest"
    let ?r = "json_render fmt d (Node i cs)"
    consider "item_type i = cJSON_NULL" | "item_type i = cJSON_False" | "item_type i = cJSON_True"
      | "item_type i = cJSON_Number" | "item_type i = cJSON_String" | "item_type i = cJSON_Array"
      | "item_type i = cJSON_Object"
    proof -
      have "item_type i \<le> 6" using item by (simp add: item_ok_def)
      then show thesis using that unfolding type_codes by (auto simp: le_Suc_eq numeral_eq_Suc)
    qed
    then show "\<exists>c'. parse_value fuel item (?r @ rest) = Inr (Parsed c' rest) \<and>
        json_view c' = json_view (Node i cs) \<and> name_of c' = item_string item"
    proof cases
      case 1
      then have "?r = bytes_of ''null''" by (simp add: type_simps)
      then show ?thesis using 1 by (simp only: f parse_value_words) (simp add: type_simps)
    next
      case 2
      then have "?r = bytes_of ''false''" by (simp add: type_simps)
      then show ?thesis using 2 by (simp only: f parse_value_words) (simp add: type_simps)
    next
      case 3
      then have "?r = bytes_of ''true''" by (simp add: type_simps)
      then show ?thesis using 3 by (simp only: f parse_value_words) (simp add: type_simps)
    next
      case 4
      then have num: "int_number i" using Node.prems(2) by simp
      then have r: "?r = print_int (valueint i)" using 4 by (simp add: type_simps print_int_number)
      obtain x s where x: "print_int (valueint i) = x # s" "x = 45 \<or> is_digit x"
        using print_int_first by blast
      then have "x \<notin> {110, 102, 116}" "x \<noteq> 34" by (auto simp: is_digit_def)
      moreover have "parse_number item (print_int (valueint i) @ rest) = Inr (Parsed
          (item\<lparr>valuedouble := \<lparr>coef = valueint i, expo = 0\<rparr>, valueint := valueint i, item_type := cJSON_Number\<rparr>) rest)"
        by (rule parse_print_int [OF rest]) (use num in \<open>simp_all add: int_number_def\<close>)
      ultimately show ?thesis
        using x num 4 unfolding r f
        by (simp add: parse_value_other type_simps int_number_def del: parse_value.simps)
    next
      case 5
      with item obtain w where w: "valuestring i = Some (w @ [0])" "c_content w"
        by (auto simp: item_ok_def c_string_iff split: option.splits)
      have r: "?r = string_bytes w" using 5 w by (simp add: type_simps string_value_def)
      have "string_bytes w = 34 # concat (map escape_char w) @ [34]" by (simp add: string_bytes_def)
      with parse_string_bytes [OF w(2), of item rest] show ?thesis
        using 5 w unfolding r f
        by (simp add: parse_value_other type_simps string_value_def del: parse_value.simps)
    next
      case 6
      let ?sep = "44 # (if fmt then [32] else [])" and ?r' = "json_render fmt (d + 1)"
      have r: "?r = 91 # separated ?sep (map ?r' cs) @ [93]" using 6 by (simp add: type_simps)
      have array: "parse_value (Suc f) item (91 # s) = parse_array (parse_value f) f item (91 # s)" for s
        using parse_value_other [of 91] by (simp add: is_digit_def del: parse_value.simps)
      show ?thesis
      proof (cases "cs = []")
        case True
        with 6 show ?thesis
          unfolding f r by (simp add: array parse_array_def rd_def skipped_def type_simps del: parse_value.simps)
      next
        case False
        have len: "length (separated ?sep (map ?r' cs)) < f" using Node.prems(3) f unfolding r by simp
        have "list_all (\<lambda>w. w \<noteq> []) (map ?r' cs)"
          using cs render_first [of _ fmt "d + 1"] by (fastforce simp: list_all_iff)
        from separated_length [OF this, of ?sep] len have "length cs \<le> f" by simp
        have reads: "list_all (reads_value (parse_value f) ?r') cs"
          unfolding list_all_iff
        proof
          fix c assume c: "c \<in> set cs"
          then have "length (?r' c) \<le> length (separated ?sep (map ?r' cs))" by (intro separated_member) simp
          with len Node.IH [OF c, of "d + 1" f] cs c show "reads_value (parse_value f) ?r' c"
            by (auto simp: list_all_iff)
        qed
        have "blank (if fmt then [32] else [])" by simp
        from parse_elements_render [OF reads False \<open>length cs \<le> f\<close> _ this, of "[]" "[]" rest]
        obtain cs' where cs': "parse_elements (parse_value f) f [] (separated ?sep (map ?r' cs) @ 93 # rest) =
            Inr (Parsed cs' rest)" "map json_view cs' = map json_view cs" by auto
        obtain x s where x: "separated ?sep (map ?r' cs) = x # s" "\<not> x \<le> 32" "x \<noteq> 93"
        proof -
          obtain c cs1 where "cs = c # cs1" using False by (cases cs) auto
          moreover obtain x s where "?r' c = x # s" "\<not> x \<le> 32" "x \<noteq> 93"
            using render_first [of c fmt "d + 1"] cs calculation by auto
          ultimately show thesis using that by (cases cs1) auto
        qed
        have "parse_value (Suc f) item (?r @ rest) =
            Inr (Parsed (Node (item\<lparr>item_type := cJSON_Array\<rparr>) cs') rest)"
          using cs'(1) x unfolding r
          by (simp add: array parse_array_def rd_def skipped_def Let_def del: parse_value.simps)
        with 6 cs'(2) show ?thesis unfolding f by (simp add: type_simps del: parse_value.simps)
      qed
    next
      case 7
      let ?r' = "json_render fmt (d + 1)" and ?nl = "newline fmt"
      let ?m = "\<lambda>c. member_bytes fmt (d + 1) (name_bytes c) (?r' c)"
      have object: "parse_value (Suc f) item (123 # s) = parse_object (parse_value f) f item (123 # s)" for s
        using parse_value_other [of 123] by (simp add: is_digit_def del: parse_value.simps)
      show ?thesis
      proof (cases "cs = []")
        case True
        then have r: "?r = 123 # ?nl @ tabs fmt (d - 1) @ [125]" using 7 by (simp add: type_simps)
        have "skip ((?nl @ tabs fmt (d - 1)) @ 125 # rest) = Inr (125 # rest)"
          by (rule skip_blank) (simp_all add: visible_def)
        with 7 True show ?thesis
          unfolding f r by (simp add: object parse_object_def rd_def skipped_def type_simps del: parse_value.simps)
      next
        case False
        then have r: "?r = 123 # ?nl @ separated (44 # ?nl) (map ?m cs) @ ?nl @ tabs fmt d @ [125]"
          using 7 by (simp add: type_simps)
        have len: "length (separated (44 # ?nl) (map ?m cs)) < f" using Node.prems(3) f unfolding r by simp
        have "list_all (\<lambda>w. w \<noteq> []) (map ?m cs)" by (simp add: list_all_iff member_bytes_def)
        from separated_length [OF this, of "44 # ?nl"] len have "length cs \<le> f" by simp
        have reads: "list_all (\<lambda>c. reads_value (parse_value f) ?r' c \<and> c_content (name_bytes c)) cs"
          unfolding list_all_iff
        proof
          fix c assume c: "c \<in> set cs"
          then have "length (?m c) \<le> length (separated (44 # ?nl) (map ?m cs))" by (intro separated_member) simp
          moreover have "length (?r' c) \<le> length (?m c)" by (simp add: member_bytes_def)
          moreover have "c_content (name_bytes c)"
          proof -
            have "case name_of c of None \<Rightarrow> False | Some s \<Rightarrow> c_string s"
              using item 7 c by (simp add: item_ok_def list_all_iff)
            then show ?thesis by (auto simp: name_bytes_def c_string_iff split: option.splits)
          qed
          ultimately show "reads_value (parse_value f) ?r' c \<and> c_content (name_bytes c)"
            using len Node.IH [OF c, of "d + 1" f] cs c by (auto simp: list_all_iff)
        qed
        let ?close = "?nl @ tabs fmt d"
        have ends: "blank ?close" "?close = [] \<or> hd ?close = 10" by (simp, simp add: newline_def tabs_def)
        from parse_members_render [OF reads False \<open>length cs \<le> f\<close> _ _ ends, of ?nl ?nl "[]" fmt "d + 1" rest]
        obtain cs' where cs': "parse_members (parse_value f) f []
              (?nl @ separated (44 # ?nl) (map ?m cs) @ ?close @ 125 # rest) = Inr (Parsed cs' rest)"
            "map (\<lambda>c. (name_bytes c, json_view c)) cs' = map (\<lambda>c. (name_bytes c, json_view c)) cs" by auto
        obtain y where y: "separated (44 # ?nl) (map ?m cs) = tabs fmt (d + 1) @ 34 # y"
        proof -
          obtain c cs1 where "cs = c # cs1" using False by (cases cs) auto
          then show thesis using that
            by (cases cs1) (auto simp: member_bytes_def string_bytes_def)
        qed
        let ?y = "34 # y @ ?close @ 125 # rest"
        have "visible ?y" by (simp add: visible_def)
        then have skip: "skip ((?nl @ tabs fmt (d + 1)) @ ?y) = Inr ?y"
          and members: "parse_members (parse_value f) f [] ?y =
            parse_members (parse_value f) f [] ((?nl @ tabs fmt (d + 1)) @ ?y)"
          by (intro skip_blank parse_members_skips; simp)+
        have "parse_value (Suc f) item (?r @ rest) =
            Inr (Parsed (Node (item\<lparr>item_type := cJSON_Object\<rparr>) cs') rest)"
          using cs'(1) skip members unfolding r y
          by (simp add: object parse_object_def rd_def skipped_def Let_def del: parse_value.simps)
        with 7 cs'(2) show ?thesis unfolding f by (simp add: type_simps del: parse_value.simps)
      qed
    qed
  qed
qed

lemma parse_printed:
  assumes "json_ok c" and "integers_only c" and "length (json_render fmt d c) < fuel"
  shows "\<exists>c'. cJSON_Parse fuel (json_render fmt d c @ 0 # r) = Inr (Parsed c' (0 # r)) \<and> json_view c' = json_view c"
proof -
  from parse_value_render [OF assms] have "reads_value (parse_value fuel) (json_render fmt d) c" .
  from reads_valueD [OF this, of cJSON_New_Item "0 # r"] obtain c' where
    "parse_value fuel cJSON_New_Item (json_render fmt d c @ 0 # r) = Inr (Parsed c' (0 # r))" "json_view c' = json_view c"
    by (auto simp: ends_value_def)
  with skip_visible [OF visible_append [OF render_visible [OF assms(1,2), of fmt d], of "0 # r"]] show ?thesis
    by (simp add: cJSON_Parse_def cJSON_ParseWithOpts_def skipped_def)
qed



end
