(* ===== verification/CJsonTree.thy ===== *)
theory CJsonTree
  imports CJsonRound
begin

text \<open>
  The operations of \<^verbatim>\<open>common/cJSON.c\<close> on trees: looking up, creating, adding, detaching and
  replacing items, copying a tree, and \<open>cJSON_Minify\<close> on a text. An operation that changes an array or an
  object returns it changed. References to nodes, and what is freed, are in \<open>CJsonMemory\<close>.
\<close>

section \<open>Looking up\<close>

definition tolower :: "byte \<Rightarrow> byte" where
  "tolower c = (if 65 \<le> c \<and> c \<le> 90 then c + 32 else c)"

fun strcasecmp_loop :: "byte list \<Rightarrow> byte list \<Rightarrow> bool res" where
  "strcasecmp_loop (a # s1) (b # s2) =
     (if tolower a \<noteq> tolower b then Inr False else if a = 0 then Inr True else strcasecmp_loop s1 s2)"
| "strcasecmp_loop _ _ = Inl OobRead"

text \<open>\<open>cJSON_strcasecmp(s1, s2) == 0\<close>; two null pointers are equal.\<close>

definition cJSON_strcasecmp :: "byte list option \<Rightarrow> byte list option \<Rightarrow> bool res" where
  "cJSON_strcasecmp s1 s2 =
     (case s1 of
        None \<Rightarrow> Inr (s2 = None)
      | Some s1 \<Rightarrow> (case s2 of None \<Rightarrow> Inr False | Some s2 \<Rightarrow> strcasecmp_loop s1 s2))"

definition cJSON_GetArraySize :: "cJSON \<Rightarrow> nat" where
  "cJSON_GetArraySize array = length (child array)"

text \<open>An index that is not positive gives the first item.\<close>

definition cJSON_GetArrayItem :: "cJSON \<Rightarrow> int \<Rightarrow> cJSON option" where
  "cJSON_GetArrayItem array item =
     (case drop (nat item) (child array) of [] \<Rightarrow> None | c # _ \<Rightarrow> Some c)"

text \<open>The loop over the children, with the number of items before the one that is found.\<close>

fun find_item :: "cJSON list \<Rightarrow> byte list option \<Rightarrow> nat \<Rightarrow> (nat \<times> cJSON) option res" where
  "find_item [] string i = Inr None"
| "find_item (c # cs) string i =
     bindR (cJSON_strcasecmp (name_of c) string) (\<lambda>eq.
       if eq then Inr (Some (i, c)) else find_item cs string (Suc i))"

definition cJSON_GetObjectItem :: "cJSON \<Rightarrow> byte list option \<Rightarrow> cJSON option res" where
  "cJSON_GetObjectItem object string =
     bindR (find_item (child object) string 0) (\<lambda>r. Inr (map_option snd r))"

section \<open>Creating\<close>

definition of_type :: "nat \<Rightarrow> cJSON" where
  "of_type t = Node (cJSON_New_Item\<lparr>item_type := t\<rparr>) []"

definition cJSON_CreateNull :: cJSON where "cJSON_CreateNull = of_type cJSON_NULL"
definition cJSON_CreateTrue :: cJSON where "cJSON_CreateTrue = of_type cJSON_True"
definition cJSON_CreateFalse :: cJSON where "cJSON_CreateFalse = of_type cJSON_False"
definition cJSON_CreateArray :: cJSON where "cJSON_CreateArray = of_type cJSON_Array"
definition cJSON_CreateObject :: cJSON where "cJSON_CreateObject = of_type cJSON_Object"

definition cJSON_CreateBool :: "bool \<Rightarrow> cJSON" where
  "cJSON_CreateBool b = of_type (if b then cJSON_True else cJSON_False)"

definition cJSON_CreateNumber :: "number \<Rightarrow> cJSON" where
  "cJSON_CreateNumber num =
     Node (cJSON_New_Item\<lparr>item_type := cJSON_Number, valuedouble := num, valueint := trunc_number num\<rparr>) []"

text \<open>\<open>cJSON_strdup\<close> of a null pointer is a fault, in \<open>strlen\<close>.\<close>

definition cJSON_strdup :: "byte list option \<Rightarrow> byte list res" where
  "cJSON_strdup str =
     (case str of None \<Rightarrow> Inl NullDeref | Some s \<Rightarrow> bindR (strlen s) (\<lambda>n. Inr (take (n + 1) s)))"

definition cJSON_CreateString :: "byte list option \<Rightarrow> cJSON res" where
  "cJSON_CreateString string =
     bindR (cJSON_strdup string) (\<lambda>s.
       Inr (Node (cJSON_New_Item\<lparr>item_type := cJSON_String, valuestring := Some s\<rparr>) []))"

text \<open>The four functions that create an array of numbers or strings, over the values of its elements\<close>

definition cJSON_CreateIntArray :: "int list \<Rightarrow> cJSON" where
  "cJSON_CreateIntArray numbers =
     Node (fields cJSON_CreateArray) (map (\<lambda>n. cJSON_CreateNumber \<lparr>coef = n, expo = 0\<rparr>) numbers)"

definition cJSON_CreateDoubleArray :: "number list \<Rightarrow> cJSON" where
  "cJSON_CreateDoubleArray numbers = Node (fields cJSON_CreateArray) (map cJSON_CreateNumber numbers)"

fun create_strings :: "byte list option list \<Rightarrow> cJSON list res" where
  "create_strings [] = Inr []"
| "create_strings (s # ss) =
     bindR (cJSON_CreateString s) (\<lambda>n. bindR (create_strings ss) (\<lambda>ns. Inr (n # ns)))"

definition cJSON_CreateStringArray :: "byte list option list \<Rightarrow> cJSON res" where
  "cJSON_CreateStringArray strings =
     bindR (create_strings strings) (\<lambda>ns. Inr (Node (fields cJSON_CreateArray) ns))"

section \<open>Adding, detaching and replacing\<close>

definition with_children :: "cJSON \<Rightarrow> (cJSON list \<Rightarrow> cJSON list) \<Rightarrow> cJSON" where
  "with_children array f = Node (fields array) (f (child array))"

definition cJSON_AddItemToArray :: "cJSON \<Rightarrow> cJSON option \<Rightarrow> cJSON" where
  "cJSON_AddItemToArray array item =
     (case item of None \<Rightarrow> array | Some item \<Rightarrow> with_children array (\<lambda>cs. cs @ [item]))"

definition cJSON_AddItemToObject :: "cJSON \<Rightarrow> byte list option \<Rightarrow> cJSON option \<Rightarrow> cJSON res" where
  "cJSON_AddItemToObject object string item =
     (case item of
        None \<Rightarrow> Inr object
      | Some (Node i cs) \<Rightarrow>
          bindR (cJSON_strdup string) (\<lambda>s.
            Inr (cJSON_AddItemToArray object (Some (Node (i\<lparr>item_string := Some s\<rparr>) cs)))))"

definition cJSON_StringIsConst :: nat where "cJSON_StringIsConst = 512"

definition cJSON_AddItemToObjectCS :: "cJSON \<Rightarrow> byte list option \<Rightarrow> cJSON option \<Rightarrow> cJSON" where
  "cJSON_AddItemToObjectCS object string item =
     (case item of
        None \<Rightarrow> object
      | Some (Node i cs) \<Rightarrow>
          cJSON_AddItemToArray object
            (Some (Node (i\<lparr>item_string := string, item_type := item_type i OR cJSON_StringIsConst\<rparr>) cs)))"

definition cJSON_DetachItemFromArray :: "cJSON \<Rightarrow> int \<Rightarrow> cJSON \<times> cJSON option" where
  "cJSON_DetachItemFromArray array which =
     (case drop (nat which) (child array) of
        [] \<Rightarrow> (array, None)
      | c # cs \<Rightarrow> (with_children array (\<lambda>_. take (nat which) (child array) @ cs), Some c))"

definition cJSON_DeleteItemFromArray :: "cJSON \<Rightarrow> int \<Rightarrow> cJSON" where
  "cJSON_DeleteItemFromArray array which = fst (cJSON_DetachItemFromArray array which)"

definition cJSON_DetachItemFromObject :: "cJSON \<Rightarrow> byte list option \<Rightarrow> (cJSON \<times> cJSON option) res" where
  "cJSON_DetachItemFromObject object string =
     bindR (find_item (child object) string 0) (\<lambda>r. case r of
         None \<Rightarrow> Inr (object, None)
       | Some (i, c) \<Rightarrow> Inr (cJSON_DetachItemFromArray object (int i)))"

definition cJSON_DeleteItemFromObject :: "cJSON \<Rightarrow> byte list option \<Rightarrow> cJSON res" where
  "cJSON_DeleteItemFromObject object string =
     bindR (cJSON_DetachItemFromObject object string) (\<lambda>r. Inr (fst r))"

definition cJSON_InsertItemInArray :: "cJSON \<Rightarrow> int \<Rightarrow> cJSON \<Rightarrow> cJSON" where
  "cJSON_InsertItemInArray array which newitem =
     (case drop (nat which) (child array) of
        [] \<Rightarrow> cJSON_AddItemToArray array (Some newitem)
      | c # cs \<Rightarrow> with_children array (\<lambda>_. take (nat which) (child array) @ newitem # c # cs))"

definition cJSON_ReplaceItemInArray :: "cJSON \<Rightarrow> int \<Rightarrow> cJSON \<Rightarrow> cJSON" where
  "cJSON_ReplaceItemInArray array which newitem =
     (case drop (nat which) (child array) of
        [] \<Rightarrow> array
      | c # cs \<Rightarrow> with_children array (\<lambda>_. take (nat which) (child array) @ newitem # cs))"

definition cJSON_ReplaceItemInObject :: "cJSON \<Rightarrow> byte list option \<Rightarrow> cJSON \<Rightarrow> cJSON res" where
  "cJSON_ReplaceItemInObject object string newitem =
     bindR (find_item (child object) string 0) (\<lambda>r. case r of
         None \<Rightarrow> Inr object
       | Some (i, c) \<Rightarrow>
           bindR (cJSON_strdup string) (\<lambda>s.
             Inr (cJSON_ReplaceItemInArray object (int i)
               (Node ((fields newitem)\<lparr>item_string := Some s\<rparr>) (child newitem)))))"

section \<open>Copying\<close>

definition cJSON_IsReference :: nat where "cJSON_IsReference = 256"

text \<open>The copy of an optional string; a null pointer stays one.\<close>

definition dup_string :: "byte list option \<Rightarrow> byte list option res" where
  "dup_string s = (case s of None \<Rightarrow> Inr None | Some _ \<Rightarrow> bindR (cJSON_strdup s) (\<lambda>t. Inr (Some t)))"

definition dup_item :: "item \<Rightarrow> item res" where
  "dup_item i =
     bindR (dup_string (valuestring i)) (\<lambda>v.
     bindR (dup_string (item_string i)) (\<lambda>s.
     Inr (i\<lparr>item_type := (if bit (item_type i) 8 then item_type i - cJSON_IsReference else item_type i),
            valuestring := v, item_string := s\<rparr>)))"

fun cJSON_Duplicate :: "cJSON \<Rightarrow> bool \<Rightarrow> cJSON res"
  and duplicate_children :: "cJSON list \<Rightarrow> cJSON list res" where
  "cJSON_Duplicate (Node i cs) recurse =
     bindR (dup_item i) (\<lambda>i.
       if \<not> recurse then Inr (Node i [])
       else bindR (duplicate_children cs) (\<lambda>cs. Inr (Node i cs)))"
| "duplicate_children [] = Inr []"
| "duplicate_children (c # cs) =
     bindR (cJSON_Duplicate c True) (\<lambda>c. bindR (duplicate_children cs) (\<lambda>cs. Inr (c # cs)))"

section \<open>Removing the white space of a text\<close>

text \<open>To the end of a line, and to the end of a comment; the loops stop at a terminator.\<close>

fun skip_line :: "byte list \<Rightarrow> byte list res" where
  "skip_line [] = Inl OobRead"
| "skip_line (c # s) = (if c \<noteq> 0 \<and> c \<noteq> 10 then skip_line s else Inr (c # s))"

fun skip_comment :: "byte list \<Rightarrow> byte list res" where
  "skip_comment [] = Inl OobRead"
| "skip_comment (c # s) =
     (if c = 0 then Inr (c # s)
      else if c = 42 then bindR (rd s 0) (\<lambda>d. if d = 47 then Inr (c # s) else skip_comment s)
      else skip_comment s)"

text \<open>A string literal after its first quote: the bytes up to the quote, and what follows.\<close>

fun minify_string :: "byte list \<Rightarrow> (byte list \<times> byte list) res" where
  "minify_string [] = Inl OobRead"
| "minify_string (c # s) =
     (if c = 0 \<or> c = 34 then Inr ([c], s)
      else if c = 92 then
        (case s of
           [] \<Rightarrow> Inl OobRead
         | d # t \<Rightarrow> bindR (minify_string t) (\<lambda>(w, r). Inr (c # d # w, r)))
      else bindR (minify_string s) (\<lambda>(w, r). Inr (c # w, r)))"

lemma skip_line_length: "skip_line s = Inr r \<Longrightarrow> length r \<le> length s"
  by (induction s) (auto split: if_splits)

lemma skip_comment_length: "skip_comment s = Inr r \<Longrightarrow> length r \<le> length s"
  by (induction s) (auto simp: bindR_eq_Inr_iff split: if_splits)

lemma minify_string_length: "minify_string s = Inr (w, r) \<Longrightarrow> length r < length s"
  by (induction s arbitrary: w r rule: minify_string.induct)
    (fastforce simp: bindR_eq_Inr_iff split: if_splits list.splits)+

text \<open>
  The bytes that \<open>into\<close> receives. It never overtakes \<open>json\<close>, so that the part of the text that is still to
  be read is unchanged.
\<close>

function minify :: "byte list \<Rightarrow> byte list res" where
  "minify [] = Inl OobRead"
| "minify (c # s) =
     (if c = 0 then Inr []
      else if c \<in> {32, 9, 13, 10} then minify s
      else if c = 34 then bindR (minify_string s) (\<lambda>(w, r). bindR (minify r) (\<lambda>v. Inr (c # w @ v)))
      else if c = 47 then
        bindR (rd s 0) (\<lambda>d.
          if d = 47 then bindR (skip_line s) minify
          else if d = 42 then bindR (skip_comment s) (\<lambda>r. minify (drop 2 r))
          else bindR (minify s) (\<lambda>v. Inr (c # v)))
      else bindR (minify s) (\<lambda>v. Inr (c # v)))"
  by pat_completeness auto
termination
  by (relation "measure length")
    (auto dest: skip_line_length skip_comment_length minify_string_length simp: less_Suc_eq_le)

definition cJSON_Minify :: "byte list \<Rightarrow> byte list res" where
  "cJSON_Minify json = bindR (minify json) (\<lambda>v. Inr (v @ 0 # drop (length v + 1) json))"

section \<open>What looking up finds\<close>

text \<open>Equality up to upper and lower case\<close>

definition same_name :: "byte list \<Rightarrow> byte list \<Rightarrow> bool" where
  "same_name a b \<longleftrightarrow> map tolower a = map tolower b"

lemma tolower_zero [simp]: "tolower c = 0 \<longleftrightarrow> c = 0" "0 = tolower c \<longleftrightarrow> c = 0" "tolower 0 = 0"
proof -
  have "c + 32 \<noteq> 0" if "65 \<le> c \<and> c \<le> 90" for c :: byte
    using that by unat_arith auto
  then have *: "tolower c = 0 \<longleftrightarrow> c = 0" for c by (auto simp: tolower_def)
  show "tolower c = 0 \<longleftrightarrow> c = 0" "tolower 0 = 0" by (simp_all add: *)
  show "0 = tolower c \<longleftrightarrow> c = 0" using * by metis
qed

lemma strcasecmp_spec:
  "c_content a \<Longrightarrow> c_content b \<Longrightarrow> strcasecmp_loop (a @ 0 # r) (b @ 0 # q) = Inr (same_name a b)"
proof (induction a arbitrary: b)
  case Nil
  then show ?case by (cases b) (auto simp: same_name_def)
next
  case (Cons x a)
  then show ?case by (cases b) (auto simp: same_name_def tolower_zero)
qed

lemma strcasecmp_names:
  assumes "c_string a" and "c_content b"
  shows "cJSON_strcasecmp (Some a) (Some (b @ 0 # r)) = Inr (same_name (butlast a) b)"
  using assms strcasecmp_spec [of "butlast a" b "[]" r]
  by (auto simp: cJSON_strcasecmp_def c_string_iff)

definition named :: "cJSON list \<Rightarrow> bool" where
  "named cs \<longleftrightarrow> list_all (\<lambda>c. case name_of c of None \<Rightarrow> False | Some s \<Rightarrow> c_string s) cs"

lemma find_item_spec:
  assumes "named cs" and "c_content key"
  shows "find_item cs (Some (key @ 0 # r)) i =
    Inr (map_option (\<lambda>k. (i + k, cs ! k)) (find (\<lambda>k. same_name (name_bytes (cs ! k)) key) [0..<length cs]))"
  using assms
proof (induction cs arbitrary: i)
  case (Cons c cs)
  then obtain s where s: "name_of c = Some s" "c_string s" by (auto simp: named_def split: option.splits)
  have shift: "find P [0..<Suc n] = (if P 0 then Some 0 else map_option Suc (find (\<lambda>k. P (Suc k)) [0..<n]))" for P n
  proof -
    have "find P (map Suc xs) = map_option Suc (find (\<lambda>k. P (Suc k)) xs)" for xs
      by (induction xs) auto
    then show ?thesis by (simp add: upt_conv_Cons flip: map_Suc_upt del: upt_Suc)
  qed
  from Cons s show ?case
    by (simp add: strcasecmp_names name_bytes_def shift named_def option.map_comp comp_def del: upt_Suc)
qed simp

lemma lookup_object:
  assumes "json_ok c" and "item_type (fields c) = cJSON_Object" and "c_content key"
  shows "cJSON_GetObjectItem c (Some (key @ 0 # r)) =
    Inr (find (\<lambda>m. same_name (name_bytes m) key) (child c))"
proof -
  obtain i cs where c: "c = Node i cs" by (cases c)
  have "named cs" using assms(1,2) c by (simp add: item_ok_def named_def)
  from find_item_spec [OF this assms(3)]
  have "cJSON_GetObjectItem c (Some (key @ 0 # r)) =
      Inr (map_option (\<lambda>k. cs ! k) (find (\<lambda>k. same_name (name_bytes (cs ! k)) key) [0..<length cs]))"
    by (simp add: cJSON_GetObjectItem_def c option.map_comp comp_def)
  moreover have "map_option (\<lambda>k. cs ! k) (find (\<lambda>k. P (cs ! k)) [0..<length cs]) = find P cs" for P
  proof -
    have "map_option f (find (\<lambda>k. P (f k)) xs) = find P (map f xs)" for f :: "nat \<Rightarrow> cJSON" and xs
      by (induction xs) auto
    from this [of "(!) cs" "[0..<length cs]"] show ?thesis by (simp add: map_nth)
  qed
  ultimately show ?thesis by (simp add: c)
qed

text \<open>
  Looking a name up in an object finds the first member whose name is the same up to upper and lower
  case, and never reads behind a name.
\<close>

theorem cJSON_GetObjectItem_spec:
  assumes "json_ok c" and "item_type (fields c) = cJSON_Object" and "c_content key"
  shows "cJSON_GetObjectItem c (Some (key @ 0 # r)) =
    Inr (find (\<lambda>m. same_name (name_bytes m) key) (child c))"
  by (rule lookup_object [OF assms])

theorem cJSON_GetObjectItem_spec_witness:
  "cJSON_GetObjectItem sample_tree (Some ([65] @ 0 # [])) =
    Inr (find (\<lambda>m. same_name (name_bytes m) [65]) (child sample_tree)) \<and>
   find (\<lambda>m. same_name (name_bytes m) [65]) (child sample_tree) = Some (hd (child sample_tree))"
proof (rule conjI [OF cJSON_GetObjectItem_spec])
  show "json_ok sample_tree" by (rule sample_tree_ok)
qed (simp_all add: sample_tree_def same_name_def name_bytes_def tolower_def)

section \<open>What adding, detaching and replacing do\<close>

lemma strdup_string: "c_string s \<Longrightarrow> cJSON_strdup (Some s) = Inr s"
  by (auto simp: c_string_iff cJSON_strdup_def dest: strlen_content [of _ "[]"])

lemma item_ok_name [simp]: "item_ok (i\<lparr>item_string := x\<rparr>) cs = item_ok i cs"
  by (simp add: item_ok_def cong: option.case_cong)

lemma json_ok_add:
  assumes "json_ok c" and "item_type (fields c) = cJSON_Object" and "json_ok (Node i cs)" and "c_string s"
  shows "json_ok (cJSON_AddItemToArray c (Some (Node (i\<lparr>item_string := Some s\<rparr>) cs)))"
  using assms
proof -
  obtain k ks where c: "c = Node k ks" by (cases c)
  with assms(1,2) have "item_ok k ks" "list_all json_ok ks" "item_type k = cJSON_Object" by simp_all
  moreover from this assms(4) have "item_ok k (ks @ [Node (i\<lparr>item_string := Some s\<rparr>) cs])"
    by (simp add: item_ok_def)
  ultimately show ?thesis using assms(3) c by (simp add: cJSON_AddItemToArray_def with_children_def)
qed

lemma find_snoc: "find P (xs @ [x]) = (case find P xs of None \<Rightarrow> if P x then Some x else None | Some y \<Rightarrow> Some y)"
  by (induction xs) auto

text \<open>
  C36: adding a well-formed item to an object under a name keeps the object well formed. The item is
  found under that name, in any case of its letters, unless an earlier member has it already; all other
  lookups are unchanged.
\<close>

theorem cJSON_AddItemToObject_spec:
  assumes "json_ok c" and "item_type (fields c) = cJSON_Object" and "json_ok (Node i cs)" and "c_string s"
    and "c_content key"
  shows "\<exists>c'. cJSON_AddItemToObject c (Some s) (Some (Node i cs)) = Inr c' \<and> json_ok c' \<and>
    item_type (fields c') = cJSON_Object \<and>
    cJSON_GetObjectItem c' (Some (key @ 0 # r)) =
      Inr (case find (\<lambda>m. same_name (name_bytes m) key) (child c) of
             Some m \<Rightarrow> Some m
           | None \<Rightarrow> if same_name (butlast s) key then Some (Node (i\<lparr>item_string := Some s\<rparr>) cs) else None)"
proof -
  let ?m = "Node (i\<lparr>item_string := Some s\<rparr>) cs"
  let ?c = "cJSON_AddItemToArray c (Some ?m)"
  have add: "cJSON_AddItemToObject c (Some s) (Some (Node i cs)) = Inr ?c"
    using assms(4) by (simp add: cJSON_AddItemToObject_def strdup_string)
  have ok: "json_ok ?c" by (rule json_ok_add [OF assms(1-4)])
  have children: "child ?c = child c @ [?m]" and type: "item_type (fields ?c) = cJSON_Object"
    using assms(2) by (simp_all add: cJSON_AddItemToArray_def with_children_def)
  have "name_bytes ?m = butlast s" by (simp add: name_bytes_def)
  with add ok type lookup_object [OF ok type assms(5)] show ?thesis
    by (simp add: children find_snoc split: option.splits)
qed

theorem cJSON_AddItemToObject_spec_witness:
  "\<exists>c'. cJSON_AddItemToObject sample_tree (Some [66, 0]) (Some (Node cJSON_New_Item [])) = Inr c' \<and> json_ok c' \<and>
    item_type (fields c') = cJSON_Object \<and>
    cJSON_GetObjectItem c' (Some ([98] @ 0 # [])) =
      Inr (case find (\<lambda>m. same_name (name_bytes m) [98]) (child sample_tree) of
             Some m \<Rightarrow> Some m
           | None \<Rightarrow> if same_name (butlast [66, 0]) [98]
               then Some (Node (cJSON_New_Item\<lparr>item_string := Some [66, 0]\<rparr>) []) else None)"
  by (rule cJSON_AddItemToObject_spec [OF sample_tree_ok(1)])
    (simp_all add: sample_tree_def cJSON_New_Item_def item_ok_def type_simps c_string_def)

lemma drop_cases:
  obtains "length xs \<le> n" "drop n xs = []" | "n < length xs" "drop n xs = xs ! n # drop (Suc n) xs"
  by (cases "n < length xs") (auto simp: Cons_nth_drop_Suc)

lemma GetArrayItem_nth:
  "cJSON_GetArrayItem array w = (if nat w < length (child array) then Some (child array ! nat w) else None)"
  by (cases rule: drop_cases [of "child array" "nat w"]) (simp_all add: cJSON_GetArrayItem_def)

text \<open>
  The operations on the items of an array, for an index inside it: replacing is the update of the
  list, detaching gives the item and the list without it, inserting puts the item before the one at
  that index. Inserting at an index and detaching there again gives the array back.
\<close>

theorem cJSON_array_operations:
  assumes "0 \<le> w" and "nat w < cJSON_GetArraySize a"
  shows "cJSON_GetArrayItem a w = Some (child a ! nat w) \<and>
    child (cJSON_ReplaceItemInArray a w c) = (child a)[nat w := c] \<and>
    cJSON_DetachItemFromArray a w =
      (Node (fields a) (take (nat w) (child a) @ drop (Suc (nat w)) (child a)), Some (child a ! nat w)) \<and>
    cJSON_GetArrayItem (cJSON_InsertItemInArray a w c) w = Some c \<and>
    cJSON_DetachItemFromArray (cJSON_InsertItemInArray a w c) w = (a, Some c)"
proof -
  let ?n = "nat w"
  have n: "?n < length (child a)" using assms(2) by (simp add: cJSON_GetArraySize_def)
  then have d: "drop ?n (child a) = child a ! ?n # drop (Suc ?n) (child a)" by (simp add: Cons_nth_drop_Suc)
  have ins: "cJSON_InsertItemInArray a w c =
      Node (fields a) (take ?n (child a) @ c # child a ! ?n # drop (Suc ?n) (child a))"
    by (simp add: cJSON_InsertItemInArray_def d with_children_def)
  have len: "length (take ?n (child a)) = ?n" using n by simp
  have "child (cJSON_ReplaceItemInArray a w c) = (child a)[?n := c]"
    using n by (simp add: cJSON_ReplaceItemInArray_def d with_children_def upd_conv_take_nth_drop)
  moreover have "cJSON_DetachItemFromArray a w =
      (Node (fields a) (take ?n (child a) @ drop (Suc ?n) (child a)), Some (child a ! ?n))"
    by (simp add: cJSON_DetachItemFromArray_def d with_children_def)
  moreover have "cJSON_DetachItemFromArray (cJSON_InsertItemInArray a w c) w = (a, Some c)"
  proof -
    have "Node (fields a) (take ?n (child a) @ child a ! ?n # drop (Suc ?n) (child a)) = a"
      using d by (metis append_take_drop_id cJSON.collapse)
    then show ?thesis
      unfolding ins using len n by (simp add: cJSON_DetachItemFromArray_def with_children_def)
  qed
  moreover have "cJSON_GetArrayItem (cJSON_InsertItemInArray a w c) w = Some c"
    unfolding ins GetArrayItem_nth using n by (simp add: nth_append)
  ultimately show ?thesis using n by (simp add: GetArrayItem_nth)
qed

theorem cJSON_array_operations_witness:
  "cJSON_GetArrayItem (cJSON_CreateIntArray [4, 5]) 1 = Some (child (cJSON_CreateIntArray [4, 5]) ! nat 1) \<and>
    child (cJSON_ReplaceItemInArray (cJSON_CreateIntArray [4, 5]) 1 cJSON_CreateNull) =
      (child (cJSON_CreateIntArray [4, 5]))[nat 1 := cJSON_CreateNull]"
  using cJSON_array_operations [of 1 "cJSON_CreateIntArray [4, 5]" cJSON_CreateNull]
  by (simp add: cJSON_GetArraySize_def cJSON_CreateIntArray_def)

section \<open>Copies are equal\<close>

lemma type_no_reference: "t \<le> 6 \<Longrightarrow> \<not> bit t 8" for t :: nat
  by (rule bit_nat_bound [of _ 3]) simp_all

lemma dup_item_ok:
  assumes "item_ok i cs" and "case item_string i of None \<Rightarrow> True | Some s \<Rightarrow> c_string s"
  shows "dup_item i = Inr i"
proof -
  have "case valuestring i of None \<Rightarrow> True | Some s \<Rightarrow> c_string s"
    using assms(1) by (auto simp: item_ok_def split: option.splits)
  with assms(2) have "dup_string (valuestring i) = Inr (valuestring i)"
    "dup_string (item_string i) = Inr (item_string i)"
    by (auto simp: dup_string_def strdup_string split: option.splits)
  moreover have "\<not> bit (item_type i) 8" using assms(1) by (intro type_no_reference) (simp add: item_ok_def)
  ultimately show ?thesis by (simp add: dup_item_def)
qed

lemma names_of_children:
  assumes "item_ok i cs" and "c \<in> set cs"
  shows "case name_of c of None \<Rightarrow> True | Some s \<Rightarrow> c_string s"
  using assms by (auto simp: item_ok_def list_all_iff split: if_splits option.splits)

lemma duplicate_ok:
  "json_ok c \<Longrightarrow> (case name_of c of None \<Rightarrow> True | Some s \<Rightarrow> c_string s) \<Longrightarrow> cJSON_Duplicate c recurse =
     Inr (if recurse then c else Node (fields c) [])"
  "list_all json_ok cs \<Longrightarrow> list_all (\<lambda>c. case name_of c of None \<Rightarrow> True | Some s \<Rightarrow> c_string s) cs \<Longrightarrow>
     duplicate_children cs = Inr cs"
proof (induction c recurse and cs rule: cJSON_Duplicate_duplicate_children.induct)
  case (1 i cs recurse)
  have "list_all (\<lambda>c. case name_of c of None \<Rightarrow> True | Some s \<Rightarrow> c_string s) cs"
    using 1(2) names_of_children [of i cs] by (auto simp: list_all_iff)
  moreover have "dup_item i = Inr i" using 1(2,3) by (intro dup_item_ok [of i cs]) simp_all
  ultimately show ?case using 1 by auto
qed auto

text \<open>
  A copy of a well-formed tree, with recursion, is equal to the tree, in all its fields and strings;
  without recursion it is its root alone.
\<close>

theorem cJSON_Duplicate_copies:
  assumes "json_ok c" and "case name_of c of None \<Rightarrow> True | Some s \<Rightarrow> c_string s"
  shows "cJSON_Duplicate c recurse = Inr (if recurse then c else Node (fields c) [])"
  by (rule duplicate_ok(1) [OF assms])

theorem cJSON_Duplicate_copies_witness:
  "cJSON_Duplicate sample_tree True = Inr (if True then sample_tree else Node (fields sample_tree) [])"
  by (rule cJSON_Duplicate_copies [OF sample_tree_ok(1)]) (simp add: sample_tree_def cJSON_New_Item_def)

section \<open>Formatted and unformatted texts\<close>

text \<open>The part \<open>w\<close> of a text becomes \<open>w'\<close>, whatever follows it.\<close>

definition minifies :: "byte list \<Rightarrow> byte list \<Rightarrow> bool" where
  "minifies w w' \<longleftrightarrow> (\<forall>rest. minify (w @ rest) = bindR (minify rest) (\<lambda>v. Inr (w' @ v)))"

lemma minifies_Nil: "minifies [] []"
  by (auto simp: minifies_def bindR_def split: sum.splits)

lemma minifies_append: "minifies a a' \<Longrightarrow> minifies b b' \<Longrightarrow> minifies (a @ b) (a' @ b')"
  unfolding minifies_def by (auto simp: bindR_def split: sum.splits)

lemma minifies_blank: "set ws \<subseteq> {32, 9, 13, 10} \<Longrightarrow> minifies ws []"
proof (induction ws)
  case (Cons c ws)
  then have "c \<noteq> 0" by auto
  with Cons show ?case by (simp add: minifies_def)
qed (rule minifies_Nil)

definition plain :: "byte list \<Rightarrow> bool" where
  "plain w \<longleftrightarrow> set w \<inter> {0, 32, 9, 13, 10, 34, 47} = {}"

lemma minifies_plain: "plain w \<Longrightarrow> minifies w w"
proof (induction w)
  case (Cons c w)
  then have "minifies w w" by (simp add: plain_def)
  with Cons.prems show ?case
    by (auto simp: minifies_def plain_def bindR_def split: sum.splits)
qed (rule minifies_Nil)

lemma minifies_Cons: "c \<notin> {0, 32, 9, 13, 10, 34, 47} \<Longrightarrow> minifies w w' \<Longrightarrow> minifies (c # w) (c # w')"
  using minifies_append [OF minifies_plain [of "[c]"], of w w'] by (simp add: plain_def)

lemma minify_string_escape:
  assumes "c \<noteq> 0"
  shows "minify_string (escape_char c @ t) = bindR (minify_string t) (\<lambda>(w, r). Inr (escape_char c @ w, r))"
  using assms
proof (cases rule: escape_char_cases)
  case 1
  with assms show ?thesis by (simp add: bindR_def split: sum.splits)
next
  case (2 e)
  then show ?thesis by (simp add: bindR_def split: sum.splits)
next
  case 3
  have "hex_digit (drop_bit 4 c) \<notin> {0, 34, 92}" "hex_digit (c AND 15) \<notin> {0, 34, 92}"
    using control(7) [OF 3(1) assms] hex_chars by auto
  then show ?thesis unfolding 3(2) by (auto simp: bindR_def split: sum.splits)
qed

lemma minifies_string:
  assumes "c_content w"
  shows "minifies (string_bytes w) (string_bytes w)"
proof -
  have "minify_string (concat (map escape_char w) @ 34 # rest) =
      Inr (concat (map escape_char w) @ [34], rest)" for rest
    using assms by (induction w) (simp_all add: minify_string_escape)
  then show ?thesis by (simp add: minifies_def string_bytes_def bindR_def split: sum.splits)
qed

lemma minifies_separated:
  assumes "list_all (\<lambda>c. minifies (r c) (r' c)) cs" and "minifies sp []"
  shows "minifies (separated (44 # sp) (map r cs)) (separated [44] (map r' cs))"
  using assms(1)
proof (induction cs)
  case Nil
  then show ?case by (simp add: minifies_Nil)
next
  case (Cons c cs)
  show ?case
  proof (cases "cs = []")
    case False
    from Cons have c: "minifies (r c) (r' c)"
      and cs: "minifies (separated (44 # sp) (map r cs)) (separated [44] (map r' cs))" by simp_all
    have "minifies (44 # sp) [44]" by (rule minifies_Cons) (simp_all add: assms(2))
    from minifies_append [OF c minifies_append [OF this cs]] False show ?thesis
      by (simp add: separated_Cons)
  qed (use Cons in simp)
qed

lemma plain_digits: "plain (digits n)"
  using digits_is_digit [of n] by (auto simp: plain_def list_all_iff is_digit_def)

lemma plain_simps [simp]:
  "plain [] = True" "plain (a @ b) = (plain a \<and> plain b)"
  "plain (c # w) = (c \<notin> {0, 32, 9, 13, 10, 34, 47} \<and> plain w)"
  by (auto simp: plain_def)

lemma plain_number:
  assumes "number_ok i"
  shows "\<exists>w. print_number i = Inr (w @ [0]) \<and> plain w"
proof -
  have parts: "plain (print_int v)" "plain (sign_bytes x)" "plain (padded p n)" for v x p n
    by (auto simp: print_int_def sign_bytes_def padded_def plain_digits) (simp_all add: plain_def)
  then have "plain (print_fixed p x)" "plain (print_exponential x)" for p x
    by (auto simp: print_fixed_def print_exponential_def Let_def case_prod_beta plain_digits)
  with parts print_number_fits [OF assms] show ?thesis
    by (auto simp: print_number_def Let_def built_def case_prod_beta split: if_splits)
qed

lemma minifies_render:
  "json_ok c \<Longrightarrow> numbers_ok c \<Longrightarrow> minifies (json_render fmt d c) (json_render False d' c)"
proof (induction c arbitrary: d d')
  case (Node i cs)
  have item: "item_ok i cs" and cs: "list_all json_ok cs" "list_all numbers_ok cs"
    and num: "item_type i = cJSON_Number \<Longrightarrow> number_ok i"
    using Node.prems by simp_all
  have children: "list_all (\<lambda>c. minifies (json_render fmt d c) (json_render False d' c)) cs" for d d'
    using Node.IH cs by (auto simp: list_all_iff)
  have blanks: "minifies (tabs fmt n) []" "minifies (newline fmt) []" "minifies (if fmt then [32] else []) []"
    "minifies (if fmt then [9] else []) []" for n
    by (auto intro!: minifies_blank simp: tabs_def newline_def)
  consider "item_type i = cJSON_NULL" | "item_type i = cJSON_False" | "item_type i = cJSON_True"
    | "item_type i = cJSON_Number" | "item_type i = cJSON_String" | "item_type i = cJSON_Array"
    | "item_type i = cJSON_Object"
  proof -
    have "item_type i \<le> 6" using item by (simp add: item_ok_def)
    then show thesis using that unfolding type_codes by (auto simp: le_Suc_eq numeral_eq_Suc)
  qed
  then show ?case
  proof cases
    case 1
    then show ?thesis by (simp add: type_simps minifies_plain)
  next
    case 2
    then show ?thesis by (simp add: type_simps minifies_plain)
  next
    case 3
    then show ?thesis by (simp add: type_simps minifies_plain)
  next
    case 4
    from plain_number [OF num [OF 4]] 4 show ?thesis by (auto simp: type_simps minifies_plain)
  next
    case 5
    with item have "c_content (string_value i)"
      by (auto simp: item_ok_def string_value_def c_string_iff split: option.splits)
    with 5 show ?thesis by (simp add: type_simps minifies_string)
  next
    case 6
    then have r: "json_render fmt d (Node i cs) = 91 # separated (44 # (if fmt then [32] else [])) (map (json_render fmt (d + 1)) cs) @ [93]"
      "json_render False d' (Node i cs) = 91 # separated [44] (map (json_render False (d' + 1)) cs) @ [93]"
      by (simp_all add: type_simps)
    show ?thesis
      unfolding r by (intro minifies_Cons minifies_append minifies_separated children blanks minifies_plain) simp_all
  next
    case 7
    show ?thesis
    proof (cases "cs = []")
      case True
      then have "minifies (123 # newline fmt @ tabs fmt (d - 1) @ [125]) (123 # [] @ [] @ [125])"
        by (intro minifies_Cons minifies_append blanks minifies_plain) simp_all
      with 7 True show ?thesis by (simp add: type_simps newline_def tabs_def)
    next
      case False
      let ?r = "\<lambda>c. member_bytes fmt (d + 1) (name_bytes c) (json_render fmt (d + 1) c)"
      let ?r' = "\<lambda>c. member_bytes False (d' + 1) (name_bytes c) (json_render False (d' + 1) c)"
      have "minifies (?r c) (?r' c)" if c: "c \<in> set cs" for c
      proof -
        have "case name_of c of None \<Rightarrow> False | Some s \<Rightarrow> c_string s"
          using item 7 c by (simp add: item_ok_def list_all_iff)
        then have "c_content (name_bytes c)" by (auto simp: name_bytes_def c_string_iff split: option.splits)
        moreover have "minifies (json_render fmt (d + 1) c) (json_render False (d' + 1) c)"
          using children [of "d + 1" "d' + 1"] c by (simp add: list_all_iff)
        ultimately have "minifies (tabs fmt (d + 1) @ string_bytes (name_bytes c) @ 58 #
              (if fmt then [9] else []) @ json_render fmt (d + 1) c)
            ([] @ string_bytes (name_bytes c) @ 58 # [] @ json_render False (d' + 1) c)"
          by (intro minifies_append minifies_Cons blanks minifies_string) simp_all
        then show ?thesis by (simp add: member_bytes_def tabs_def)
      qed
      then have members: "list_all (\<lambda>c. minifies (?r c) (?r' c)) cs" by (simp add: list_all_iff)
      have "minifies (123 # newline fmt @ separated (44 # newline fmt) (map ?r cs) @ newline fmt @ tabs fmt d @ [125])
          (123 # [] @ separated [44] (map ?r' cs) @ [] @ [] @ [125])"
        by (intro minifies_Cons minifies_append blanks minifies_separated [OF members] minifies_plain) simp_all
      with 7 False show ?thesis by (simp add: type_simps newline_def tabs_def)
    qed
  qed
qed

text \<open>
  \<open>cJSON_Minify\<close> turns the formatted text of a tree into the unformatted one: what is written by
  \<open>cJSON_Print\<close> becomes, in place, what \<open>cJSON_PrintUnformatted\<close> writes, whatever the strings in it hold.
\<close>

theorem cJSON_Minify_print:
  assumes "json_ok c" and "numbers_ok c"
  shows "\<exists>w v. cJSON_Print c = Inr (Some (w @ [0])) \<and> cJSON_PrintUnformatted c = Inr (Some (v @ [0])) \<and>
    cJSON_Minify (w @ 0 # r) = Inr (v @ 0 # drop (length v + 1) (w @ 0 # r))"
proof -
  have "minify (0 # r) = Inr []" by simp
  with minifies_render [OF assms, of True 0 0] print_renders(1) [OF assms, of 0] show ?thesis
    by (simp add: cJSON_Print_def cJSON_PrintUnformatted_def cJSON_Minify_def minifies_def)
qed

theorem cJSON_Minify_print_witness:
  "\<exists>w v. cJSON_Print sample_tree = Inr (Some (w @ [0])) \<and> cJSON_PrintUnformatted sample_tree = Inr (Some (v @ [0])) \<and>
    cJSON_Minify (w @ 0 # []) = Inr (v @ 0 # drop (length v + 1) (w @ 0 # []))"
  by (rule cJSON_Minify_print [OF sample_tree_ok])

text \<open>
  A comment or a string that is not closed takes \<open>cJSON_Minify\<close> over the terminator of the text, and
  out of the object when nothing follows it.
\<close>

theorem cJSON_Minify_over_read:
  assumes "c_content w" and "set w \<inter> {34, 42, 47, 92} = {}"
  shows "cJSON_Minify ([47, 42] @ w @ [0]) = Inl OobRead \<and> cJSON_Minify ([34] @ w @ [0]) = Inl OobRead"
proof
  have "skip_comment (w @ [0]) = Inr [0]" using assms by (induction w) auto
  then show "cJSON_Minify ([47, 42] @ w @ [0]) = Inl OobRead"
    by (cases w) (use assms in \<open>auto simp: cJSON_Minify_def rd_def\<close>)
  have "minify_string (w @ [0]) = Inr (w @ [0], [])" using assms by (induction w) auto
  then show "cJSON_Minify ([34] @ w @ [0]) = Inl OobRead" by (simp add: cJSON_Minify_def)
qed

theorem cJSON_Minify_over_read_witness:
  "cJSON_Minify ([47, 42] @ [97, 98] @ [0]) = Inl OobRead \<and> cJSON_Minify ([34] @ [97, 98] @ [0]) = Inl OobRead"
  by (rule cJSON_Minify_over_read) simp_all

end
