(* ===== verification/Uthash.thy ===== *)
theory Uthash
  imports Dictionary "HOL-Library.Multiset"
begin

text \<open>
  The hash tables of \<^verbatim>\<open>common/uthash/uthash.h\<close>, as the macros are configured here: \<open>HASH_JEN\<close> is the
  hash function, running out of memory ends the program, no Bloom filter, no \<open>HASH_DEBUG\<close>.

  A hash handle is a record of the key, its hash and the element it is part of. The two doubly linked
  lists of the handles are lists here: the chain of a bucket, from \<open>hh_head\<close> on, and the elements in
  the order of the application, from the head of the table to \<open>tail\<close>. A pointer to an element is the
  handle itself; two elements of one table are never the same in key and content.
  The counters are natural numbers: an \<open>unsigned\<close> one wraps only with \<open>2 ^ 32\<close> elements, which are 56
  bytes or more each, or with \<open>2 ^ 31\<close> buckets of 16 bytes.
\<close>

section \<open>The hash function\<close>

definition key_byte :: "byte list \<Rightarrow> nat \<Rightarrow> 32 word res" where
  "key_byte key n = bindR (rd key n) (\<lambda>c. Inr (ucast c))"

definition key_word :: "byte list \<Rightarrow> nat \<Rightarrow> 32 word res" where
  "key_word key n =
     bindR (key_byte key n) (\<lambda>b0.
     bindR (key_byte key (n + 1)) (\<lambda>b1.
     bindR (key_byte key (n + 2)) (\<lambda>b2.
     bindR (key_byte key (n + 3)) (\<lambda>b3.
       Inr (b0 + push_bit 8 b1 + push_bit 16 b2 + push_bit 24 b3)))))"

definition HASH_JEN_MIX ::
    "32 word \<Rightarrow> 32 word \<Rightarrow> 32 word \<Rightarrow> 32 word \<times> 32 word \<times> 32 word" where
  "HASH_JEN_MIX a b c =
     (let a = (a - b - c) XOR drop_bit 13 c;
          b = (b - c - a) XOR push_bit 8 a;
          c = (c - a - b) XOR drop_bit 13 b;
          a = (a - b - c) XOR drop_bit 12 c;
          b = (b - c - a) XOR push_bit 16 a;
          c = (c - a - b) XOR drop_bit 5 b;
          a = (a - b - c) XOR drop_bit 3 c;
          b = (b - c - a) XOR push_bit 10 a;
          c = (c - a - b) XOR drop_bit 15 b
      in (a, b, c))"

fun jen_loop :: "byte list \<Rightarrow> nat \<Rightarrow> 32 word \<Rightarrow> 32 word \<Rightarrow> 32 word \<Rightarrow>
    (byte list \<times> nat \<times> 32 word \<times> 32 word \<times> 32 word) res" where
  "jen_loop key k i j h =
     (if k < 12 then Inr (key, k, i, j, h)
      else bindR (key_word key 0) (\<lambda>a.
           bindR (key_word key 4) (\<lambda>b.
           bindR (key_word key 8) (\<lambda>c.
             case HASH_JEN_MIX (i + a) (j + b) (h + c) of
               (i, j, h) \<Rightarrow> jen_loop (drop 12 key) (k - 12) i j h))))"

declare jen_loop.simps [simp del]

text \<open>
  The cases of the \<open>switch\<close> fall through: of the bytes that are left, those with a number below \<open>k\<close>
  are added, each shifted to its place.
\<close>

fun jen_rest :: "byte list \<Rightarrow> nat \<Rightarrow> (nat \<times> nat) list \<Rightarrow> 32 word \<Rightarrow> 32 word res" where
  "jen_rest key k [] v = Inr v"
| "jen_rest key k ((n, s) # ps) v =
     (if n < k then bindR (key_byte key n) (\<lambda>c. jen_rest key k ps (v + push_bit s c))
      else jen_rest key k ps v)"

definition HASH_JEN :: "byte list \<Rightarrow> nat \<Rightarrow> 32 word res" where
  "HASH_JEN key keylen =
     bindR (jen_loop key keylen 0x9e3779b9 0x9e3779b9 0xfeedbeef) (\<lambda>(key, k, i, j, h).
     bindR (jen_rest key k [(10, 24), (9, 16), (8, 8)] (h + of_nat keylen)) (\<lambda>h.
     bindR (jen_rest key k [(7, 24), (6, 16), (5, 8), (4, 0)] j) (\<lambda>j.
     bindR (jen_rest key k [(3, 24), (2, 16), (1, 8), (0, 0)] i) (\<lambda>i.
       case HASH_JEN_MIX i j h of (i, j, h) \<Rightarrow> Inr h))))"

text \<open>A key is the list of its \<open>keylen\<close> bytes.\<close>

definition HASH_VALUE :: "byte list \<Rightarrow> 32 word res" where
  "HASH_VALUE key = HASH_JEN key (length key)"

section \<open>Handles, buckets and the table\<close>

record 'e UT_hash_handle =
  hh_key :: "byte list"
  hh_hashv :: "32 word"
  hh_elem :: 'e

record 'e UT_hash_bucket =
  hh_chain :: "'e UT_hash_handle list"
  bkt_count :: nat
  expand_mult :: nat

record 'e UT_hash_table =
  buckets :: "'e UT_hash_bucket list"
  num_buckets :: nat
  log2_num_buckets :: nat
  num_items :: nat
  app_order :: "'e UT_hash_handle list"
  ideal_chain_maxlen :: nat
  nonideal_items :: nat
  ineff_expands :: nat
  noexpand :: bool

text \<open>The variable that names the table is a pointer to its first element, or null.\<close>

type_synonym 'e hash_head = "'e UT_hash_table option"

definition empty_bucket :: "'e UT_hash_bucket" where
  "empty_bucket = \<lparr>hh_chain = [], bkt_count = 0, expand_mult = 0\<rparr>"

definition HASH_MAKE_TABLE :: "'e UT_hash_handle \<Rightarrow> 'e UT_hash_table" where
  "HASH_MAKE_TABLE x =
     \<lparr>buckets = replicate 32 empty_bucket, num_buckets = 32, log2_num_buckets = 5, num_items = 0,
      app_order = [x], ideal_chain_maxlen = 0, nonideal_items = 0, ineff_expands = 0, noexpand = False\<rparr>"

definition HASH_TO_BKT :: "32 word \<Rightarrow> nat \<Rightarrow> nat" where
  "HASH_TO_BKT hashv n = unat hashv AND (n - 1)"

definition bucket_at :: "'e UT_hash_bucket list \<Rightarrow> nat \<Rightarrow> 'e UT_hash_bucket res" where
  "bucket_at bs b = (if b < length bs then Inr (bs ! b) else Inl OobRead)"

section \<open>Finding\<close>

fun HASH_FIND_IN_BKT ::
    "'e UT_hash_handle list \<Rightarrow> byte list \<Rightarrow> 32 word \<Rightarrow> 'e UT_hash_handle option" where
  "HASH_FIND_IN_BKT [] key hashv = None"
| "HASH_FIND_IN_BKT (x # xs) key hashv =
     (if hh_hashv x = hashv \<and> length (hh_key x) = length key \<and> hh_key x = key then Some x
      else HASH_FIND_IN_BKT xs key hashv)"

definition HASH_FIND_BYHASHVALUE ::
    "'e hash_head \<Rightarrow> byte list \<Rightarrow> 32 word \<Rightarrow> 'e UT_hash_handle option res" where
  "HASH_FIND_BYHASHVALUE head key hashv =
     (case head of
        None \<Rightarrow> Inr None
      | Some t \<Rightarrow>
          bindR (bucket_at (buckets t) (HASH_TO_BKT hashv (num_buckets t))) (\<lambda>b.
            Inr (HASH_FIND_IN_BKT (hh_chain b) key hashv)))"

definition HASH_FIND :: "'e hash_head \<Rightarrow> byte list \<Rightarrow> 'e UT_hash_handle option res" where
  "HASH_FIND head key = bindR (HASH_VALUE key) (HASH_FIND_BYHASHVALUE head key)"

section \<open>Adding\<close>

text \<open>
  The new buckets while the old chains are moved to them, handle by handle, and the number of
  handles that are beyond the ideal length of their chain.
\<close>

definition move_item :: "nat \<Rightarrow> nat \<Rightarrow> 'e UT_hash_handle \<Rightarrow> 'e UT_hash_bucket list \<times> nat \<Rightarrow>
    ('e UT_hash_bucket list \<times> nat) res" where
  "move_item ideal n x = (\<lambda>(bs, nonideal).
     let i = HASH_TO_BKT (hh_hashv x) n
     in bindR (bucket_at bs i) (\<lambda>b.
          let c = bkt_count b + 1
          in if ideal < c
             then if ideal = 0 then Inl DivByZero
                  else Inr (bs[i := b\<lparr>bkt_count := c, expand_mult := c div ideal, hh_chain := x # hh_chain b\<rparr>],
                    nonideal + 1)
             else Inr (bs[i := b\<lparr>bkt_count := c, hh_chain := x # hh_chain b\<rparr>], nonideal)))"

fun move_items :: "nat \<Rightarrow> nat \<Rightarrow> 'e UT_hash_handle list \<Rightarrow> 'e UT_hash_bucket list \<times> nat \<Rightarrow>
    ('e UT_hash_bucket list \<times> nat) res" where
  "move_items ideal n [] s = Inr s"
| "move_items ideal n (x # xs) s = bindR (move_item ideal n x s) (move_items ideal n xs)"

definition ideal_length :: "nat \<Rightarrow> nat \<Rightarrow> nat \<Rightarrow> nat" where
  "ideal_length items log2 n =
     drop_bit (log2 + 1) items + (if items AND (n * 2 - 1) \<noteq> 0 then 1 else 0)"

definition HASH_EXPAND_BUCKETS :: "'e UT_hash_table \<Rightarrow> 'e UT_hash_table res" where
  "HASH_EXPAND_BUCKETS t =
     (let n = 2 * num_buckets t;
          ideal = ideal_length (num_items t) (log2_num_buckets t) (num_buckets t)
      in bindR (move_items ideal n (concat (map hh_chain (buckets t))) (replicate n empty_bucket, 0))
           (\<lambda>(bs, nonideal).
             let ineff = (if drop_bit 1 (num_items t) < nonideal then ineff_expands t + 1 else 0)
             in Inr (t\<lparr>buckets := bs, num_buckets := n, log2_num_buckets := log2_num_buckets t + 1,
                  ideal_chain_maxlen := ideal, nonideal_items := nonideal, ineff_expands := ineff,
                  noexpand := noexpand t \<or> 1 < ineff\<rparr>)))"

definition HASH_ADD_TO_BKT ::
    "nat \<Rightarrow> 'e UT_hash_handle \<Rightarrow> 'e UT_hash_table \<Rightarrow> 'e UT_hash_table res" where
  "HASH_ADD_TO_BKT i x t =
     bindR (bucket_at (buckets t) i) (\<lambda>b.
       let c = bkt_count b + 1;
           t = t\<lparr>buckets := (buckets t)[i := b\<lparr>bkt_count := c, hh_chain := x # hh_chain b\<rparr>]\<rparr>
       in if (expand_mult b + 1) * 10 \<le> c \<and> \<not> noexpand t then HASH_EXPAND_BUCKETS t else Inr t)"

definition HASH_ADD_TO_TABLE :: "'e UT_hash_handle \<Rightarrow> 'e UT_hash_table \<Rightarrow> 'e UT_hash_table res" where
  "HASH_ADD_TO_TABLE x t =
     (let t = t\<lparr>num_items := num_items t + 1\<rparr>
      in HASH_ADD_TO_BKT (HASH_TO_BKT (hh_hashv x) (num_buckets t)) x t)"

definition HASH_APPEND_LIST :: "'e UT_hash_handle \<Rightarrow> 'e UT_hash_table \<Rightarrow> 'e UT_hash_table" where
  "HASH_APPEND_LIST x t = t\<lparr>app_order := app_order t @ [x]\<rparr>"

definition HASH_ADD_KEYPTR_BYHASHVALUE ::
    "'e hash_head \<Rightarrow> byte list \<Rightarrow> 32 word \<Rightarrow> 'e \<Rightarrow> 'e hash_head res" where
  "HASH_ADD_KEYPTR_BYHASHVALUE head key hashv e =
     (let x = \<lparr>hh_key = key, hh_hashv = hashv, hh_elem = e\<rparr>;
          t = (case head of None \<Rightarrow> HASH_MAKE_TABLE x | Some t \<Rightarrow> HASH_APPEND_LIST x t)
      in bindR (HASH_ADD_TO_TABLE x t) (\<lambda>t. Inr (Some t)))"

definition HASH_ADD_KEYPTR :: "'e hash_head \<Rightarrow> byte list \<Rightarrow> 'e \<Rightarrow> 'e hash_head res" where
  "HASH_ADD_KEYPTR head key e =
     bindR (HASH_VALUE key) (\<lambda>hashv. HASH_ADD_KEYPTR_BYHASHVALUE head key hashv e)"

section \<open>Removing and replacing\<close>

definition HASH_DEL_IN_BKT ::
    "nat \<Rightarrow> 'e UT_hash_handle \<Rightarrow> 'e UT_hash_table \<Rightarrow> 'e UT_hash_table res" where
  "HASH_DEL_IN_BKT i x t =
     bindR (bucket_at (buckets t) i) (\<lambda>b.
       Inr (t\<lparr>buckets := (buckets t)[i := b\<lparr>bkt_count := bkt_count b - 1, hh_chain := remove1 x (hh_chain b)\<rparr>]\<rparr>))"

text \<open>The only element: neither a previous nor a next one. A null head is not given.\<close>

definition HASH_DELETE :: "'e hash_head \<Rightarrow> 'e UT_hash_handle \<Rightarrow> 'e hash_head res" where
  "HASH_DELETE head x =
     (case head of
        None \<Rightarrow> Inl NullDeref
      | Some t \<Rightarrow>
          if app_order t = [x] then Inr None
          else bindR (HASH_DEL_IN_BKT (HASH_TO_BKT (hh_hashv x) (num_buckets t)) x
                 (t\<lparr>app_order := remove1 x (app_order t)\<rparr>)) (\<lambda>t.
               Inr (Some (t\<lparr>num_items := num_items t - 1\<rparr>))))"

definition HASH_REPLACE ::
    "'e hash_head \<Rightarrow> byte list \<Rightarrow> 'e \<Rightarrow> ('e UT_hash_handle option \<times> 'e hash_head) res" where
  "HASH_REPLACE head key e =
     bindR (HASH_VALUE key) (\<lambda>hashv.
     bindR (HASH_FIND_BYHASHVALUE head key hashv) (\<lambda>replaced.
     bindR (case replaced of None \<Rightarrow> Inr head | Some x \<Rightarrow> HASH_DELETE head x) (\<lambda>head.
     bindR (HASH_ADD_KEYPTR_BYHASHVALUE head key hashv e) (\<lambda>head.
       Inr (replaced, head)))))"

definition HASH_CNT :: "'e hash_head \<Rightarrow> nat" where
  "HASH_CNT head = (case head of None \<Rightarrow> 0 | Some t \<Rightarrow> num_items t)"

text \<open>
  What \<open>HASH_FSCK\<close> tests after each change when \<open>HASH_DEBUG\<close> is defined: the counts of the buckets,
  their sum, and the length of the list in application order.
\<close>

definition HASH_FSCK :: "'e hash_head \<Rightarrow> bool" where
  "HASH_FSCK head =
     (case head of
        None \<Rightarrow> True
      | Some t \<Rightarrow>
          list_all (\<lambda>b. bkt_count b = length (hh_chain b)) (take (num_buckets t) (buckets t)) \<and>
          sum_list (map (\<lambda>b. length (hh_chain b)) (take (num_buckets t) (buckets t))) = num_items t \<and>
          length (app_order t) = num_items t)"

text \<open>
  The keys of this program are \<open>int\<close> fields: the four bytes of the number, least significant first.
\<close>

definition int_key :: "32 word \<Rightarrow> byte list" where
  "int_key v = map (\<lambda>i. ucast (drop_bit (8 * i) v)) [0..<4]"

definition HASH_FIND_INT :: "'e hash_head \<Rightarrow> 32 word \<Rightarrow> 'e UT_hash_handle option res" where
  "HASH_FIND_INT head i = HASH_FIND head (int_key i)"

definition HASH_ADD_INT :: "'e hash_head \<Rightarrow> 32 word \<Rightarrow> 'e \<Rightarrow> 'e hash_head res" where
  "HASH_ADD_INT head i e = HASH_ADD_KEYPTR head (int_key i) e"

section \<open>The hash of a key\<close>

lemma key_byte_in: "n < length key \<Longrightarrow> key_byte key n = Inr (ucast (key ! n))"
  by (simp add: key_byte_def mem_simps)

lemma key_word_in: "n + 3 < length key \<Longrightarrow> \<exists>w. key_word key n = Inr w"
  by (simp add: key_word_def key_byte_in)

lemma jen_rest_in: "k \<le> length key \<Longrightarrow> \<exists>v'. jen_rest key k ps v = Inr v'"
  by (induction ps arbitrary: v) (auto simp: key_byte_in)

lemma jen_loop_in:
  "k \<le> length key \<Longrightarrow> \<exists>key' k' i' j' h'. jen_loop key k i j h = Inr (key', k', i', j', h') \<and> k' \<le> length key'"
proof (induction key k i j h rule: jen_loop.induct)
  case (1 key k i j h)
  show ?case
  proof (cases "k < 12")
    case True
    then show ?thesis using "1.prems" by (simp add: jen_loop.simps)
  next
    case False
    then have "3 < length key" "7 < length key" "11 < length key" using "1.prems" by auto
    then obtain a b c where w: "key_word key 0 = Inr a" "key_word key 4 = Inr b" "key_word key 8 = Inr c"
      using key_word_in [of 0 key] key_word_in [of 4 key] key_word_in [of 8 key] by auto
    obtain i' j' h' where mix: "HASH_JEN_MIX (i + a) (j + b) (h + c) = (i', j', h')" by (metis prod_cases3)
    have "k - 12 \<le> length (drop 12 key)" using "1.prems" by simp
    from "1.IH" [OF False w mix [symmetric] refl this] show ?thesis
      using False w mix by (simp add: jen_loop.simps [of key k])
  qed
qed

text \<open>The hash reads the bytes of the key and nothing behind them.\<close>

lemma HASH_JEN_in:
  assumes "keylen \<le> length key"
  shows "\<exists>h. HASH_JEN key keylen = Inr h"
proof -
  obtain key' k i j h where
    l: "jen_loop key keylen 0x9e3779b9 0x9e3779b9 0xfeedbeef = Inr (key', k, i, j, h)" and k: "k \<le> length key'"
    using jen_loop_in [OF assms] by blast
  from jen_rest_in [OF k] obtain h' where h: "jen_rest key' k [(10, 24), (9, 16), (8, 8)] (h + of_nat keylen) = Inr h'" by blast
  from jen_rest_in [OF k] obtain j' where j: "jen_rest key' k [(7, 24), (6, 16), (5, 8), (4, 0)] j = Inr j'" by blast
  from jen_rest_in [OF k] obtain i' where i: "jen_rest key' k [(3, 24), (2, 16), (1, 8), (0, 0)] i = Inr i'" by blast
  show ?thesis using i by (simp add: HASH_JEN_def l h j split: prod.split del: jen_rest.simps)
qed

lemma HASH_VALUE_ok: "\<exists>h. HASH_VALUE key = Inr h"
  by (simp add: HASH_VALUE_def HASH_JEN_in)

section \<open>The well-formed tables\<close>

text \<open>\<open>spread n bs M\<close>: the \<open>n\<close> buckets hold the handles of \<open>M\<close>, each in the bucket of its hash.\<close>

definition spread :: "nat \<Rightarrow> 'e UT_hash_bucket list \<Rightarrow> 'e UT_hash_handle multiset \<Rightarrow> bool" where
  "spread n bs M \<longleftrightarrow> length bs = n \<and>
     (\<forall>i < n. bkt_count (bs ! i) = length (hh_chain (bs ! i)) \<and>
        mset (hh_chain (bs ! i)) = filter_mset (\<lambda>x. HASH_TO_BKT (hh_hashv x) n = i) M)"

definition table_ok :: "'e UT_hash_table \<Rightarrow> bool" where
  "table_ok t \<longleftrightarrow>
     num_buckets t = 2 ^ log2_num_buckets t \<and> num_items t = length (app_order t) \<and>
     spread (num_buckets t) (buckets t) (mset (app_order t)) \<and>
     distinct (map hh_key (app_order t)) \<and>
     (\<forall>x \<in> set (app_order t). HASH_VALUE (hh_key x) = Inr (hh_hashv x))"

fun elems :: "'e hash_head \<Rightarrow> 'e UT_hash_handle list" where
  "elems None = []"
| "elems (Some t) = app_order t"

definition hash_ok :: "'e hash_head \<Rightarrow> bool" where
  "hash_ok head = (case head of None \<Rightarrow> True | Some t \<Rightarrow> table_ok t \<and> app_order t \<noteq> [])"

lemma HASH_TO_BKT_less: "HASH_TO_BKT h (2 ^ l) < 2 ^ l"
proof -
  have "HASH_TO_BKT h (2 ^ l) = take_bit l (unat h)"
    by (simp add: HASH_TO_BKT_def take_bit_eq_mask mask_eq_exp_minus_1)
  then show ?thesis by simp
qed

lemma sum_filter_mset:
  "(\<Sum>i<n. filter_mset (\<lambda>x. f x = i) M) = filter_mset (\<lambda>x. f x < (n::nat)) M"
proof (induction n)
  case (Suc n)
  have "filter_mset (\<lambda>x. f x < Suc n) M = filter_mset (\<lambda>x. f x < n) M + filter_mset (\<lambda>x. f x = n) M"
    by (rule multiset_eqI) auto
  with Suc show ?case by simp
qed simp

lemma spread_concat:
  assumes "spread (2 ^ l) bs M"
  shows "mset (concat (map hh_chain bs)) = M"
proof -
  have len: "length bs = 2 ^ l" using assms by (simp add: spread_def)
  have "mset (concat (map hh_chain bs)) = (\<Sum>i<2 ^ l. mset (hh_chain (bs ! i)))"
    by (simp add: mset_concat sum_list_sum_nth len atLeast0LessThan)
  also have "\<dots> = (\<Sum>i<2 ^ l. filter_mset (\<lambda>x. HASH_TO_BKT (hh_hashv x) (2 ^ l) = i) M)"
    using assms by (intro sum.cong) (auto simp: spread_def)
  also have "\<dots> = filter_mset (\<lambda>x. HASH_TO_BKT (hh_hashv x) (2 ^ l) < 2 ^ l) M"
    by (rule sum_filter_mset)
  also have "\<dots> = M" by (simp add: HASH_TO_BKT_less)
  finally show ?thesis .
qed

lemma spread_empty: "spread n (replicate n empty_bucket) {#}"
  by (simp add: spread_def empty_bucket_def)

lemma spread_add:
  assumes "spread (2 ^ l) bs M" and "i = HASH_TO_BKT (hh_hashv x) (2 ^ l)"
  shows "bucket_at bs i = Inr (bs ! i)"
    and "hh_chain b = x # hh_chain (bs ! i) \<Longrightarrow> bkt_count b = Suc (bkt_count (bs ! i)) \<Longrightarrow>
      spread (2 ^ l) (bs[i := b]) (add_mset x M)"
proof -
  have i: "i < 2 ^ l" using assms(2) HASH_TO_BKT_less by simp
  with assms(1) show "bucket_at bs i = Inr (bs ! i)" by (simp add: bucket_at_def spread_def)
  assume "hh_chain b = x # hh_chain (bs ! i)" "bkt_count b = Suc (bkt_count (bs ! i))"
  with assms i show "spread (2 ^ l) (bs[i := b]) (add_mset x M)"
    by (auto simp: spread_def nth_list_update)
qed

lemma spread_remove:
  assumes "spread (2 ^ l) bs M" and "x \<in># M" and "i = HASH_TO_BKT (hh_hashv x) (2 ^ l)"
    and "hh_chain b = remove1 x (hh_chain (bs ! i))" and "bkt_count b = bkt_count (bs ! i) - 1"
  shows "spread (2 ^ l) (bs[i := b]) (M - {#x#})"
proof -
  have i: "i < 2 ^ l" using assms(3) HASH_TO_BKT_less by simp
  have "x \<in># mset (hh_chain (bs ! i))" using assms(1-3) i by (auto simp: spread_def)
  then have "x \<in> set (hh_chain (bs ! i))" by simp
  then have "bkt_count b = length (hh_chain b)"
    using assms(1,4,5) i by (simp add: spread_def length_remove1)
  with assms i show ?thesis by (auto simp: spread_def nth_list_update)
qed

lemma ideal_length_pos:
  assumes "0 < items"
  shows "0 < ideal_length items l (2 ^ l)"
proof (rule ccontr)
  assume "\<not> 0 < ideal_length items l (2 ^ l)"
  then have d: "drop_bit (Suc l) items = 0" and "items AND (2 ^ Suc l - 1) = 0"
    by (auto simp: ideal_length_def mult.commute split: if_splits)
  then have "take_bit (Suc l) items = 0" by (simp add: take_bit_eq_mask mask_eq_exp_minus_1)
  with d have "items = 0" by (metis bits_ident push_bit_of_0 add_0)
  with assms show False by simp
qed

text \<open>The comment above \<open>HASH_EXPAND_BUCKETS\<close>: the shift and the mask round up the quotient.\<close>

lemma div_round_up:
  assumes "0 < (d::nat)"
  shows "(n + d - 1) div d = n div d + (if n mod d = 0 then 0 else 1)"
proof (cases "n mod d = 0")
  case True
  then obtain q where "n = d * q" by (metis mod_0_imp_dvd dvd_def)
  moreover from this assms have "n + d - 1 = (d - 1) + d * q" by simp
  ultimately show ?thesis using assms by (simp only: div_mult_self2) simp
next
  case False
  moreover have "n = n mod d + d * (n div d)" by simp
  ultimately have "n + d - 1 = (n mod d - 1) + d * (n div d + 1)"
    by (cases "n mod d") (simp_all add: algebra_simps)
  moreover have "(n mod d - 1) div d = 0" using assms by (simp add: less_imp_diff_less)
  ultimately show ?thesis using False assms by (simp only: div_mult_self2) simp
qed

lemma ideal_length_ceiling:
  "ideal_length items l (2 ^ l) = (items + 2 ^ Suc l - 1) div 2 ^ Suc l"
proof -
  have "items AND (2 ^ l * 2 - 1) = take_bit (Suc l) items"
    by (simp add: take_bit_eq_mask mask_eq_exp_minus_1 mult.commute)
  then have "ideal_length items l (2 ^ l) = items div 2 ^ Suc l + (if items mod 2 ^ Suc l = 0 then 0 else 1)"
    by (simp add: ideal_length_def drop_bit_eq_div take_bit_eq_mod)
  also have "\<dots> = (items + 2 ^ Suc l - 1) div 2 ^ Suc l" by (rule div_round_up [symmetric]) simp
  finally show ?thesis .
qed

section \<open>What the operations do\<close>

lemma table_okD:
  assumes "table_ok t"
  shows "num_buckets t = 2 ^ log2_num_buckets t" "num_items t = length (app_order t)"
    "spread (2 ^ log2_num_buckets t) (buckets t) (mset (app_order t))"
    "distinct (map hh_key (app_order t))"
    "\<And>x. x \<in> set (app_order t) \<Longrightarrow> HASH_VALUE (hh_key x) = Inr (hh_hashv x)"
  using assms by (auto simp: table_ok_def)

lemma find_in_chain:
  "HASH_FIND_IN_BKT xs key hashv = find (\<lambda>x. hh_hashv x = hashv \<and> hh_key x = key) xs"
  by (induction xs) auto

text \<open>With distinct keys the order of a list does not matter for a search.\<close>

lemma find_inj:
  assumes "inj_on f (set xs)"
  shows "find (\<lambda>x. f x = k) xs = Some y \<longleftrightarrow> y \<in> set xs \<and> f y = k"
  using assms by (induction xs) (auto simp: inj_on_def)

lemma find_distinct:
  "distinct (map f xs) \<Longrightarrow> find (\<lambda>x. f x = k) xs = Some y \<longleftrightarrow> y \<in> set xs \<and> f y = k"
  by (rule find_inj) (simp add: distinct_map)

lemma find_chain:
  assumes "spread (2 ^ l) bs (mset xs)" and "distinct (map hh_key xs)"
    and "\<And>x. x \<in> set xs \<Longrightarrow> HASH_VALUE (hh_key x) = Inr (hh_hashv x)" and "HASH_VALUE key = Inr h"
  shows "HASH_FIND_IN_BKT (hh_chain (bs ! HASH_TO_BKT h (2 ^ l))) key h = find (\<lambda>x. hh_key x = key) xs"
proof -
  let ?c = "hh_chain (bs ! HASH_TO_BKT h (2 ^ l))"
  have c: "mset ?c = filter_mset (\<lambda>x. HASH_TO_BKT (hh_hashv x) (2 ^ l) = HASH_TO_BKT h (2 ^ l)) (mset xs)"
    using assms(1) HASH_TO_BKT_less by (auto simp: spread_def)
  from arg_cong [OF this, of set_mset]
  have set: "set ?c = {x \<in> set xs. HASH_TO_BKT (hh_hashv x) (2 ^ l) = HASH_TO_BKT h (2 ^ l)}" by simp
  have distinct: "inj_on hh_key (set ?c)"
    using assms(2) set by (auto simp: distinct_map intro: inj_on_subset)
  have "HASH_FIND_IN_BKT ?c key h = find (\<lambda>x. hh_key x = key) ?c"
    unfolding find_in_chain by (rule find_cong) (use set assms(3,4) in auto)
  with distinct have "HASH_FIND_IN_BKT ?c key h = Some y \<longleftrightarrow> find (\<lambda>x. hh_key x = key) xs = Some y" for y
    using set assms(2-4) by (auto simp: find_inj find_distinct)
  then show ?thesis by (cases "find (\<lambda>x. hh_key x = key) xs") (metis not_None_eq)+
qed

lemma move_item_ok:
  assumes "spread (2 ^ l) bs M" and "0 < ideal"
  shows "\<exists>bs' k'. move_item ideal (2 ^ l) x (bs, k) = Inr (bs', k') \<and> spread (2 ^ l) bs' (add_mset x M)"
  using spread_add [OF assms(1) refl, where x = x] assms(2) by (auto simp: move_item_def Let_def)

lemma move_items_ok:
  assumes "spread (2 ^ l) bs M" and "0 < ideal"
  shows "\<exists>bs' k'. move_items ideal (2 ^ l) xs (bs, k) = Inr (bs', k') \<and> spread (2 ^ l) bs' (mset xs + M)"
  using assms(1)
proof (induction xs arbitrary: bs M k)
  case (Cons x xs)
  from move_item_ok [OF Cons.prems assms(2), of x k] obtain bs1 k1 where
    m: "move_item ideal (2 ^ l) x (bs, k) = Inr (bs1, k1)" "spread (2 ^ l) bs1 (add_mset x M)" by blast
  from Cons.IH [OF m(2), of k1] m(1) show ?case by simp
qed simp

text \<open>The fields of a table that the expansion and the chains do not concern.\<close>

lemma expand_ok:
  assumes "spread (2 ^ l) (buckets t) (mset (app_order t))" and "log2_num_buckets t = l"
    and "num_buckets t = 2 ^ l" and "0 < num_items t"
  shows "\<exists>t'. HASH_EXPAND_BUCKETS t = Inr t' \<and> app_order t' = app_order t \<and> num_items t' = num_items t \<and>
    num_buckets t' = 2 ^ log2_num_buckets t' \<and> spread (num_buckets t') (buckets t') (mset (app_order t'))"
proof -
  let ?ideal = "ideal_length (num_items t) l (2 ^ l)"
  have "0 < ?ideal" using assms(4) by (rule ideal_length_pos)
  from move_items_ok [OF spread_empty this, where xs = "concat (map hh_chain (buckets t))" and k = 0 and l = "Suc l"]
  obtain bs k where m: "move_items ?ideal (2 ^ Suc l) (concat (map hh_chain (buckets t)))
      (replicate (2 ^ Suc l) empty_bucket, 0) = Inr (bs, k)"
    and s: "spread (2 ^ Suc l) bs (mset (concat (map hh_chain (buckets t))) + {#})" by blast
  from s have "spread (2 ^ Suc l) bs (mset (app_order t))" by (simp only: spread_concat [OF assms(1)]) simp
  with m assms(2,3) show ?thesis by (simp add: HASH_EXPAND_BUCKETS_def Let_def)
qed

lemma add_to_table_ok:
  assumes "spread (2 ^ l) (buckets t) M" and "log2_num_buckets t = l" and "num_buckets t = 2 ^ l"
    and "mset (app_order t) = add_mset x M" and "Suc (num_items t) = length (app_order t)"
  shows "\<exists>t'. HASH_ADD_TO_TABLE x t = Inr t' \<and> app_order t' = app_order t \<and>
    num_items t' = length (app_order t) \<and> num_buckets t' = 2 ^ log2_num_buckets t' \<and>
    spread (num_buckets t') (buckets t') (mset (app_order t'))"
proof -
  let ?i = "HASH_TO_BKT (hh_hashv x) (2 ^ l)"
  let ?b = "buckets t ! ?i"
  let ?b' = "?b\<lparr>bkt_count := bkt_count ?b + 1, hh_chain := x # hh_chain ?b\<rparr>"
  let ?t = "t\<lparr>num_items := num_items t + 1, buckets := (buckets t)[?i := ?b']\<rparr>"
  have s: "spread (2 ^ l) (buckets ?t) (mset (app_order ?t))"
    using spread_add(2) [OF assms(1) refl, of ?b' x] assms(4) by simp
  have e: "\<exists>t'. HASH_EXPAND_BUCKETS ?t = Inr t' \<and> app_order t' = app_order ?t \<and> num_items t' = num_items ?t \<and>
      num_buckets t' = 2 ^ log2_num_buckets t' \<and> spread (num_buckets t') (buckets t') (mset (app_order t'))"
    by (rule expand_ok [OF s]) (use assms in \<open>auto simp: assms(4)\<close>)
  show ?thesis
  proof (cases "(expand_mult ?b + 1) * 10 \<le> bkt_count ?b + 1 \<and> \<not> noexpand t")
    case True
    then have "HASH_ADD_TO_TABLE x t = HASH_EXPAND_BUCKETS ?t"
      using spread_add(1) [OF assms(1) refl, where x = x] assms(3)
      by (simp add: HASH_ADD_TO_TABLE_def HASH_ADD_TO_BKT_def Let_def)
    with e assms(5) show ?thesis by auto
  next
    case False
    then have "HASH_ADD_TO_TABLE x t = Inr ?t"
      using spread_add(1) [OF assms(1) refl, where x = x] assms(3)
      by (auto simp: HASH_ADD_TO_TABLE_def HASH_ADD_TO_BKT_def Let_def)
    with s assms show ?thesis by simp
  qed
qed

lemma hash_ok_elems:
  assumes "hash_ok d"
  shows "distinct (map hh_key (elems d))"
    and "\<And>x. x \<in> set (elems d) \<Longrightarrow> HASH_VALUE (hh_key x) = Inr (hh_hashv x)"
  using assms table_okD(4,5) by (cases d; auto simp: hash_ok_def)+

text \<open>A table is an association list in the order of the application.\<close>

lemma find_ok:
  assumes "hash_ok d"
  shows "HASH_FIND d key = Inr (find (\<lambda>x. hh_key x = key) (elems d))"
proof -
  obtain h where h: "HASH_VALUE key = Inr h" using HASH_VALUE_ok by blast
  show ?thesis
  proof (cases d)
    case None
    then show ?thesis by (simp add: HASH_FIND_def HASH_FIND_BYHASHVALUE_def h)
  next
    case (Some t)
    then have t: "table_ok t" using assms by (simp add: hash_ok_def)
    let ?l = "log2_num_buckets t"
    have "HASH_TO_BKT h (2 ^ ?l) < length (buckets t)"
      using table_okD(3) [OF t] HASH_TO_BKT_less by (simp add: spread_def)
    with find_chain [OF table_okD(3-5) [OF t] h] show ?thesis
      by (simp add: HASH_FIND_def HASH_FIND_BYHASHVALUE_def h Some bucket_at_def table_okD(1) [OF t])
  qed
qed

lemma add_ok:
  assumes "hash_ok d" and "key \<notin> hh_key ` set (elems d)" and "HASH_VALUE key = Inr h"
  shows "\<exists>d'. HASH_ADD_KEYPTR_BYHASHVALUE d key h e = Inr d' \<and> hash_ok d' \<and>
    elems d' = elems d @ [\<lparr>hh_key = key, hh_hashv = h, hh_elem = e\<rparr>]"
proof -
  let ?x = "\<lparr>hh_key = key, hh_hashv = h, hh_elem = e\<rparr>"
  let ?t = "case d of None \<Rightarrow> HASH_MAKE_TABLE ?x | Some t \<Rightarrow> HASH_APPEND_LIST ?x t"
  obtain l M where "spread (2 ^ l) (buckets ?t) M" "log2_num_buckets ?t = l" "num_buckets ?t = 2 ^ l"
      "mset (app_order ?t) = add_mset ?x M" "Suc (num_items ?t) = length (app_order ?t)"
      "app_order ?t = elems d @ [?x]"
  proof (cases d)
    case None
    have "replicate (2 ^ 5) empty_bucket = replicate 32 (empty_bucket :: 'a UT_hash_bucket)" by simp
    with None show ?thesis
      by (intro that [of 5 "{#}"]) (use spread_empty [of "2 ^ 5"] in \<open>simp_all add: HASH_MAKE_TABLE_def\<close>)
  next
    case (Some t)
    then have "table_ok t" using assms(1) by (simp add: hash_ok_def)
    from table_okD [OF this] Some show ?thesis
      by (intro that [of "log2_num_buckets t" "mset (app_order t)"]) (simp_all add: HASH_APPEND_LIST_def)
  qed
  from add_to_table_ok [OF this(1-5)] this(6) obtain t' where
    t': "HASH_ADD_TO_TABLE ?x ?t = Inr t'" "app_order t' = elems d @ [?x]"
      "num_items t' = length (elems d @ [?x])" "num_buckets t' = 2 ^ log2_num_buckets t'"
      "spread (num_buckets t') (buckets t') (mset (app_order t'))" by auto
  have "hash_ok (Some t')"
    using t' assms hash_ok_elems [OF assms(1)] by (auto simp: hash_ok_def table_ok_def)
  with t' show ?thesis by (simp add: HASH_ADD_KEYPTR_BYHASHVALUE_def Let_def)
qed

lemma distinct_remove1: "distinct (map f xs) \<Longrightarrow> distinct (map f (remove1 x xs))"
  by (induction xs) (auto dest!: set_mp [OF set_remove1_subset])

lemma delete_ok:
  assumes "hash_ok d" and "x \<in> set (elems d)"
  shows "\<exists>d'. HASH_DELETE d x = Inr d' \<and> hash_ok d' \<and> elems d' = remove1 x (elems d)"
proof (cases d)
  case None
  with assms(2) show ?thesis by simp
next
  case (Some t)
  then have t: "table_ok t" and x: "x \<in> set (app_order t)" using assms by (simp_all add: hash_ok_def)
  show ?thesis
  proof (cases "app_order t = [x]")
    case True
    with Some show ?thesis by (simp add: HASH_DELETE_def hash_ok_def)
  next
    case False
    let ?i = "HASH_TO_BKT (hh_hashv x) (2 ^ log2_num_buckets t)"
    let ?b = "buckets t ! ?i"
    let ?b' = "?b\<lparr>bkt_count := bkt_count ?b - 1, hh_chain := remove1 x (hh_chain ?b)\<rparr>"
    let ?t = "t\<lparr>app_order := remove1 x (app_order t), buckets := (buckets t)[?i := ?b'],
      num_items := num_items t - 1\<rparr>"
    have "spread (2 ^ log2_num_buckets t) (buckets ?t) (mset (app_order ?t))"
      using spread_remove [OF table_okD(3) [OF t] _ refl, of x ?b'] x by simp
    then have "table_ok ?t"
      using table_okD [OF t] x
      by (auto simp: table_ok_def distinct_remove1 length_remove1 dest: notin_set_remove1)
    moreover have "remove1 x (app_order t) \<noteq> []"
      using False x by (cases "app_order t") (auto simp: remove1_split split: if_splits)
    moreover have "HASH_DELETE d x = Inr (Some ?t)"
      using False Some spread_add(1) [OF table_okD(3) [OF t] refl, where x = x]
      by (simp add: HASH_DELETE_def HASH_DEL_IN_BKT_def table_okD(1) [OF t])
    ultimately show ?thesis using Some by (simp add: hash_ok_def)
  qed
qed

lemma fsck_ok:
  assumes "hash_ok d"
  shows "HASH_FSCK d"
proof (cases d)
  case (Some t)
  then have t: "table_ok t" using assms by (simp add: hash_ok_def)
  have l: "length (buckets t) = num_buckets t" using t by (simp add: table_ok_def spread_def)
  have "list_all (\<lambda>b. bkt_count b = length (hh_chain b)) (buckets t)"
    using t by (auto simp: table_ok_def spread_def list_all_length)
  moreover have "sum_list (map (\<lambda>b. length (hh_chain b)) (buckets t)) = num_items t"
  proof -
    have "size (mset (concat (map hh_chain (buckets t)))) = num_items t"
      using spread_concat [OF table_okD(3) [OF t]] table_okD(2) [OF t] by simp
    then show ?thesis by (simp add: length_concat comp_def)
  qed
  ultimately show ?thesis using Some l table_okD(2) [OF t] by (simp add: HASH_FSCK_def)
qed (simp add: HASH_FSCK_def)

lemma find_None: "find (\<lambda>x. f x = k) xs = None \<longleftrightarrow> k \<notin> f ` set xs"
  by (auto simp: find_None_iff)

lemma remove1_keys:
  "distinct (map f xs) \<Longrightarrow> x \<in> set xs \<Longrightarrow> set (remove1 x xs) = {y \<in> set xs. f y \<noteq> f x}"
  by (induction xs) (auto simp: image_iff)

lemma set_without:
  assumes "distinct (map f xs)"
  shows "set (case find (\<lambda>x. f x = k) xs of None \<Rightarrow> xs | Some x \<Rightarrow> remove1 x xs) = {x \<in> set xs. f x \<noteq> k}"
proof (cases "find (\<lambda>x. f x = k) xs")
  case None
  moreover from this have "\<forall>x \<in> set xs. f x \<noteq> k" by (simp add: find_None_iff)
  ultimately show ?thesis by auto
next
  case (Some y)
  then have "y \<in> set xs" "f y = k" by (simp_all add: find_distinct [OF assms])
  with Some remove1_keys [OF assms] show ?thesis by simp
qed

text \<open>What a replacement does before it adds: the element with the key, if there is one, leaves the table.\<close>

lemma delete_found:
  assumes "hash_ok d" and r: "r = find (\<lambda>x. hh_key x = key) (elems d)"
  shows "\<exists>d'. (case r of None \<Rightarrow> Inr d | Some x \<Rightarrow> HASH_DELETE d x) = Inr d' \<and> hash_ok d' \<and>
    elems d' = (case r of None \<Rightarrow> elems d | Some x \<Rightarrow> remove1 x (elems d)) \<and>
    key \<notin> hh_key ` set (elems d')"
proof -
  have "\<exists>d'. (case r of None \<Rightarrow> Inr d | Some x \<Rightarrow> HASH_DELETE d x) = Inr d' \<and> hash_ok d' \<and>
      elems d' = (case r of None \<Rightarrow> elems d | Some x \<Rightarrow> remove1 x (elems d))"
  proof (cases r)
    case (Some x)
    then have "x \<in> set (elems d)" using r find_distinct [OF hash_ok_elems(1) [OF assms(1)]] by metis
    with Some delete_ok [OF assms(1)] show ?thesis by simp
  qed (use assms(1) in simp)
  moreover have "key \<notin> hh_key ` set (case r of None \<Rightarrow> elems d | Some x \<Rightarrow> remove1 x (elems d))"
    unfolding r set_without [OF hash_ok_elems(1) [OF assms(1)]] by auto
  ultimately show ?thesis by auto
qed

lemma replace_ok:
  assumes "hash_ok d"
  shows "\<exists>r d' h. HASH_REPLACE d key e = Inr (r, d') \<and> hash_ok d' \<and> r = find (\<lambda>x. hh_key x = key) (elems d) \<and>
    elems d' = (case r of None \<Rightarrow> elems d | Some x \<Rightarrow> remove1 x (elems d)) @
      [\<lparr>hh_key = key, hh_hashv = h, hh_elem = e\<rparr>]"
proof -
  obtain h where h: "HASH_VALUE key = Inr h" using HASH_VALUE_ok by blast
  let ?r = "find (\<lambda>x. hh_key x = key) (elems d)"
  have f: "HASH_FIND_BYHASHVALUE d key h = Inr ?r" using find_ok [OF assms, of key] h by (simp add: HASH_FIND_def)
  from delete_found [OF assms refl, of key] obtain d1 where
    d1: "(case ?r of None \<Rightarrow> Inr d | Some x \<Rightarrow> HASH_DELETE d x) = Inr d1" "hash_ok d1"
      "elems d1 = (case ?r of None \<Rightarrow> elems d | Some x \<Rightarrow> remove1 x (elems d))" "key \<notin> hh_key ` set (elems d1)" by blast
  from add_ok [OF d1(2,4) h, of e] obtain d' where d':
    "HASH_ADD_KEYPTR_BYHASHVALUE d1 key h e = Inr d'" "hash_ok d'"
    "elems d' = elems d1 @ [\<lparr>hh_key = key, hh_hashv = h, hh_elem = e\<rparr>]" by blast
  have "HASH_REPLACE d key e = Inr (?r, d')" unfolding HASH_REPLACE_def h f bindR_simps d1(1) d'(1) ..
  with d' d1(3) show ?thesis by (intro exI [of _ ?r] exI [of _ d'] exI [of _ h]) simp
qed

section \<open>The table as a keyed store\<close>

text \<open>An element with its key; adding one replaces what the table has for the key.\<close>

definition hash_store :: "'e hash_head \<Rightarrow> byte list \<times> 'e \<Rightarrow> 'e hash_head res" where
  "hash_store d = (\<lambda>(key, e). bindR (HASH_REPLACE d key e) (\<lambda>(_, d). Inr d))"

definition hash_fetch :: "'e hash_head \<Rightarrow> byte list \<Rightarrow> (byte list \<times> 'e) option" where
  "hash_fetch d key = (case HASH_FIND d key of Inr (Some x) \<Rightarrow> Some (hh_key x, hh_elem x) | _ \<Rightarrow> None)"

lemma hash_fetch_Some:
  assumes "hash_ok d"
  shows "hash_fetch d key = Some (k, e) \<longleftrightarrow> k = key \<and> (\<exists>x \<in> set (elems d). hh_key x = key \<and> hh_elem x = e)"
proof -
  have "hash_fetch d key = Some (k, e) \<longleftrightarrow>
      (\<exists>x. find (\<lambda>x. hh_key x = key) (elems d) = Some x \<and> hh_key x = k \<and> hh_elem x = e)"
    using find_ok [OF assms, of key] by (auto simp: hash_fetch_def split: option.splits)
  then show ?thesis by (auto simp: find_distinct [OF hash_ok_elems(1) [OF assms]])
qed

lemma hash_store_ok: "hash_ok d \<Longrightarrow> \<exists>d'. hash_store d e = Inr d' \<and> hash_ok d'"
  using replace_ok [of d "fst e" "snd e"] by (auto simp: hash_store_def split: prod.split)

lemma hash_fetch_store:
  assumes "hash_ok d" and "hash_store d e = Inr d'"
  shows "hash_fetch d' k = (if k = fst e then Some e else hash_fetch d k)"
proof -
  obtain r h where *: "hash_ok d'" "r = find (\<lambda>x. hh_key x = fst e) (elems d)"
      "elems d' = (case r of None \<Rightarrow> elems d | Some x \<Rightarrow> remove1 x (elems d)) @
        [\<lparr>hh_key = fst e, hh_hashv = h, hh_elem = snd e\<rparr>]"
    using replace_ok [OF assms(1), of "fst e" "snd e"] assms(2) by (auto simp: hash_store_def split: prod.splits)
  have "set (case r of None \<Rightarrow> elems d | Some x \<Rightarrow> remove1 x (elems d)) = {x \<in> set (elems d). hh_key x \<noteq> fst e}"
    unfolding *(2) by (rule set_without [OF hash_ok_elems(1) [OF assms(1)]])
  with *(3) have "set (elems d') =
      insert \<lparr>hh_key = fst e, hh_hashv = h, hh_elem = snd e\<rparr> {x \<in> set (elems d). hh_key x \<noteq> fst e}"
    by simp
  then have "hash_fetch d' k = Some (k', y) \<longleftrightarrow> (if k = fst e then Some e else hash_fetch d k) = Some (k', y)" for k' y
    by (cases e) (auto simp: hash_fetch_Some [OF *(1)] hash_fetch_Some [OF assms(1)])
  then show ?thesis by (metis not_Some_eq surj_pair)
qed

interpretation uth: keyed_store hash_ok fst "\<lambda>_. True" hash_store hash_fetch
  by unfold_locales (simp_all add: hash_store_ok hash_fetch_store)

text \<open>A table with one element, whose key is the integer 7.\<close>

lemma sample_hash:
  "\<exists>d. HASH_ADD_INT None 7 ''a'' = Inr d \<and> hash_ok d \<and>
    (\<exists>h. elems d = [\<lparr>hh_key = int_key 7, hh_hashv = h, hh_elem = ''a''\<rparr>])"
proof -
  obtain h where "HASH_VALUE (int_key 7) = Inr h" using HASH_VALUE_ok by blast
  with add_ok [of None "int_key 7" h "''a''"] show ?thesis
    by (auto simp: hash_ok_def HASH_ADD_INT_def HASH_ADD_KEYPTR_def)
qed

section \<open>Properties\<close>



end
