(* ===== verification/AidSql.thy ===== *)
theory AidSql
  imports Uthash Soap Base64
begin

text \<open>
  The table of commands and the credentials of the requests (\<^verbatim>\<open>proxy_server/sqlite/aid_sql.c\<close>), both
  read from the database file. SQLite itself is a parameter: whether the file opens, and for a
  statement the rows for which the callback is called and the code that is returned at the end.
  A row is the list of its column names and values; a null value is \<open>None\<close>.
\<close>

section \<open>Decimal strings\<close>

text \<open>
  \<open>atoi\<close>: blanks, a sign, digits. A number beyond the range of \<open>long\<close> is cut to that range and then
  converted to \<open>int\<close>, as the C library of the target does.
\<close>

definition c_isspace :: "byte \<Rightarrow> bool" where
  "c_isspace c \<longleftrightarrow> c = 32 \<or> (9 \<le> c \<and> c \<le> 13)"

fun drop_space :: "byte list \<Rightarrow> byte list res" where
  "drop_space [] = Inl OobRead"
| "drop_space (c # s) = (if c_isspace c then drop_space s else Inr (c # s))"

fun scan_int :: "byte list \<Rightarrow> int \<Rightarrow> int res" where
  "scan_int [] v = Inl OobRead"
| "scan_int (c # s) v = (if 48 \<le> c \<and> c \<le> 57 then scan_int s (v * 10 + (uint c - 48)) else Inr v)"

definition to_int32 :: "int \<Rightarrow> int" where
  "to_int32 v = (max (- (2 ^ 63)) (min (2 ^ 63 - 1) v) + 2 ^ 31) mod 2 ^ 32 - 2 ^ 31"

definition atoi :: "byte list \<Rightarrow> int res" where
  "atoi s =
     bindR (drop_space s) (\<lambda>s.
     bindR (rd s 0) (\<lambda>c.
       if c = 45 then bindR (scan_int (drop 1 s) 0) (\<lambda>v. Inr (to_int32 (- v)))
       else bindR (scan_int (if c = 43 then drop 1 s else s) 0) (\<lambda>v. Inr (to_int32 v))))"

section \<open>The database\<close>

type_synonym row = "(byte list \<times> byte list option) list"

record sqlite =
  sqlite3_open :: "byte list \<Rightarrow> int"
  sqlite3_exec :: "byte list \<Rightarrow> row list \<times> int"

text \<open>\<open>snprintf(db_path, sizeof(db_path), "%s/%s", szBuf, "commands.db")\<close>\<close>

definition db_path :: "byte list \<Rightarrow> byte list" where
  "db_path cwd = take (MAX_BUF_SIZE - 1) (cwd @ bytes_of ''/commands.db'')"

fun each_row :: "(row \<Rightarrow> 's \<Rightarrow> 's res) \<Rightarrow> row list \<Rightarrow> 's \<Rightarrow> 's res" where
  "each_row callback [] s = Inr s"
| "each_row callback (r # rs) s = bindR (callback r s) (each_row callback rs)"

text \<open>\<open>strncmp(azColName[i], "...", n) == 0\<close>: the name begins with the word.\<close>

definition column_is :: "byte list \<Rightarrow> string \<Rightarrow> bool res" where
  "column_is name word = strncmp_eq name (lit (bytes_of word)) (length word)"

section \<open>The table of commands\<close>

record Command =
  cmd_value :: "byte list"
  paramNum :: int
  needRsp :: bool
  deprecated :: bool
  is2Pipe :: bool

record Table =
  command_id :: int
  cmd :: Command

text \<open>The array \<open>value\<close> (\<open>cmd_value\<close> here) has 256 bytes; \<open>memset\<close> clears the element.\<close>

definition new_elem :: Table where
  "new_elem = \<lparr>command_id = 0,
     cmd = \<lparr>cmd_value = replicate 256 0, paramNum = 0, needRsp = False, deprecated = False, is2Pipe = False\<rparr>\<rparr>"

definition record_column :: "byte list \<times> byte list option \<Rightarrow> Table \<Rightarrow> Table res" where
  "record_column = (\<lambda>(name, arg) e.
     let with_arg = (\<lambda>f. case arg of None \<Rightarrow> Inr e | Some a \<Rightarrow> f a);
         with_int = (\<lambda>f. with_arg (\<lambda>a. bindR (atoi a) (\<lambda>v. Inr (f v))))
     in bindR (column_is name ''key'') (\<lambda>is_key.
        if is_key then with_int (\<lambda>v. e\<lparr>command_id := v\<rparr>)
        else bindR (column_is name ''command'') (\<lambda>is_command.
        if is_command then
          with_arg (\<lambda>a. bindR (strlen a) (\<lambda>n. bindR (strncpy (cmd_value (cmd e)) 0 a n) (\<lambda>v.
            Inr (e\<lparr>cmd := (cmd e)\<lparr>cmd_value := v\<rparr>\<rparr>))))
        else bindR (column_is name ''needRsp'') (\<lambda>is_needRsp.
        if is_needRsp then with_int (\<lambda>v. e\<lparr>cmd := (cmd e)\<lparr>needRsp := v \<noteq> 0\<rparr>\<rparr>)
        else bindR (column_is name ''deprecated'') (\<lambda>is_deprecated.
        if is_deprecated then with_int (\<lambda>v. e\<lparr>cmd := (cmd e)\<lparr>deprecated := v \<noteq> 0\<rparr>\<rparr>)
        else bindR (column_is name ''num'') (\<lambda>is_num.
        if is_num then with_int (\<lambda>v. e\<lparr>cmd := (cmd e)\<lparr>paramNum := v\<rparr>\<rparr>)
        else bindR (column_is name ''pipe'') (\<lambda>is_pipe.
        if is_pipe then with_int (\<lambda>v. e\<lparr>cmd := (cmd e)\<lparr>is2Pipe := v \<noteq> 0\<rparr>\<rparr>)
        else Inr e)))))))"

fun record_columns :: "row \<Rightarrow> Table \<Rightarrow> Table res" where
  "record_columns [] e = Inr e"
| "record_columns (c # cs) e = bindR (record_column c e) (record_columns cs)"

definition callback_record_command :: "row \<Rightarrow> Table hash_head \<Rightarrow> Table hash_head res" where
  "callback_record_command r command_table =
     bindR (record_columns r new_elem) (\<lambda>e.
       HASH_ADD_INT command_table (word_of_int (command_id e)) e)"

text \<open>The result is the return value and the table.\<close>

definition init_commands_table ::
    "sqlite \<Rightarrow> byte list \<Rightarrow> Table hash_head \<Rightarrow> (int \<times> Table hash_head) res" where
  "init_commands_table db cwd command_table =
     (if sqlite3_open db (db_path cwd) \<noteq> 0 then Inr (-1, command_table)
      else case sqlite3_exec db (bytes_of ''SELECT * from commands'') of (rows, rc) \<Rightarrow>
        bindR (each_row callback_record_command rows command_table) (\<lambda>command_table.
          Inr (if rc \<noteq> 0 then -1 else 0, command_table)))"

definition value_for_key :: "Table hash_head \<Rightarrow> int \<Rightarrow> Command option res" where
  "value_for_key command_table key =
     (case command_table of
        None \<Rightarrow> Inr None
      | Some t \<Rightarrow>
          bindR (HASH_FIND_INT command_table (word_of_int key)) (\<lambda>elem.
            Inr (map_option (\<lambda>x. cmd (hh_elem x)) elem)))"

text \<open>
  \<open>HASH_ITER\<close> with \<open>HASH_DEL\<close> and \<open>free\<close> in its body: the next element is read before the current one
  is removed, so that the elements are those of the list at the start. The second result is what has
  been freed.
\<close>

fun destroy_elems :: "Table hash_head \<Rightarrow> Table UT_hash_handle list \<Rightarrow>
    (Table hash_head \<times> Table UT_hash_handle list) res" where
  "destroy_elems head [] = Inr (head, [])"
| "destroy_elems head (x # xs) =
     bindR (HASH_DELETE head x) (\<lambda>head.
     bindR (destroy_elems head xs) (\<lambda>(head, freed).
       if x \<in> set freed then Inl UseAfterFree else Inr (head, x # freed)))"

definition destory_commands_table ::
    "Table hash_head \<Rightarrow> (Table hash_head \<times> Table UT_hash_handle list) res" where
  "destory_commands_table command_table =
     (case command_table of
        None \<Rightarrow> Inr (None, [])
      | Some t \<Rightarrow> destroy_elems command_table (app_order t))"

section \<open>The credentials of the requests\<close>

definition c_toupper :: "byte \<Rightarrow> byte" where
  "c_toupper c = (if 97 \<le> c \<and> c \<le> 122 then c - 32 else c)"

fun stoupper :: "byte list \<Rightarrow> byte list res" where
  "stoupper [] = Inl OobRead"
| "stoupper (c # s) =
     (if c_toupper c = 0 then Inr (0 # s) else bindR (stoupper s) (\<lambda>s. Inr (c_toupper c # s)))"

text \<open>The two buffers of a row, \<open>szName\<close> and \<open>szPswd\<close>\<close>

definition request_column ::
    "byte list \<times> byte list option \<Rightarrow> byte list \<times> byte list \<Rightarrow> (byte list \<times> byte list) res" where
  "request_column = (\<lambda>(name, arg) (szName, szPswd).
     bindR (column_is name ''idx'') (\<lambda>is_idx.
     if is_idx then Inr (szName, szPswd)
     else bindR (column_is name ''Name'') (\<lambda>is_name.
     if is_name then
       (case arg of None \<Rightarrow> Inr (szName, szPswd)
        | Some a \<Rightarrow> bindR (stoupper a) (\<lambda>a. bindR (strlen a) (\<lambda>n. bindR (strncpy szName 0 a n) (\<lambda>szName.
            Inr (szName, szPswd)))))
     else bindR (column_is name ''Password'') (\<lambda>is_password.
     if is_password then
       (case arg of None \<Rightarrow> Inr (szName, szPswd)
        | Some a \<Rightarrow> bindR (strlen a) (\<lambda>n. bindR (strncpy szPswd 0 a n) (\<lambda>szPswd. Inr (szName, szPswd))))
     else Inr (szName, szPswd)))))"

fun request_columns :: "row \<Rightarrow> byte list \<times> byte list \<Rightarrow> (byte list \<times> byte list) res" where
  "request_columns [] s = Inr s"
| "request_columns (c # cs) s = bindR (request_column c s) (request_columns cs)"

text \<open>
  \<open>auth_base64\<close> is the object that \<open>malloc\<close> has returned (its bytes are not yet written then), or
  null. The old one is freed before; the string printed to \<open>szBuff\<close> is cut at its size.
\<close>

definition callback_record_request :: "row \<Rightarrow> byte list option \<Rightarrow> byte list option res" where
  "callback_record_request r auth_base64 =
     bindR (request_columns r (replicate MAX_BUF_SIZE 0, replicate MAX_BUF_SIZE 0)) (\<lambda>(szName, szPswd).
     bindR (strlen szName) (\<lambda>n.
     bindR (if 0 < n then strlen szPswd else Inr 0) (\<lambda>p.
       if 0 < n \<and> 0 < p then
         let szBuff = take (MAX_BUF_SIZE - 1) (take n szName @ 58 # take p szPswd);
             len = int (length szBuff)
         in bindR (Base64encode (replicate (nat (Base64encode_len len)) 0) (szBuff @ [0]) len) (\<lambda>(_, auth).
              Inr (Some auth))
       else Inr auth_base64)))"

definition init_request_auth ::
    "sqlite \<Rightarrow> byte list \<Rightarrow> byte list option \<Rightarrow> (int \<times> byte list option) res" where
  "init_request_auth db cwd auth_base64 =
     (if sqlite3_open db (db_path cwd) \<noteq> 0 then Inr (-1, auth_base64)
      else case sqlite3_exec db (bytes_of ''SELECT * from request_auth'') of (rows, rc) \<Rightarrow>
        bindR (each_row callback_record_request rows auth_base64) (\<lambda>auth_base64.
          Inr (if rc \<noteq> 0 then -2 else 0, auth_base64)))"

definition fetch_request_auth :: "byte list option \<Rightarrow> byte list option" where
  "fetch_request_auth auth_base64 = auth_base64"

definition destory_request_auth :: "byte list option \<Rightarrow> byte list option" where
  "destory_request_auth auth_base64 = None"

section \<open>Numbers as text\<close>

lemma scan_print_digits: "scan_int (digits n @ s) 0 = scan_int s (int n)"
proof (induction n arbitrary: s rule: digits.induct)
  case (1 n)
  have range: "48 \<le> (of_nat (48 + d) :: byte) \<and> (of_nat (48 + d) :: byte) \<le> 57 \<and>
      uint (of_nat (48 + d) :: byte) - 48 = int d" if "d < 10" for d
    using that unat_digit [of d] by (simp add: word_le_nat_alt uint_nat del: of_nat_add)
  show ?case
  proof (cases "n < 10")
    case True
    with range [of n] show ?thesis by (simp add: digits.simps [of n] del: of_nat_add)
  next
    case False
    with "1.IH" [OF False] range [of "n mod 10"] show ?thesis
      by (simp add: digits.simps [of n] zmod_int zdiv_int del: of_nat_add)
  qed
qed

lemma atoi_print_int:
  assumes "- (2 ^ 31) \<le> i" and "i < 2 ^ 31"
  shows "atoi (print_int i @ 0 # r) = Inr i"
proof -
  have first: "\<exists>c ds. digits n = c # ds \<and> \<not> c_isspace c \<and> c \<noteq> 45 \<and> c \<noteq> 43" for n
  proof -
    obtain c ds where c: "digits n = c # ds" by (meson digits_nonempty neq_Nil_conv)
    then have "48 \<le> unat c" using digits_range [of c n] by simp
    then have "\<not> c_isspace c" "c \<noteq> 45" "c \<noteq> 43" by (auto simp: c_isspace_def word_le_nat_alt)
    with c show ?thesis by blast
  qed
  have fits: "to_int32 i = i" using assms by (simp add: to_int32_def)
  show ?thesis
  proof (cases "i < 0")
    case True
    moreover have "\<not> c_isspace 45" by (simp add: c_isspace_def)
    ultimately show ?thesis using fits by (simp add: atoi_def print_int_def mem_simps scan_print_digits)
  next
    case False
    with first [of "nat i"] obtain c ds where c: "digits (nat i) = c # ds" "\<not> c_isspace c" "c \<noteq> 45" "c \<noteq> 43" by blast
    moreover have "scan_int (c # ds @ 0 # r) 0 = Inr i"
      using scan_print_digits [of "nat i" "0 # r"] c(1) False by simp
    ultimately show ?thesis using False fits by (simp add: atoi_def print_int_def mem_simps del: scan_int.simps)
  qed
qed

lemma int_key_bit: "n < 32 \<Longrightarrow> bit (int_key v ! (n div 8)) (n mod 8) = bit v n"
  by (simp add: int_key_def bit_simps less_mult_imp_div_less)

lemma word32_len: "LENGTH(32) = 32"
  by simp

lemma int_key_inj: "int_key v = int_key w \<longleftrightarrow> v = w"
  by (metis int_key_bit bit_word_eqI word32_len)

lemma word_of_int32:
  assumes "- (2 ^ 31) \<le> a" "a < 2 ^ 31" "- (2 ^ 31) \<le> b" "b < 2 ^ 31"
  shows "(word_of_int a :: 32 word) = word_of_int b \<longleftrightarrow> a = b"
proof
  assume "(word_of_int a :: 32 word) = word_of_int b"
  then have "a mod 4294967296 = b mod 4294967296" by (simp add: word_of_int_eq_iff take_bit_eq_mod)
  then have "4294967296 dvd a - b" by (simp add: mod_eq_dvd_iff)
  then show "a = b" using assms zdvd_imp_le [of 4294967296 "a - b"] zdvd_imp_le [of 4294967296 "b - a"]
    by (cases a b rule: linorder_cases) (auto simp: dvd_diff_commute)
qed simp

section \<open>Rows of the database\<close>

text \<open>
  The tables of \<^verbatim>\<open>commands.db\<close>: \<open>commands (key, command, needRsp, deprecated, num, pipe)\<close>, whose primary key is
  \<open>key\<close>, and \<open>request_auth (idx, Name, Password)\<close>. SQLite gives every value as a string.
\<close>

record db_command =
  db_key :: int
  db_text :: "byte list"
  db_rsp :: bool
  db_deprecated :: bool
  db_num :: int
  db_pipe :: bool

definition column_name :: "string \<Rightarrow> byte list" where
  "column_name w = lit (bytes_of w)"

definition int_text :: "int \<Rightarrow> byte list" where
  "int_text i = lit (print_int i)"

definition bool_text :: "bool \<Rightarrow> byte list" where
  "bool_text b = int_text (if b then 1 else 0)"

definition command_row :: "db_command \<Rightarrow> row" where
  "command_row c =
     [(column_name ''key'', Some (int_text (db_key c))), (column_name ''command'', Some (lit (db_text c))),
      (column_name ''needRsp'', Some (bool_text (db_rsp c))), (column_name ''deprecated'', Some (bool_text (db_deprecated c))),
      (column_name ''num'', Some (int_text (db_num c))), (column_name ''pipe'', Some (bool_text (db_pipe c)))]"

definition int32 :: "int \<Rightarrow> bool" where
  "int32 i \<longleftrightarrow> - (2 ^ 31) \<le> i \<and> i < 2 ^ 31"

definition db_command_ok :: "db_command \<Rightarrow> bool" where
  "db_command_ok c \<longleftrightarrow> int32 (db_key c) \<and> int32 (db_num c) \<and> c_content (db_text c) \<and> length (db_text c) < 256"

text \<open>What the program makes of a row.\<close>

definition command_of :: "db_command \<Rightarrow> Command" where
  "command_of c =
     \<lparr>cmd_value = db_text c @ replicate (256 - length (db_text c)) 0, paramNum = db_num c, needRsp = db_rsp c,
      deprecated = db_deprecated c, is2Pipe = db_pipe c\<rparr>"

lemma atoi_text:
  "int32 i \<Longrightarrow> atoi (int_text i) = Inr i"
  "atoi (bool_text b) = Inr (if b then 1 else 0)"
  by (simp_all add: int_text_def bool_text_def lit_def int32_def atoi_print_int)

lemma column_names:
  "column_is (column_name ''key'') ''key'' = Inr True"
  "column_is (column_name ''command'') ''key'' = Inr False"
  "column_is (column_name ''command'') ''command'' = Inr True"
  "column_is (column_name ''needRsp'') ''key'' = Inr False"
  "column_is (column_name ''needRsp'') ''command'' = Inr False"
  "column_is (column_name ''needRsp'') ''needRsp'' = Inr True"
  "column_is (column_name ''deprecated'') ''key'' = Inr False"
  "column_is (column_name ''deprecated'') ''command'' = Inr False"
  "column_is (column_name ''deprecated'') ''needRsp'' = Inr False"
  "column_is (column_name ''deprecated'') ''deprecated'' = Inr True"
  "column_is (column_name ''num'') ''key'' = Inr False"
  "column_is (column_name ''num'') ''command'' = Inr False"
  "column_is (column_name ''num'') ''needRsp'' = Inr False"
  "column_is (column_name ''num'') ''deprecated'' = Inr False"
  "column_is (column_name ''num'') ''num'' = Inr True"
  "column_is (column_name ''pipe'') ''key'' = Inr False"
  "column_is (column_name ''pipe'') ''command'' = Inr False"
  "column_is (column_name ''pipe'') ''needRsp'' = Inr False"
  "column_is (column_name ''pipe'') ''deprecated'' = Inr False"
  "column_is (column_name ''pipe'') ''num'' = Inr False"
  "column_is (column_name ''pipe'') ''pipe'' = Inr True"
  by code_simp+

lemma record_command_row:
  assumes "db_command_ok c"
  shows "record_columns (command_row c) new_elem = Inr \<lparr>command_id = db_key c, cmd = command_of c\<rparr>"
proof -
  have content: "strlen (lit (db_text c)) = Inr (length (db_text c))"
      "strncpy (replicate 256 0) 0 (lit (db_text c)) (length (db_text c)) =
        Inr (db_text c @ replicate (256 - length (db_text c)) 0)"
    using assms by (simp_all add: db_command_ok_def lit_def strlen_content strncpy_def strncpy_bytes_content memcpy_def)
  have ints: "int32 (db_key c)" "int32 (db_num c)" using assms by (simp_all add: db_command_ok_def)
  show ?thesis
    by (simp add: command_row_def record_column_def column_names atoi_text content ints new_elem_def command_of_def)
qed

text \<open>A text that does not fit into \<open>value\<close>, as \<open>varchar(256)\<close> does not forbid, is written behind it.\<close>

lemma long_command_overflows:
  assumes "c_content s" and "256 < length s"
  shows "record_column (column_name ''command'', Some (lit s)) new_elem = Inl OobWrite"
  using assms
  by (simp add: record_column_def column_names new_elem_def lit_def strlen_content strncpy_def
      strncpy_bytes_content memcpy_def)

section \<open>The table after the start\<close>

text \<open>The element of a row in the hash table\<close>

definition row_elem :: "db_command \<Rightarrow> Table" where
  "row_elem c = \<lparr>command_id = db_key c, cmd = command_of c\<rparr>"

lemma callback_ok:
  assumes "hash_ok d" and "db_command_ok c" and "int_key (word_of_int (db_key c)) \<notin> hh_key ` set (elems d)"
  shows "\<exists>d' h. callback_record_command (command_row c) d = Inr d' \<and> hash_ok d' \<and>
    elems d' = elems d @ [\<lparr>hh_key = int_key (word_of_int (db_key c)), hh_hashv = h, hh_elem = row_elem c\<rparr>]"
proof -
  obtain h where "HASH_VALUE (int_key (word_of_int (db_key c))) = Inr h" using HASH_VALUE_ok by blast
  with add_ok [OF assms(1,3) this, of "row_elem c"] record_command_row [OF assms(2)] show ?thesis
    by (simp add: callback_record_command_def HASH_ADD_INT_def HASH_ADD_KEYPTR_def row_elem_def) blast
qed

definition key_of :: "db_command \<Rightarrow> byte list" where
  "key_of c = int_key (word_of_int (db_key c))"

lemma key_of_eq: "int32 (db_key c) \<Longrightarrow> int32 k \<Longrightarrow> key_of c = int_key (word_of_int k) \<longleftrightarrow> db_key c = k"
  by (simp add: key_of_def int_key_inj word_of_int32 int32_def)

lemma key_of_inj: "int32 (db_key c) \<Longrightarrow> int32 (db_key c') \<Longrightarrow> key_of c = key_of c' \<longleftrightarrow> db_key c = db_key c'"
  using key_of_eq [of c "db_key c'"] by (simp add: key_of_def)

lemma each_row_ok:
  assumes "hash_ok d" and "list_all db_command_ok cs" and "distinct (map key_of cs)"
    and "\<And>c. c \<in> set cs \<Longrightarrow> key_of c \<notin> hh_key ` set (elems d)"
  shows "\<exists>d'. each_row callback_record_command (map command_row cs) d = Inr d' \<and> hash_ok d' \<and>
    map (\<lambda>x. (hh_key x, hh_elem x)) (elems d') =
      map (\<lambda>x. (hh_key x, hh_elem x)) (elems d) @ map (\<lambda>c. (key_of c, row_elem c)) cs"
  using assms
proof (induction cs arbitrary: d)
  case (Cons c cs)
  have "db_command_ok c" "int_key (word_of_int (db_key c)) \<notin> hh_key ` set (elems d)"
    using Cons.prems(2,4) by (simp_all add: key_of_def)
  from callback_ok [OF Cons.prems(1) this] obtain d1 h where d1:
    "callback_record_command (command_row c) d = Inr d1" "hash_ok d1"
    "elems d1 = elems d @ [\<lparr>hh_key = key_of c, hh_hashv = h, hh_elem = row_elem c\<rparr>]"
    by (auto simp: key_of_def)
  have "key_of c' \<notin> hh_key ` set (elems d1)" if "c' \<in> set cs" for c'
    using Cons.prems(3,4) that d1(3) by (force simp: image_iff)
  from Cons.IH [OF d1(2) _ _ this] Cons.prems(2,3) d1 show ?case by auto
qed simp

lemma find_map_pair:
  assumes "map (\<lambda>x. (f x, g x)) xs = map (\<lambda>c. (k c, e c)) cs"
  shows "map_option g (find (\<lambda>x. f x = y) xs) = map_option e (find (\<lambda>c. k c = y) cs)"
  using assms
proof (induction cs arbitrary: xs)
  case (Cons c cs)
  then show ?case by (cases xs) auto
qed simp

lemma destroy_ok:
  assumes "hash_ok d" and "elems d = xs"
  shows "destroy_elems d xs = Inr (None, xs)"
  using assms
proof (induction xs arbitrary: d)
  case Nil
  then show ?case by (cases d) (auto simp: hash_ok_def)
next
  case (Cons x xs)
  with delete_ok [OF Cons.prems(1), of x] obtain d1 where
    d1: "HASH_DELETE d x = Inr d1" "hash_ok d1" "elems d1 = xs" by auto
  moreover have "x \<notin> set xs" using hash_ok_elems(1) [OF Cons.prems(1)] Cons.prems(2) by auto
  ultimately show ?case using Cons.IH by simp
qed

lemma destory_ok: "hash_ok d \<Longrightarrow> destory_commands_table d = Inr (None, elems d)"
  by (cases d) (auto simp: destory_commands_table_def destroy_ok)

section \<open>The credentials\<close>

lemma stoupper_content: "c_content s \<Longrightarrow> stoupper (s @ 0 # r) = Inr (map c_toupper s @ 0 # r)"
proof (induction s)
  case (Cons c s)
  moreover have "c_toupper c \<noteq> 0" if "c \<noteq> 0" using that by (auto simp: c_toupper_def)
  ultimately show ?case by simp
qed (simp add: c_toupper_def)

lemma strncpy_string:
  assumes "c_content s" and "length s \<le> n"
  shows "strncpy (replicate n 0) 0 (s @ 0 # r) (length s) = Inr (s @ replicate (n - length s) 0)"
  using assms by (simp add: strncpy_def strncpy_bytes_content memcpy_def)

lemma request_names:
  "column_is (column_name ''idx'') ''idx'' = Inr True"
  "column_is (column_name ''Name'') ''idx'' = Inr False"
  "column_is (column_name ''Name'') ''Name'' = Inr True"
  "column_is (column_name ''Password'') ''idx'' = Inr False"
  "column_is (column_name ''Password'') ''Name'' = Inr False"
  "column_is (column_name ''Password'') ''Password'' = Inr True"
  by code_simp+

definition auth_row :: "byte list \<Rightarrow> byte list \<Rightarrow> byte list \<Rightarrow> row" where
  "auth_row idx name password =
     [(column_name ''idx'', Some (lit idx)), (column_name ''Name'', Some (lit name)),
      (column_name ''Password'', Some (lit password))]"

lemma strlen_padded: "c_content s \<Longrightarrow> length s < n \<Longrightarrow> strlen (s @ replicate (n - length s) 0) = Inr (length s)"
  by (cases "n - length s") (auto simp: strlen_content)

lemma c_content_toupper: "c_content s \<Longrightarrow> c_content (map c_toupper s)"
  by (induction s) (auto simp: c_toupper_def)

lemma request_columns_row:
  assumes "c_content name" "length name < MAX_BUF_SIZE" "c_content password" "length password < MAX_BUF_SIZE"
  shows "request_columns (auth_row idx name password) (replicate MAX_BUF_SIZE 0, replicate MAX_BUF_SIZE 0) =
    Inr (map c_toupper name @ replicate (MAX_BUF_SIZE - length name) 0,
      password @ replicate (MAX_BUF_SIZE - length password) 0)"
proof -
  let ?n = "map c_toupper name"
  have "strlen (?n @ [0]) = Inr (length name)"
    using strlen_content [OF c_content_toupper [OF assms(1)], of "[]"] by simp
  moreover have "strncpy (replicate MAX_BUF_SIZE 0) 0 (?n @ [0]) (length name) =
      Inr (?n @ replicate (MAX_BUF_SIZE - length name) 0)"
    using strncpy_string [OF c_content_toupper [OF assms(1)], of MAX_BUF_SIZE "[]"] assms(2) by simp
  moreover have "strlen (password @ [0]) = Inr (length password)" by (rule strlen_content [OF assms(3)])
  moreover have "strncpy (replicate MAX_BUF_SIZE 0) 0 (password @ [0]) (length password) =
      Inr (password @ replicate (MAX_BUF_SIZE - length password) 0)"
    using strncpy_string [OF assms(3), of MAX_BUF_SIZE "[]"] assms(4) by simp
  ultimately show ?thesis
    using stoupper_content [OF assms(1), of "[]"]
    by (simp add: auth_row_def request_column_def request_names lit_def)
qed

lemma Base64encode_string:
  assumes "length encoded = nat (Base64encode_len (int (length s)))"
  shows "Base64encode encoded (s @ r) (int (length s)) =
    Inr (Base64encode_len (int (length s)), encode_body s @ [0])"
  using Base64encode_eq [OF assms] by (simp add: Base64encode_def)

lemma callback_request_ok:
  assumes "c_content name" "0 < length name" "length name < MAX_BUF_SIZE"
    and "c_content password" "0 < length password" "length password < MAX_BUF_SIZE"
  shows "callback_record_request (auth_row idx name password) auth =
    Inr (Some (encode_body (take (MAX_BUF_SIZE - 1) (map c_toupper name @ 58 # password)) @ [0]))"
proof -
  let ?n = "map c_toupper name"
  let ?b = "take (MAX_BUF_SIZE - 1) (?n @ 58 # password)"
  have n: "strlen (?n @ replicate (MAX_BUF_SIZE - length name) 0) = Inr (length name)"
    using strlen_padded [OF c_content_toupper [OF assms(1)], of MAX_BUF_SIZE] assms(3) by simp
  have p: "strlen (password @ replicate (MAX_BUF_SIZE - length password) 0) = Inr (length password)"
    using strlen_padded [OF assms(4,6)] .
  let ?e = "replicate (nat (Base64encode_len (int (length ?b)))) (0 :: byte)"
  have e: "Base64encode ?e (?b @ [0]) (int (length ?b)) = Inr (Base64encode_len (int (length ?b)), encode_body ?b @ [0])"
    by (rule Base64encode_string) (rule length_replicate)
  have t: "take (length name) (?n @ z) = ?n" "take (length password) (password @ z) = password" for z by simp_all
  show ?thesis
    unfolding callback_record_request_def request_columns_row [OF assms(1,3,4,6)] bindR_simps prod.case n p
    using assms(2,5) e by (simp only: p t bindR_simps Let_def prod.case simp_thms if_True)
qed

section \<open>Properties\<close>

text \<open>
  C25: The command table of the running program is the table \<open>commands\<close> of the database. When the
  database opens and its rows have distinct keys and texts of less than 256 bytes,
  \<open>init_commands_table\<close> succeeds; then \<open>value_for_key\<close> gives for every key the command of the row with that key, with all of its
  fields, and null for a key that no row has; and \<open>destory_commands_table\<close> frees the element of each
  row exactly once and leaves no table.
\<close>

theorem commands_table_loaded:
  assumes "sqlite3_open db (db_path cwd) = 0"
    and "sqlite3_exec db (bytes_of ''SELECT * from commands'') = (map command_row cs, 0)"
    and "list_all db_command_ok cs" and "distinct (map db_key cs)"
  shows "\<exists>d. init_commands_table db cwd None = Inr (0, d) \<and>
    (\<forall>k. int32 k \<longrightarrow> value_for_key d k = Inr (map_option command_of (find (\<lambda>c. db_key c = k) cs))) \<and>
    (\<exists>freed. destory_commands_table d = Inr (None, freed) \<and> distinct freed \<and> map hh_elem freed = map row_elem cs)"
proof -
  have keys: "int32 (db_key c)" if "c \<in> set cs" for c
    using assms(3) that by (auto simp: list_all_iff db_command_ok_def)
  have "distinct (map key_of cs)"
    using assms(4) keys by (auto simp: distinct_map inj_on_def key_of_inj)
  from each_row_ok [OF _ assms(3) this, of None] obtain d where
    d: "each_row callback_record_command (map command_row cs) None = Inr d" "hash_ok d"
      "map (\<lambda>x. (hh_key x, hh_elem x)) (elems d) = map (\<lambda>c. (key_of c, row_elem c)) cs"
    by (auto simp: hash_ok_def)
  have "value_for_key d k = Inr (map_option command_of (find (\<lambda>c. db_key c = k) cs))" if "int32 k" for k
  proof -
    have "value_for_key d k = Inr (map_option (\<lambda>x. cmd (hh_elem x))
        (find (\<lambda>x. hh_key x = int_key (word_of_int k)) (elems d)))"
      using find_ok [OF d(2)] by (cases d) (simp_all add: value_for_key_def HASH_FIND_INT_def)
    also have "map_option (\<lambda>x. cmd (hh_elem x)) (find (\<lambda>x. hh_key x = int_key (word_of_int k)) (elems d)) =
        map_option cmd (map_option row_elem (find (\<lambda>c. key_of c = int_key (word_of_int k)) cs))"
      using arg_cong [OF find_map_pair [OF d(3)], of "map_option cmd"] by (simp add: option.map_comp comp_def)
    also have "find (\<lambda>c. key_of c = int_key (word_of_int k)) cs = find (\<lambda>c. db_key c = k) cs"
      using keys that by (intro find_cong) (simp_all add: key_of_eq)
    finally show ?thesis by (simp add: option.map_comp comp_def row_elem_def)
  qed
  moreover have "init_commands_table db cwd None = Inr (0, d)"
    using assms(1,2) d(1) by (simp add: init_commands_table_def)
  moreover have "distinct (elems d)" using hash_ok_elems(1) [OF d(2)] by (simp add: distinct_map)
  moreover have "map hh_elem (elems d) = map row_elem cs"
    using arg_cong [OF d(3), of "map snd"] by (simp add: comp_def)
  ultimately show ?thesis using destory_ok [OF d(2)] by blast
qed

definition sample_db :: sqlite where
  "sample_db = \<lparr>sqlite3_open = (\<lambda>path. 0),
     sqlite3_exec = (\<lambda>sql.
       if sql = bytes_of ''SELECT * from commands''
       then (map command_row
         [\<lparr>db_key = 7, db_text = bytes_of ''pinfo %s'', db_rsp = True, db_deprecated = False, db_num = 1, db_pipe = True\<rparr>,
          \<lparr>db_key = 3, db_text = bytes_of ''account delete %s'', db_rsp = True, db_deprecated = False, db_num = 1, db_pipe = True\<rparr>], 0)
       else ([auth_row (bytes_of ''1'') (bytes_of ''luffy'') (bytes_of ''1A!'')], 0))\<rparr>"

theorem commands_table_loaded_witness:
  "\<exists>d. init_commands_table sample_db (bytes_of ''/srv'') None = Inr (0, d) \<and>
    map_sum id (map_option paramNum) (value_for_key d 7) = Inr (Some 1) \<and> value_for_key d 4 = Inr None"
proof -
  let ?a = "\<lparr>db_key = 7, db_text = bytes_of ''pinfo %s'', db_rsp = True, db_deprecated = False, db_num = 1, db_pipe = True\<rparr>"
  let ?b = "\<lparr>db_key = 3, db_text = bytes_of ''account delete %s'', db_rsp = True, db_deprecated = False, db_num = 1, db_pipe = True\<rparr>"
  have "list_all db_command_ok [?a, ?b]"
    by (simp add: db_command_ok_def int32_def)
  moreover have "sqlite3_exec sample_db (bytes_of ''SELECT * from commands'') = (map command_row [?a, ?b], 0)"
    by (simp add: sample_db_def)
  moreover have "sqlite3_open sample_db (db_path (bytes_of ''/srv'')) = 0" by (simp add: sample_db_def)
  ultimately obtain d where "init_commands_table sample_db (bytes_of ''/srv'') None = Inr (0, d)"
    "\<forall>k. int32 k \<longrightarrow> value_for_key d k = Inr (map_option command_of (find (\<lambda>c. db_key c = k) [?a, ?b]))"
    using commands_table_loaded [of sample_db "bytes_of ''/srv''" "[?a, ?b]"] by auto
  then show ?thesis by (intro exI [of _ d]) (simp add: int32_def command_of_def)
qed

text \<open>
  The credentials of the requests. From a row with a name and a password of less than 1024 bytes
  each, \<open>init_request_auth\<close> keeps the Base64 code of the name in upper case, a colon and the password
  (cut to 1023 bytes), in an object of exactly the size of that code and its terminator, whatever was kept before.
\<close>

theorem request_auth_loaded:
  assumes "sqlite3_open db (db_path cwd) = 0"
    and "sqlite3_exec db (bytes_of ''SELECT * from request_auth'') = ([auth_row idx name password], 0)"
    and "c_content name" "0 < length name" "length name < MAX_BUF_SIZE"
    and "c_content password" "0 < length password" "length password < MAX_BUF_SIZE"
  shows "\<exists>auth. init_request_auth db cwd old = Inr (0, Some auth) \<and> fetch_request_auth (Some auth) = Some auth \<and>
    auth = encode_body (take (MAX_BUF_SIZE - 1) (map c_toupper name @ 58 # password)) @ [0]"
  using assms(1,2) callback_request_ok [OF assms(3-8), of idx old]
  by (simp add: init_request_auth_def fetch_request_auth_def)

theorem request_auth_loaded_witness:
  "\<exists>auth. init_request_auth sample_db (bytes_of ''/srv'') None = Inr (0, Some auth) \<and>
    auth = bytes_of ''TFVGRlk6MUEh'' @ [0]"
proof -
  have "c_content (bytes_of ''luffy'')" "c_content (bytes_of ''1A!'')" by simp_all
  moreover have "sqlite3_exec sample_db (bytes_of ''SELECT * from request_auth'') =
      ([auth_row (bytes_of ''1'') (bytes_of ''luffy'') (bytes_of ''1A!'')], 0)"
    by (simp add: sample_db_def)
  moreover have "sqlite3_open sample_db (db_path (bytes_of ''/srv'')) = 0" by (simp add: sample_db_def)
  ultimately have "\<exists>auth. init_request_auth sample_db (bytes_of ''/srv'') None = Inr (0, Some auth) \<and>
      fetch_request_auth (Some auth) = Some auth \<and>
      auth = encode_body (take (MAX_BUF_SIZE - 1) (map c_toupper (bytes_of ''luffy'') @ 58 # bytes_of ''1A!'')) @ [0]"
    by (intro request_auth_loaded) (simp_all add: MAX_BUF_SIZE_def)
  moreover have "encode_body (take (MAX_BUF_SIZE - 1) (map c_toupper (bytes_of ''luffy'') @ 58 # bytes_of ''1A!'')) @ [0] =
      bytes_of ''TFVGRlk6MUEh'' @ [0]" by code_simp
  ultimately show ?thesis by simp
qed

end
