(* ===== verification/Utility.thy ===== *)
theory Utility
  imports Posix Soap
begin

text \<open>
  Sockets (\<^verbatim>\<open>common/utility.c\<close>): the connection of a thread to the SOAP server, with its reconnection,
  the writing and the reading of it, and the listening socket.

  What the operating system answers is a script for each call, from which the next answer is taken;
  a script that is over stands for failure (for a peek, for a socket that is open with nothing to read).
  The state also records what has been written to which descriptor, and what has been closed.
\<close>

section \<open>The environment\<close>

datatype peek = PeekData | PeekAgain | PeekEof | PeekError

datatype tx = TxSome nat | TxFail errno

datatype rd_answer = RdSome "byte list" | RdFail errno

record upstream =
  td_sock_id :: int
  socks :: "int list"
  opts :: "bool list"
  conns :: "bool list"
  peeks :: "peek list"
  writes :: "tx list"
  selects :: "int list"
  reads :: "rd_answer list"
  closed :: "int list"
  sent :: "(int \<times> byte list) list"

definition pop :: "'a \<Rightarrow> 'a list \<Rightarrow> 'a \<times> 'a list" where
  "pop d xs = (case xs of [] \<Rightarrow> (d, []) | x # r \<Rightarrow> (x, r))"

definition os_socket :: "upstream \<Rightarrow> int \<times> upstream" where
  "os_socket st = (let (x, r) = pop (-1) (socks st) in (x, st\<lparr>socks := r\<rparr>))"

definition os_setsockopt :: "upstream \<Rightarrow> bool \<times> upstream" where
  "os_setsockopt st = (let (x, r) = pop False (opts st) in (x, st\<lparr>opts := r\<rparr>))"

definition os_connect :: "upstream \<Rightarrow> bool \<times> upstream" where
  "os_connect st = (let (x, r) = pop False (conns st) in (x, st\<lparr>conns := r\<rparr>))"

definition os_recv_peek :: "upstream \<Rightarrow> peek \<times> upstream" where
  "os_recv_peek st = (let (x, r) = pop PeekAgain (peeks st) in (x, st\<lparr>peeks := r\<rparr>))"

definition os_write :: "upstream \<Rightarrow> tx \<times> upstream" where
  "os_write st = (let (x, r) = pop (TxFail EOTHER) (writes st) in (x, st\<lparr>writes := r\<rparr>))"

definition os_select :: "upstream \<Rightarrow> int \<times> upstream" where
  "os_select st = (let (x, r) = pop 0 (selects st) in (x, st\<lparr>selects := r\<rparr>))"

text \<open>\<open>read\<close> gives at most as many bytes as are asked for.\<close>

definition os_read_up :: "nat \<Rightarrow> upstream \<Rightarrow> rd_answer \<times> upstream" where
  "os_read_up n st =
     (let (x, r) = pop (RdFail EOTHER) (reads st)
      in (case x of RdSome ds \<Rightarrow> RdSome (take n ds) | RdFail e \<Rightarrow> RdFail e, st\<lparr>reads := r\<rparr>))"

definition os_close :: "int \<Rightarrow> upstream \<Rightarrow> upstream" where
  "os_close fd st = st\<lparr>closed := closed st @ [fd]\<rparr>"

section \<open>The connection to the SOAP server\<close>

definition is_sock_closed_by_peer :: "int \<Rightarrow> upstream \<Rightarrow> bool \<times> upstream" where
  "is_sock_closed_by_peer sock st =
     (if sock \<le> 0 then (True, st)
      else let (n, st) = os_recv_peek st in (n \<noteq> PeekData \<and> n \<noteq> PeekAgain, st))"

text \<open>The calls of \<open>setsockopt\<close>, of which \<open>n\<close> remain.\<close>

fun set_opts :: "nat \<Rightarrow> upstream \<Rightarrow> int \<times> upstream" where
  "set_opts 0 st = (0, st)"
| "set_opts (Suc n) st =
     (let (ok, st) = os_setsockopt st in if ok then set_opts n st else (-1, st))"

definition set_sock_keepalive :: "int \<Rightarrow> upstream \<Rightarrow> int \<times> upstream" where
  "set_sock_keepalive socket_fd st = (if socket_fd \<le> 0 then (-1, st) else set_opts 5 st)"

text \<open>The attempts to connect, of which \<open>n\<close> remain.\<close>

fun connect_loop :: "nat \<Rightarrow> upstream \<Rightarrow> bool \<times> upstream" where
  "connect_loop 0 st = (False, st)"
| "connect_loop (Suc n) st =
     (let (ok, st) = os_connect st in if ok then (True, st) else connect_loop n st)"

definition make_soap_socket :: "upstream \<Rightarrow> int \<times> upstream" where
  "make_soap_socket st =
     (if td_sock_id st > 0 then (td_sock_id st, st)
      else let (socket_fd, st) = os_socket st in
           if socket_fd < 0 then (0, st)
           else let (r, st) = set_sock_keepalive socket_fd st in
                if r < 0 then (0, st)
                else let (ok, st) = connect_loop 3 st in
                     if \<not> ok then (0, st)
                     else (socket_fd, st\<lparr>td_sock_id := socket_fd\<rparr>))"

definition reset_thread_local_soap_socket :: "upstream \<Rightarrow> int \<times> upstream" where
  "reset_thread_local_soap_socket st =
     (let st = (if td_sock_id st > 0 then os_close (td_sock_id st) st else st);
          (fd, st) = make_soap_socket (st\<lparr>td_sock_id := 0\<rparr>)
      in if fd \<le> 0 then (-1, st) else (fd, st\<lparr>td_sock_id := fd\<rparr>))"

section \<open>Writing\<close>

lemma upstream_writes [simp]:
  "writes (snd (os_recv_peek st)) = writes st" "writes (snd (is_sock_closed_by_peer fd st)) = writes st"
  by (simp_all add: os_recv_peek_def is_sock_closed_by_peer_def split_def Let_def)

lemma upstream_reads: "reads (snd (is_sock_closed_by_peer fd st)) = reads st"
  by (simp add: os_recv_peek_def is_sock_closed_by_peer_def split_def Let_def)

lemma set_opts_writes [simp]: "writes (snd (set_opts n st)) = writes st"
  by (induction n arbitrary: st) (simp_all add: os_setsockopt_def split_def Let_def)

lemma connect_loop_writes [simp]: "writes (snd (connect_loop n st)) = writes st"
  by (induction n arbitrary: st) (simp_all add: os_connect_def split_def Let_def)

lemma make_soap_socket_writes [simp]: "writes (snd (make_soap_socket st)) = writes st"
  by (simp add: make_soap_socket_def os_socket_def set_sock_keepalive_def split_def Let_def)

lemma reset_writes [simp]: "writes (snd (reset_thread_local_soap_socket st)) = writes st"
  by (simp add: reset_thread_local_soap_socket_def os_close_def split_def Let_def)

lemma writes_kept:
  "is_sock_closed_by_peer fd st = (b, st') \<Longrightarrow> writes st' = writes st"
  "reset_thread_local_soap_socket st = (fd', st') \<Longrightarrow> writes st' = writes st"
  using upstream_writes(2) [of fd st] reset_writes [of st] by (metis snd_conv)+

lemma os_write_shorter [termination_simp]:
  "os_write st = (TxSome k, st') \<Longrightarrow> length (writes st') < length (writes st)"
  "os_write st = (TxFail EINTR, st') \<Longrightarrow> length (writes st') < length (writes st)"
  "os_write st = (TxFail EPIPE, st') \<Longrightarrow> length (writes st') < length (writes st)"
  by (auto simp: os_write_def pop_def Let_def split: list.splits)

text \<open>
  \<open>writen_fd\<close>: the loop over what is left to write; the result is 0 (all written) or the negative return
  value, and the descriptor, which may be a new one.
\<close>

function writen_loop :: "int \<Rightarrow> byte list \<Rightarrow> upstream \<Rightarrow> int \<times> int \<times> upstream" where
  "writen_loop fd ptr st =
     (if ptr = [] then (0, fd, st)
      else case is_sock_closed_by_peer fd st of (peer_closed, st1) \<Rightarrow>
           case (if peer_closed then reset_thread_local_soap_socket st1 else (fd, st1)) of (fd, st2) \<Rightarrow>
           if peer_closed \<and> fd \<le> 0 then (-1, fd, st2)
           else (case os_write st2 of
             (TxSome k, st3) \<Rightarrow>
               if k = 0 then (-2, fd, st3)
               else writen_loop fd (drop k ptr) (st3\<lparr>sent := sent st3 @ [(fd, take k ptr)]\<rparr>)
           | (TxFail e, st3) \<Rightarrow>
               if e = EINTR then writen_loop fd ptr st3
               else if e = EPIPE then
                 (case reset_thread_local_soap_socket st3 of (fd, st4) \<Rightarrow>
                    if fd \<le> 0 then (-1, fd, st4) else writen_loop fd ptr st4)
               else (-2, fd, st3)))"
  by pat_completeness auto
termination
  by (relation "measure (\<lambda>(fd, ptr, st). length (writes st))")
    (auto dest!: sym [of "(_, _)"] writes_kept os_write_shorter split: if_splits)

declare writen_loop.simps [simp del]

definition writen_fd :: "int \<Rightarrow> byte list \<Rightarrow> upstream \<Rightarrow> int \<times> int \<times> upstream" where
  "writen_fd fd vptr st =
     (case writen_loop fd vptr st of (r, fd', st) \<Rightarrow>
        if r = 0 then (int (length vptr), fd', st) else (r, fd, st))"

section \<open>Reading\<close>

text \<open>\<open>strcat(szData, szBuf)\<close>\<close>

definition strcat :: "byte list \<Rightarrow> byte list \<Rightarrow> byte list res" where
  "strcat dst src =
     bindR (strlen dst) (\<lambda>d. bindR (strlen src) (\<lambda>n. memcpy dst d src (n + 1)))"

text \<open>
  The loop of \<open>readn_fd\<close>. \<open>szBuf\<close> is not cleared between two reads. The comparison of the signed
  \<open>totalByte\<close> with the unsigned \<open>nData\<close> is unsigned.
\<close>

function read_loop :: "int \<Rightarrow> byte list \<Rightarrow> byte list \<Rightarrow> int \<Rightarrow> upstream \<Rightarrow> (int \<times> byte list \<times> upstream) res" where
  "read_loop fd szData szBuf totalByte st =
     (case is_sock_closed_by_peer fd st of (_, st1) \<Rightarrow>
      case os_read_up MAX_BUF_SIZE st1 of (a, st2) \<Rightarrow>
      let nReadByte = (case a of RdSome ds \<Rightarrow> int (length ds) | RdFail _ \<Rightarrow> -1);
          szBuf = (case a of RdSome ds \<Rightarrow> ds @ drop (length ds) szBuf | RdFail _ \<Rightarrow> szBuf);
          total = totalByte + nReadByte
      in if to_size_t total < length szData
         then bindR (strcat szData szBuf) (\<lambda>szData.
                if nReadByte = int MAX_BUF_SIZE then read_loop fd szData szBuf total st2
                else Inr (total, szData, st2))
         else Inr (total - nReadByte, szData, st2))"
  by pat_completeness auto
termination
proof (relation "measure (\<lambda>(fd, szData, szBuf, total, st). length (reads st))", goal_cases)
  case (2 fd szData szBuf total st b st1 a st2)
  then have "reads st1 = reads st" by (metis snd_conv upstream_reads)
  moreover have "length (reads st2) < length (reads st1)"
    using 2 by (cases "reads st1") (auto simp: os_read_up_def pop_def MAX_BUF_SIZE_def)
  ultimately show ?case by simp
qed simp

declare read_loop.simps [simp del]

text \<open>\<open>nData\<close> is the size of the object \<open>szData\<close>; the result is the return value and the object.\<close>

definition readn_fd :: "int \<Rightarrow> byte list \<Rightarrow> upstream \<Rightarrow> (int \<times> byte list \<times> upstream) res" where
  "readn_fd fd_read szData st =
     (if fd_read \<le> 0 then Inr (-1, szData, st)
      else let szData = replicate (length szData) 0;
               (retval, st) = os_select st
           in if retval > 0 then read_loop fd_read szData (replicate MAX_BUF_SIZE 0) 0 st
              else Inr (0, szData, st))"

section \<open>The listening socket and the path of the program\<close>

text \<open>
  \<open>set_non_blocking\<close>: the flags that it sets are those \<open>F_GETFD\<close> returns, with \<open>O_NONBLOCK\<close>. The result is the
  return value and what becomes the file status flags.
\<close>

definition O_NONBLOCK :: nat where "O_NONBLOCK = 2048"

definition set_non_blocking :: "int \<Rightarrow> nat \<Rightarrow> bool \<Rightarrow> int \<times> nat option" where
  "set_non_blocking sockfd getfd setfl_ok =
     (if sockfd \<le> 0 then (-1, None)
      else if \<not> setfl_ok then (-2, None)
      else (0, Some (getfd OR O_NONBLOCK)))"

text \<open>
  The attempts to bind, of which \<open>n\<close> remain: \<open>None\<close> is success. The result is the return value so far and
  the port that is logged.
\<close>

fun bind_loop :: "nat \<Rightarrow> int \<Rightarrow> errno option list \<Rightarrow> int \<times> int" where
  "bind_loop 0 port binds = (0, port)"
| "bind_loop (Suc n) port binds =
     (case pop (Some EOTHER) binds of
        (None, _) \<Rightarrow> (0, port)
      | (Some e, r) \<Rightarrow> if e = EADDRINUSE then bind_loop n (port + 1) r else (-3, port))"

definition create_listen_sock :: "int \<Rightarrow> int \<Rightarrow> nat \<Rightarrow> bool \<Rightarrow> errno option list \<Rightarrow> int" where
  "create_listen_sock port listen_fd getfd setfl_ok binds =
     (if listen_fd = -1 then -1
      else if fst (set_non_blocking listen_fd getfd setfl_ok) \<noteq> 0 then -2
      else if fst (bind_loop 100 port binds) \<noteq> 0 then -3
      else listen_fd)"

definition create_server :: "int \<Rightarrow> int \<Rightarrow> nat \<Rightarrow> bool \<Rightarrow> errno option list \<Rightarrow> bool \<Rightarrow> int" where
  "create_server port sock getfd setfl_ok binds listen_ok =
     (if port \<le> 0 then -1
      else let listen_fd = create_listen_sock port sock getfd setfl_ok binds
           in if listen_fd < 0 then -1 else if \<not> listen_ok then -2 else listen_fd)"

text \<open>\<open>get_absolute_path\<close>: \<open>cnt\<close> is what \<open>readlink\<close> returned; the last slash is overwritten.\<close>

fun cut_at_slash :: "nat \<Rightarrow> byte list \<Rightarrow> byte list res" where
  "cut_at_slash i path =
     bindR (rd path i) (\<lambda>c.
       if c = 47 then wr path i 0
       else (case i of 0 \<Rightarrow> Inr path | Suc i \<Rightarrow> cut_at_slash i path))"

declare cut_at_slash.simps [simp del]

definition get_absolute_path :: "int \<Rightarrow> byte list \<Rightarrow> (int \<times> byte list) res" where
  "get_absolute_path cnt path =
     (if cnt < 0 \<or> cnt \<ge> int MAX_BUF_SIZE then Inr (-1, path)
      else bindR (cut_at_slash (nat cnt) path) (\<lambda>path. Inr (0, path)))"

section \<open>What is written\<close>

definition sent_to :: "int \<Rightarrow> upstream \<Rightarrow> byte list" where
  "sent_to fd st = concat (map snd (filter (\<lambda>(f, _). f = fd) (sent st)))"

text \<open>A peer that stays, and answers of \<open>write\<close> that make progress or are interruptions\<close>

definition peer_stays :: "upstream \<Rightarrow> bool" where
  "peer_stays st \<longleftrightarrow> list_all (\<lambda>p. p = PeekData \<or> p = PeekAgain) (peeks st)"

fun tx_total :: "tx list \<Rightarrow> nat" where
  "tx_total [] = 0"
| "tx_total (TxSome k # ws) = k + tx_total ws"
| "tx_total (TxFail e # ws) = tx_total ws"

definition tx_fine :: "tx \<Rightarrow> bool" where
  "tx_fine w \<longleftrightarrow> (case w of TxSome k \<Rightarrow> 0 < k | TxFail e \<Rightarrow> e = EINTR)"

lemma peer_stays_step:
  assumes "peer_stays st" and "0 < fd"
  shows "\<exists>ps. is_sock_closed_by_peer fd st = (False, st\<lparr>peeks := ps\<rparr>) \<and> peer_stays (st\<lparr>peeks := ps\<rparr>)"
  using assms
  by (cases "peeks st") (auto simp: is_sock_closed_by_peer_def os_recv_peek_def pop_def peer_stays_def)

text \<open>What a write of the bytes \<open>ptr\<close> to \<open>fd\<close> changes: the bytes have arrived, and some answers are used up.\<close>

definition all_sent :: "int \<Rightarrow> byte list \<Rightarrow> tx list \<Rightarrow> upstream \<Rightarrow> upstream \<Rightarrow> bool" where
  "all_sent fd ptr rest st st' \<longleftrightarrow>
     sent_to fd st' = sent_to fd st @ ptr \<and> (\<forall>g. g \<noteq> fd \<longrightarrow> sent_to g st' = sent_to g st) \<and>
     closed st' = closed st \<and> td_sock_id st' = td_sock_id st \<and> selects st' = selects st \<and> reads st' = reads st \<and>
     peer_stays st' \<and> (\<exists>ws. writes st' = ws @ rest \<and> list_all tx_fine ws)"

lemma all_sent_step:
  "all_sent fd (drop k ptr) rest (st\<lparr>peeks := ps, writes := w, sent := sent st @ [(fd, take k ptr)]\<rparr>) st' \<Longrightarrow>
     all_sent fd ptr rest st st'"
  "all_sent fd ptr rest (st\<lparr>peeks := ps, writes := w\<rparr>) st' \<Longrightarrow> all_sent fd ptr rest st st'"
  by (auto simp: all_sent_def sent_to_def)

lemma writen_loop_sends:
  assumes "0 < fd" and "peer_stays st" and "writes st = ws @ rest" and "list_all tx_fine ws"
    and "length ptr \<le> tx_total ws"
  shows "\<exists>st'. writen_loop fd ptr st = (0, fd, st') \<and> all_sent fd ptr rest st st'"
  using assms(2-5)
proof (induction ws arbitrary: ptr st)
  case Nil
  then show ?case by (simp add: writen_loop.simps all_sent_def)
next
  case (Cons w ws)
  show ?case
  proof (cases "ptr = []")
    case True
    with Cons.prems show ?thesis
      by (auto simp: writen_loop.simps all_sent_def intro: exI [of _ "w # ws"])
  next
    case False
    from peer_stays_step [OF Cons.prems(1) assms(1)] obtain ps where
      ps: "is_sock_closed_by_peer fd st = (False, st\<lparr>peeks := ps\<rparr>)" "peer_stays (st\<lparr>peeks := ps\<rparr>)" by blast
    let ?st = "st\<lparr>peeks := ps, writes := ws @ rest\<rparr>"
    have w: "os_write (st\<lparr>peeks := ps\<rparr>) = (w, ?st)" using Cons.prems(2) by (simp add: os_write_def pop_def)
    note step = writen_loop.simps [of fd ptr st] ps(1) w False
    have stays: "peer_stays (?st\<lparr>sent := x\<rparr>)" for x using ps(2) by (simp add: peer_stays_def)
    show ?thesis
    proof (cases w)
      case (TxSome k)
      have k: "0 < k" using Cons.prems(3) TxSome by (simp add: tx_fine_def)
      have "length (drop k ptr) \<le> tx_total ws" using Cons.prems(4) TxSome by simp
      then have "\<exists>st'. writen_loop fd (drop k ptr) (?st\<lparr>sent := sent st @ [(fd, take k ptr)]\<rparr>) = (0, fd, st') \<and>
        all_sent fd (drop k ptr) rest (?st\<lparr>sent := sent st @ [(fd, take k ptr)]\<rparr>) st'"
        using Cons.prems(3) by (intro Cons.IH [OF stays]) simp_all
      then obtain st' where
        "writen_loop fd (drop k ptr) (?st\<lparr>sent := sent st @ [(fd, take k ptr)]\<rparr>) = (0, fd, st')"
        "all_sent fd (drop k ptr) rest (?st\<lparr>sent := sent st @ [(fd, take k ptr)]\<rparr>) st'" by blast
      then show ?thesis using k TxSome all_sent_step(1) [where w = "ws @ rest" and ps = ps and st = st]
        by (intro exI [of _ st']) (simp add: step)
    next
      case (TxFail e)
      then have e: "e = EINTR" using Cons.prems(3) by (simp add: tx_fine_def)
      have "peer_stays ?st" using ps(2) by (simp add: peer_stays_def)
      from Cons.IH [OF this, of ptr] Cons.prems(3,4) TxFail obtain st' where
        "writen_loop fd ptr ?st = (0, fd, st')" "all_sent fd ptr rest ?st st'" by auto
      then show ?thesis using TxFail e all_sent_step(2) [where w = "ws @ rest" and ps = ps and st = st]
        by (intro exI [of _ st']) (simp add: step)
    qed
  qed
qed

section \<open>What is read\<close>

lemma strcat_empty:
  assumes "c_content ds" and "length ds < n"
  shows "strcat (replicate n 0) (ds @ 0 # r) = Inr (ds @ replicate (n - length ds) 0)"
proof -
  have z: "replicate n (0 :: byte) = 0 # replicate (n - 1) 0" using assms(2) by (cases n) auto
  have "strlen (replicate n 0) = Inr 0" unfolding z by simp
  moreover have "replicate (n - length ds) (0 :: byte) = 0 # replicate (n - Suc (length ds)) 0"
    using assms(2) by (simp add: Suc_diff_Suc [symmetric])
  ultimately show ?thesis using assms
    by (simp add: strcat_def strlen_content memcpy_def drop_replicate)
qed

lemma strlen_unterminated: "c_content s \<Longrightarrow> strlen s = Inl OobRead"
  by (induction s) auto

text \<open>An answer that arrives in one piece, on a descriptor that is open\<close>

lemma readn_fd_start:
  assumes "0 < fd" and "peer_stays st" and "0 < n" and "selects st = n # ns" and "reads st = RdSome ds # rest"
  shows "\<exists>ps. peer_stays (st\<lparr>peeks := ps\<rparr>) \<and>
    readn_fd fd szData st =
      (let szBuf = take MAX_BUF_SIZE ds @ drop (length (take MAX_BUF_SIZE ds)) (replicate MAX_BUF_SIZE 0);
           total = int (length (take MAX_BUF_SIZE ds));
           st2 = st\<lparr>selects := ns, peeks := ps, reads := rest\<rparr>
       in if to_size_t total < length szData
          then bindR (strcat (replicate (length szData) 0) szBuf) (\<lambda>szData.
                 if total = int MAX_BUF_SIZE then read_loop fd szData szBuf total st2 else Inr (total, szData, st2))
          else Inr (0, replicate (length szData) 0, st2))"
proof -
  let ?st = "st\<lparr>selects := ns\<rparr>"
  have "peer_stays ?st" using assms(2) by (simp add: peer_stays_def)
  from peer_stays_step [OF this assms(1)] obtain ps where
    ps: "is_sock_closed_by_peer fd ?st = (False, ?st\<lparr>peeks := ps\<rparr>)" "peer_stays (?st\<lparr>peeks := ps\<rparr>)" by blast
  have r: "os_read_up MAX_BUF_SIZE (?st\<lparr>peeks := ps\<rparr>) =
      (RdSome (take MAX_BUF_SIZE ds), ?st\<lparr>peeks := ps, reads := rest\<rparr>)"
    using assms(5) by (simp add: os_read_up_def pop_def)
  have "readn_fd fd szData st = read_loop fd (replicate (length szData) 0) (replicate MAX_BUF_SIZE 0) 0 ?st"
    using assms(1,3,4) by (simp add: readn_fd_def os_select_def pop_def)
  then show ?thesis using ps(2)
    unfolding read_loop.simps [of fd _ _ _ ?st] ps(1) prod.case r rd_answer.case Let_def
      add_0 diff_self by (auto simp: peer_stays_def)
qed

lemma readn_fd_short:
  assumes "0 < fd" and "peer_stays st" and "0 < n" and "selects st = n # ns" and "reads st = RdSome ds # rest"
    and "c_content ds" and "length ds < 1024" and "length ds < length szData"
  shows "\<exists>ps. peer_stays (st\<lparr>peeks := ps\<rparr>) \<and>
    readn_fd fd szData st = Inr (int (length ds), ds @ replicate (length szData - length ds) 0,
      st\<lparr>selects := ns, peeks := ps, reads := rest\<rparr>)"
proof -
  have t: "take MAX_BUF_SIZE ds = ds" "int (length ds) \<noteq> int MAX_BUF_SIZE" using assms(7) by (simp_all add: MAX_BUF_SIZE_def)
  obtain z where z: "drop (length ds) (replicate MAX_BUF_SIZE (0 :: byte)) = 0 # z"
    using assms(7) by (cases "MAX_BUF_SIZE - length ds") (auto simp: MAX_BUF_SIZE_def)
  have s: "to_size_t (int (length ds)) < length szData" using assms(7,8) by simp
  show ?thesis using readn_fd_start [OF assms(1-5), of szData] s
    unfolding t(1) z Let_def strcat_empty [OF assms(6,8), of z] if_P [OF s] bindR_simps
      if_not_P [OF t(2)] by blast
qed

section \<open>Opening\<close>

text \<open>When all hundred ports are in use the socket is not bound, and yet it is returned.\<close>

lemma bind_loop_in_use: "bind_loop n port (replicate n (Some EADDRINUSE)) = (0, port + int n)"
  by (induction n arbitrary: port) (simp_all add: pop_def)

lemma create_listen_sock_unbound:
  "0 < fd \<Longrightarrow> create_listen_sock port fd flags True (replicate 100 (Some EADDRINUSE)) = fd"
  by (simp add: create_listen_sock_def set_non_blocking_def bind_loop_in_use)

text \<open>What is left of a request goes to the new connection when the old one breaks in between.\<close>

lemma reconnect_sends_rest:
  "writen_fd 5 [1, 2, 3] \<lparr>td_sock_id = 5, socks = [6], opts = replicate 5 True, conns = [True], peeks = [],
     writes = [TxSome 2, TxFail EPIPE, TxSome 9], selects = [], reads = [], closed = [], sent = []\<rparr> =
   (3, 6, \<lparr>td_sock_id = 6, socks = [], opts = [], conns = [], peeks = [], writes = [], selects = [], reads = [],
     closed = [5], sent = [(5, [1, 2]), (6, [3])]\<rparr>)"
  by code_simp

section \<open>Properties\<close>

text \<open>
  \<open>writen_fd\<close> writes everything, once and in order. On a descriptor whose peer stays connected, when the
  kernel accepts the bytes in any pieces and with interruptions by signals in between, the call
  returns the number of bytes, with the same descriptor, and exactly the bytes of the buffer have been
  written to it; nothing is written elsewhere, and no descriptor is closed.
\<close>

theorem writen_fd_sends_all:
  assumes "0 < fd" and "peer_stays st" and "writes st = ws @ rest" and "list_all tx_fine ws"
    and "length data \<le> tx_total ws"
  shows "\<exists>st'. writen_fd fd data st = (int (length data), fd, st') \<and>
    sent_to fd st' = sent_to fd st @ data \<and> (\<forall>g. g \<noteq> fd \<longrightarrow> sent_to g st' = sent_to g st) \<and> closed st' = closed st"
  using writen_loop_sends [OF assms] by (auto simp: writen_fd_def all_sent_def)

definition quiet :: upstream where
  "quiet = \<lparr>td_sock_id = 0, socks = [], opts = [], conns = [], peeks = [], writes = [], selects = [], reads = [],
     closed = [], sent = []\<rparr>"

theorem writen_fd_sends_all_witness:
  "\<exists>st'. writen_fd 5 [1, 2, 3] (quiet\<lparr>peeks := [PeekData, PeekAgain], writes := [TxSome 2, TxFail EINTR, TxSome 9]\<rparr>) =
      (3, 5, st') \<and> sent_to 5 st' = [1, 2, 3]"
  using writen_fd_sends_all [of 5 "quiet\<lparr>peeks := [PeekData, PeekAgain], writes := [TxSome 2, TxFail EINTR, TxSome 9]\<rparr>"
      "[TxSome 2, TxFail EINTR, TxSome 9]" "[]" "[1, 2, 3]"]
  by (auto simp: quiet_def peer_stays_def tx_fine_def sent_to_def)

text \<open>
  The limit of \<open>readn_fd\<close> is 1023 bytes. An answer that arrives in one piece, has less than 1024
  bytes and fits into the buffer is handed over as it is, with its length. An answer of
  1024 bytes or more without a zero byte makes \<open>strcat\<close> read behind \<open>szBuf\<close>, which then has no
  terminator.
\<close>

theorem readn_fd_response:
  assumes "0 < fd" and "peer_stays st" and "0 < n" and "selects st = n # ns" and "reads st = RdSome ds # rest"
    and "c_content ds" and "length ds < length szData" and "1024 < length szData" and "length szData < 2 ^ 63"
  shows "if length ds < 1024
    then \<exists>st'. readn_fd fd szData st =
      Inr (int (length ds), ds @ replicate (length szData - length ds) 0, st')
    else readn_fd fd szData st = Inl OobRead"
proof (cases "length ds < 1024")
  case True
  with readn_fd_short [OF assms(1-6) True assms(7)] show ?thesis by auto
next
  case False
  let ?t = "take MAX_BUF_SIZE ds"
  have len: "length ?t = 1024" "MAX_BUF_SIZE = 1024" using False by (simp_all add: MAX_BUF_SIZE_def)
  have "c_content ?t" using assms(6) by (meson c_content_def in_set_takeD)
  then have st: "strlen ?t = Inl OobRead" by (rule strlen_unterminated)
  obtain m where m: "replicate (length szData) (0 :: byte) = 0 # m" using assms(8) by (cases "length szData") auto
  have "drop (length ?t) (replicate MAX_BUF_SIZE (0 :: byte)) = []" using len by simp
  then have c: "strcat (replicate (length szData) 0) (?t @ drop (length ?t) (replicate MAX_BUF_SIZE 0)) = Inl OobRead"
    unfolding strcat_def m using st by simp
  have "to_size_t (int (length ?t)) < length szData" using assms(8) len by (simp add: to_size_t_def)
  then show ?thesis using readn_fd_start [OF assms(1-5), of szData] False
    unfolding Let_def c by auto
qed

theorem readn_fd_response_witness:
  "readn_fd 5 (replicate 4096 7) (quiet\<lparr>selects := [1], reads := [RdSome (replicate 2000 65)]\<rparr>) = Inl OobRead"
proof -
  have "c_content (replicate 2000 (65 :: byte))" by (simp add: c_content_def)
  then show ?thesis
    using readn_fd_response [of 5 "quiet\<lparr>selects := [1], reads := [RdSome (replicate 2000 65)]\<rparr>" 1 "[]"
      "replicate 2000 65" "[]" "replicate 4096 7"]
    by (simp add: quiet_def peer_stays_def)
qed

end
