(* ===== verification/Message.thy ===== *)
theory Message
  imports AidSql Crc8 Frame CJsonTree
begin

text \<open>
  From the bytes of a frame to commands (\<open>analysis_message\<close> and what it calls, in
  \<^verbatim>\<open>proxy_server/threadpool/aidsock.c\<close>): the check of the checksum, the parsing of the JSON object with its
  arrays \<open>values\<close> and \<open>keys\<close>, and the printing of each command with its parameters. What is logged is
  not modelled.
\<close>

section \<open>Printing a command\<close>

text \<open>
  \<open>snprintf(szBuf, bufSize, cmdStr, ...)\<close> where all arguments are strings. The format is read up to
  its terminator; a directive takes an argument. The directives of the commands are \<open>%s\<close> and \<open>%%\<close>: any
  other one, and a \<open>%s\<close> for which no argument is left, is a fault.
\<close>

fun format_text :: "byte list \<Rightarrow> byte list list \<Rightarrow> byte list res" where
  "format_text [] args = Inl OobRead"
| "format_text (c # f) args =
     (if c = 0 then Inr []
      else if c \<noteq> 37 then bindR (format_text f args) (\<lambda>r. Inr (c # r))
      else case f of
        [] \<Rightarrow> Inl OobRead
      | d # f \<Rightarrow>
          if d = 37 then bindR (format_text f args) (\<lambda>r. Inr (37 # r))
          else if d = 115 then
            (case args of
               [] \<Rightarrow> Inl BadFormat
             | a # args \<Rightarrow> bindR (strlen a) (\<lambda>n. bindR (format_text f args) (\<lambda>r. Inr (take n a @ r))))
          else Inl BadFormat)"

definition snprintf :: "nat \<Rightarrow> byte list \<Rightarrow> byte list list \<Rightarrow> byte list res" where
  "snprintf n format args = bindR (format_text format args) (\<lambda>r. Inr (take (n - 1) r))"

section \<open>The code\<close>

definition DEPRECATED :: int where "DEPRECATED = -1"
definition PARAMNUMERR :: int where "PARAMNUMERR = -2"
definition PARAMTYPEERR :: int where "PARAMTYPEERR = -3"
definition COMMANDNOEXIST :: int where "COMMANDNOEXIST = -4"
definition PARAMNULL :: int where "PARAMNULL = -5"
definition PARAMORDERERR :: int where "PARAMORDERERR = -6"

lemmas error_codes = DEPRECATED_def PARAMNUMERR_def PARAMTYPEERR_def COMMANDNOEXIST_def PARAMNULL_def PARAMORDERERR_def

text \<open>The return value and what \<open>*op\<close> points to afterwards.\<close>

definition vaild_item :: "cJSON \<Rightarrow> cJSON \<Rightarrow> int \<Rightarrow> (int \<times> byte list option) res" where
  "vaild_item cmds keys idx =
     (case cJSON_GetArrayItem keys idx of
        None \<Rightarrow> Inr (PARAMTYPEERR, None)
      | Some obj \<Rightarrow>
          bindR (cJSON_GetObjectItem cmds (valuestring (fields obj))) (\<lambda>obj.
            case obj of
              None \<Rightarrow> Inr (PARAMTYPEERR, None)
            | Some obj \<Rightarrow>
                (case valuestring (fields obj) of
                   None \<Rightarrow> Inr (PARAMTYPEERR, None)
                 | Some op \<Rightarrow> Inr (0, Some op))))"

text \<open>The cases of the \<open>switch\<close>, which fall through: the parameters \<open>i\<close>, \<open>i - 1\<close>, down to 1.\<close>

fun take_params :: "cJSON \<Rightarrow> cJSON \<Rightarrow> nat \<Rightarrow> byte list list \<Rightarrow> (int \<times> byte list list) res" where
  "take_params cmds keys 0 parms = Inr (0, parms)"
| "take_params cmds keys (Suc i) parms =
     bindR (vaild_item cmds keys (int (Suc i))) (\<lambda>(rtn, p).
       case p of
         None \<Rightarrow> Inr (rtn, [])
       | Some p \<Rightarrow> take_params cmds keys i (p # parms))"

text \<open>
  \<open>parse_object\<close>: the return value, the string that \<open>*value\<close> points to (if it is set), and \<open>*fs\<close>.
\<close>

definition parse_object_cmd ::
    "Table hash_head \<Rightarrow> cJSON option \<Rightarrow> cJSON option \<Rightarrow> (int \<times> byte list option \<times> bool) res" where
  "parse_object_cmd command_table cmds keys =
     (case (cmds, keys) of
        (Some cmds, Some keys) \<Rightarrow>
          let parmSize = int (cJSON_GetArraySize keys) in
          if parmSize > 5 \<or> parmSize \<le> 1 then Inr (PARAMNUMERR, None, False)
          else bindR (vaild_item cmds keys 0) (\<lambda>(rtn, op).
            case op of
              None \<Rightarrow> Inr (rtn, None, False)
            | Some op \<Rightarrow>
                bindR (atoi op) (\<lambda>key.
                bindR (value_for_key command_table key) (\<lambda>cmdObj.
                case cmdObj of
                  None \<Rightarrow> Inr (COMMANDNOEXIST, None, False)
                | Some cmdObj \<Rightarrow>
                    if parmSize - 1 \<noteq> paramNum cmdObj then Inr (PARAMNUMERR, None, is2Pipe cmdObj)
                    else if deprecated cmdObj then Inr (DEPRECATED, None, is2Pipe cmdObj)
                    else bindR (take_params cmds keys (nat (parmSize - 1)) []) (\<lambda>(rtn, parms).
                      if rtn < 0 then Inr (rtn, None, is2Pipe cmdObj)
                      else bindR (snprintf (MAX_BUF_SIZE * 2) (cmd_value cmdObj) parms) (\<lambda>szBuf.
                        let out = szBuf @ replicate (MAX_BUF_SIZE * 2 + 1 - length szBuf) 0
                        in Inr (if needRsp cmdObj then 1 else 0, Some out, is2Pipe cmdObj))))))
      | _ \<Rightarrow> Inr (PARAMNULL, None, False))"

text \<open>
  The result of \<open>analysis_message\<close>: no commands, with the strings that have been printed already and
  are not freed; or for each command the entries of \<open>resp\<close>, \<open>cmds\<close> and \<open>is2Pipe\<close>.
\<close>

datatype analysed =
    Rejected "byte list list"
  | Commands "(int \<times> byte list option \<times> bool) list"

fun parse_objects :: "Table hash_head \<Rightarrow> cJSON \<Rightarrow> cJSON \<Rightarrow> nat \<Rightarrow> nat \<Rightarrow>
    (int \<times> byte list option \<times> bool) list \<Rightarrow> analysed res" where
  "parse_objects command_table cmdsArray keysArray i 0 parsed = Inr (Commands parsed)"
| "parse_objects command_table cmdsArray keysArray i (Suc n) parsed =
     bindR (parse_object_cmd command_table (cJSON_GetArrayItem cmdsArray (int i)) (cJSON_GetArrayItem keysArray (int i)))
       (\<lambda>(r, v, fs).
          if r < 0 then Inr (Rejected (List.map_filter (\<lambda>(_, v, _). v) parsed))
          else parse_objects command_table cmdsArray keysArray (Suc i) n (parsed @ [(r, v, fs)]))"

text \<open>
  \<open>original_msg\<close> is the object that was read and \<open>nbytes\<close> the count. The body length is a \<open>size_t\<close>: one byte
  gives \<open>SIZE_MAX\<close>, for which \<open>calloc\<close> returns null, and \<open>reverse_crc_data\<close> takes it as an \<open>int\<close>.
\<close>

definition analysis_message :: "Table hash_head \<Rightarrow> byte list option \<Rightarrow> nat \<Rightarrow> analysed res" where
  "analysis_message command_table original_msg nbytes =
     (case original_msg of
        None \<Rightarrow> Inr (Rejected [])
      | Some msg \<Rightarrow>
          if nbytes = 0 then Inr (Rejected [])
          else let len = int nbytes - int HEADSIZE;
                   podata = (if len < 0 then None else Some (replicate (nat len) 0))
               in bindR (reverse_crc_data (Some (drop HEADSIZE msg)) len podata) (\<lambda>(r, podata).
                  if r \<noteq> 0 then Inr (Rejected [])
                  else case podata of
                    None \<Rightarrow> Inl NullDeref
                  | Some podata \<Rightarrow>
                      bindR (cJSON_Parse (length podata + 1) podata) (\<lambda>root.
                      case root of
                        Parsed root _ \<Rightarrow>
                          bindR (cJSON_GetObjectItem root (Some (lit (bytes_of ''values'')))) (\<lambda>cmdsArray.
                          bindR (cJSON_GetObjectItem root (Some (lit (bytes_of ''keys'')))) (\<lambda>keysArray.
                          case (cmdsArray, keysArray) of
                            (Some cmdsArray, Some keysArray) \<Rightarrow>
                              let cmdSize = cJSON_GetArraySize cmdsArray;
                                  keySize = cJSON_GetArraySize keysArray
                              in if keySize = 0 \<or> cmdSize = 0 then Inr (Rejected [])
                                 else parse_objects command_table cmdsArray keysArray 0 (min keySize cmdSize) []
                          | _ \<Rightarrow> Inr (Rejected [])))
                      | _ \<Rightarrow> Inr (Rejected []))))"

section \<open>Strings of a message\<close>

text \<open>How many arguments a format takes, when it has no other directives and has its terminator\<close>

fun format_needs :: "byte list \<Rightarrow> nat option" where
  "format_needs [] = None"
| "format_needs (c # f) =
     (if c = 0 then Some 0
      else if c \<noteq> 37 then format_needs f
      else case f of
        [] \<Rightarrow> None
      | d # f \<Rightarrow> if d = 37 then format_needs f else if d = 115 then map_option Suc (format_needs f) else None)"

lemma c_string_strlen: "c_string s \<Longrightarrow> strlen s = Inr (length s - 1)"
  using strlen_content by (auto simp: c_string_iff)

lemma format_text_ok:
  "format_needs f = Some n \<Longrightarrow> n \<le> length args \<Longrightarrow> list_all c_string args \<Longrightarrow> \<exists>r. format_text f args = Inr r"
proof (induction f args arbitrary: n rule: format_text.induct)
  case (2 c f args)
  consider "c = 0" | "c \<noteq> 0" "c \<noteq> 37" | d f' where "c = 37" "f = d # f'"
    using "2.prems"(1) by (cases f) (auto split: if_splits)
  then show ?case
  proof cases
    case 1
    then show ?thesis by simp
  next
    case 2
    with "2.IH"(1) "2.prems" show ?thesis by auto
  next
    case 3
    show ?thesis
    proof (cases "d = 37")
      case True
      with 3 "2.IH"(2) [OF _ _ 3(2) True] "2.prems" show ?thesis by auto
    next
      case False
      then have d: "d = 115" using 3 "2.prems"(1) by (auto split: if_splits)
      then obtain m where m: "format_needs f' = Some m" "n = Suc m" using 3 "2.prems"(1) by auto
      then obtain a as where as: "args = a # as" using "2.prems"(2) by (cases args) auto
      then have "list_all c_string as" "m \<le> length as" "strlen a = Inr (length a - 1)"
        using "2.prems"(2,3) m(2) by (auto simp: c_string_strlen)
      moreover from this 3 m "2.IH"(3) [OF _ _ 3(2) False d as] obtain r where "format_text f' as = Inr r" by auto
      ultimately show ?thesis using 3 d as by simp
    qed
  qed
qed simp

lemma drop_space_ok: "c_string s \<Longrightarrow> \<exists>t. drop_space s = Inr t \<and> c_string t"
proof (induction s)
  case (Cons c s)
  show ?case
  proof (cases "c_isspace c")
    case True
    then have "c \<noteq> 0" by (auto simp: c_isspace_def)
    then have "c_string s" using Cons.prems by (cases s) (auto simp: c_string_def)
    with Cons.IH True show ?thesis by simp
  qed (use Cons.prems in simp)
qed (simp add: c_string_def)

lemma scan_int_ok: "c_string s \<Longrightarrow> \<exists>v'. scan_int s v = Inr v'"
proof (induction s arbitrary: v)
  case (Cons c s)
  show ?case
  proof (cases "48 \<le> c \<and> c \<le> 57")
    case True
    then have "c \<noteq> 0" by auto
    then have "c_string s" using Cons.prems by (cases s) (auto simp: c_string_def)
    with Cons.IH True show ?thesis by simp
  qed auto
qed (simp add: c_string_def)

lemma c_string_tail: "c_string (c # s) \<Longrightarrow> c \<noteq> 0 \<Longrightarrow> c_string s"
  by (cases s) (auto simp: c_string_def)

lemma atoi_ok:
  assumes "c_string s"
  shows "\<exists>v. atoi s = Inr v"
proof -
  obtain t where t: "drop_space s = Inr t" "c_string t" using drop_space_ok [OF assms] by blast
  then obtain c r where c: "t = c # r" by (cases t) (auto simp: c_string_def)
  have tail: "c_string r" if "c = 45 \<or> c = 43" using c_string_tail that t(2) c by auto
  show ?thesis
  proof (cases "c = 45")
    case True
    obtain v where "scan_int r 0 = Inr v" using scan_int_ok tail True by blast
    with True t c show ?thesis by (simp add: atoi_def mem_simps)
  next
    case False
    have "c_string (if c = 43 then r else t)" using tail t(2) by simp
    then obtain v where "scan_int (if c = 43 then r else t) 0 = Inr v" using scan_int_ok by blast
    with False t c show ?thesis by (auto simp: atoi_def mem_simps split: if_splits)
  qed
qed

section \<open>Items of a tree\<close>

definition name_ok :: "byte list option \<Rightarrow> bool" where
  "name_ok n \<longleftrightarrow> (case n of None \<Rightarrow> True | Some s \<Rightarrow> c_string s)"

lemma json_names:
  assumes "json_ok t" and "c \<in> set (child t)"
  shows "name_ok (name_of c)" "json_ok c" "name_ok (valuestring (fields c))"
proof -
  obtain i cs where t: "t = Node i cs" by (cases t)
  then show c: "json_ok c" using assms by (simp add: list_all_iff)
  show "name_ok (name_of c)"
    using assms t by (auto simp: item_ok_def name_ok_def list_all_iff split: if_splits option.splits)
  show "name_ok (valuestring (fields c))"
    using c by (cases c) (auto simp: item_ok_def name_ok_def split: option.splits)
qed

lemma strcasecmp_ok: "name_ok a \<Longrightarrow> name_ok b \<Longrightarrow> \<exists>e. cJSON_strcasecmp a b = Inr e"
  using strcasecmp_names by (auto simp: name_ok_def cJSON_strcasecmp_def c_string_iff split: option.splits)

lemma find_item_ok:
  "(\<And>c. c \<in> set cs \<Longrightarrow> name_ok (name_of c)) \<Longrightarrow> name_ok s \<Longrightarrow>
     \<exists>r. find_item cs s i = Inr r \<and> (case r of None \<Rightarrow> True | Some (k, c) \<Rightarrow> c \<in> set cs)"
proof (induction cs arbitrary: i)
  case (Cons c cs)
  then obtain e where e: "cJSON_strcasecmp (name_of c) s = Inr e" using strcasecmp_ok by (meson list.set_intros(1))
  from Cons.IH [of "Suc i"] Cons.prems obtain r where
    "find_item cs s (Suc i) = Inr r" "case r of None \<Rightarrow> True | Some (k, c) \<Rightarrow> c \<in> set cs" by auto
  with e show ?case by (cases r) auto
qed simp

lemma GetObjectItem_ok:
  assumes "json_ok t" and "name_ok s"
  shows "\<exists>r. cJSON_GetObjectItem t s = Inr r \<and> (case r of None \<Rightarrow> True | Some c \<Rightarrow> c \<in> set (child t))"
proof -
  from find_item_ok [of "child t" s 0] json_names(1) [OF assms(1)] assms(2) obtain r where
    "find_item (child t) s 0 = Inr r" "case r of None \<Rightarrow> True | Some (k, c) \<Rightarrow> c \<in> set (child t)" by blast
  then show ?thesis by (cases r) (auto simp: cJSON_GetObjectItem_def)
qed

lemma GetArrayItem_in: "cJSON_GetArrayItem t i = Some c \<Longrightarrow> c \<in> set (child t)"
  by (auto simp: cJSON_GetArrayItem_def split: list.splits intro: in_set_dropD [of _ "nat i"])

section \<open>No fault\<close>

text \<open>A table whose commands have a format with at most as many directives as parameters\<close>

definition command_ok :: "Command \<Rightarrow> bool" where
  "command_ok c \<longleftrightarrow> (\<exists>n. format_needs (cmd_value c) = Some n \<and> int n \<le> paramNum c)"

definition commands_ok :: "Table hash_head \<Rightarrow> bool" where
  "commands_ok d \<longleftrightarrow> hash_ok d \<and> (\<forall>x \<in> set (elems d). command_ok (cmd (hh_elem x)))"

lemma value_for_key_ok:
  assumes "commands_ok d"
  shows "\<exists>r. value_for_key d k = Inr r \<and> (case r of None \<Rightarrow> True | Some c \<Rightarrow> command_ok c)"
proof -
  have d: "hash_ok d" using assms by (simp add: commands_ok_def)
  let ?f = "find (\<lambda>x. hh_key x = int_key (word_of_int k)) (elems d)"
  have "value_for_key d k = Inr (map_option (\<lambda>x. cmd (hh_elem x)) ?f)"
    using find_ok [OF d] by (cases d) (simp_all add: value_for_key_def HASH_FIND_INT_def)
  moreover have "command_ok (cmd (hh_elem x))" if "?f = Some x" for x
    using that assms by (simp add: find_distinct [OF hash_ok_elems(1) [OF d]] commands_ok_def)
  ultimately show ?thesis by (auto split: option.splits)
qed

lemma vaild_item_ok:
  assumes "json_ok cmds" and "json_ok keys"
  shows "\<exists>rtn op. vaild_item cmds keys i = Inr (rtn, op) \<and>
    (case op of None \<Rightarrow> rtn = PARAMTYPEERR | Some s \<Rightarrow> rtn = 0 \<and> c_string s)"
proof (cases "cJSON_GetArrayItem keys i")
  case None
  then show ?thesis by (simp add: vaild_item_def)
next
  case (Some k)
  then have "name_ok (valuestring (fields k))" using json_names(3) [OF assms(2)] GetArrayItem_in by blast
  from GetObjectItem_ok [OF assms(1) this] obtain r where
    r: "cJSON_GetObjectItem cmds (valuestring (fields k)) = Inr r"
      "case r of None \<Rightarrow> True | Some c \<Rightarrow> c \<in> set (child cmds)" by blast
  show ?thesis
  proof (cases r)
    case None
    with Some r(1) show ?thesis by (simp add: vaild_item_def)
  next
    case (Some c)
    then have "name_ok (valuestring (fields c))" using json_names(3) [OF assms(1)] r(2) by simp
    then show ?thesis
      using Some \<open>cJSON_GetArrayItem keys i = Some k\<close> r(1)
      by (cases "valuestring (fields c)") (simp_all add: vaild_item_def name_ok_def)
  qed
qed

lemma take_params_ok:
  assumes "json_ok cmds" and "json_ok keys" and "list_all c_string parms"
  shows "\<exists>rtn ps. take_params cmds keys n parms = Inr (rtn, ps) \<and>
    (rtn < 0 \<or> (list_all c_string ps \<and> length ps = n + length parms))"
  using assms(3)
proof (induction n arbitrary: parms)
  case (Suc n)
  from vaild_item_ok [OF assms(1,2), of "int (Suc n)"] obtain rtn op where
    v: "vaild_item cmds keys (int (Suc n)) = Inr (rtn, op)"
      "case op of None \<Rightarrow> rtn = PARAMTYPEERR | Some s \<Rightarrow> rtn = 0 \<and> c_string s" by blast
  show ?case
  proof (cases op)
    case None
    with v show ?thesis by (simp add: PARAMTYPEERR_def)
  next
    case (Some s)
    with v(2) Suc.prems have "list_all c_string (s # parms)" by simp
    from Suc.IH [OF this] obtain rtn' ps where "take_params cmds keys n (s # parms) = Inr (rtn', ps)"
      "rtn' < 0 \<or> (list_all c_string ps \<and> length ps = n + length (s # parms))" by blast
    with v Some show ?thesis by simp
  qed
qed simp

lemma snprintf_ok:
  "command_ok c \<Longrightarrow> paramNum c = int (length ps) \<Longrightarrow> list_all c_string ps \<Longrightarrow>
     \<exists>r. snprintf n (cmd_value c) ps = Inr r"
  using format_text_ok by (fastforce simp: command_ok_def snprintf_def)

lemma parse_object_ok:
  assumes "commands_ok d" and "json_ok cmds" and "json_ok keys"
  shows "\<exists>r. parse_object_cmd d (Some cmds) (Some keys) = Inr r"
proof (cases "5 < cJSON_GetArraySize keys \<or> cJSON_GetArraySize keys \<le> 1")
  case True
  then have "5 < int (cJSON_GetArraySize keys) \<or> int (cJSON_GetArraySize keys) \<le> 1" by auto
  then show ?thesis by (simp only: parse_object_cmd_def option.case prod.case Let_def if_True) blast
next
  case False
  let ?n = "cJSON_GetArraySize keys - 1"
  have size: "int (cJSON_GetArraySize keys) - 1 = int ?n"
    "\<not> (5 < int (cJSON_GetArraySize keys) \<or> int (cJSON_GetArraySize keys) \<le> 1)" using False by auto
  from vaild_item_ok [OF assms(2,3), of 0] obtain rtn op where
    v: "vaild_item cmds keys 0 = Inr (rtn, op)"
      "case op of None \<Rightarrow> rtn = PARAMTYPEERR | Some s \<Rightarrow> rtn = 0 \<and> c_string s" by blast
  show ?thesis
  proof (cases op)
    case None
    with v(1) size(2) show ?thesis by (auto simp: parse_object_cmd_def)
  next
    case (Some s)
    with v(2) atoi_ok obtain key where key: "atoi s = Inr key" by auto
    from value_for_key_ok [OF assms(1), of key] obtain r where
      r: "value_for_key d key = Inr r" "case r of None \<Rightarrow> True | Some c \<Rightarrow> command_ok c" by blast
    from take_params_ok [OF assms(2,3), of "[]" ?n] obtain rtn' ps where
      p: "take_params cmds keys ?n [] = Inr (rtn', ps)" "rtn' < 0 \<or> (list_all c_string ps \<and> length ps = ?n)" by auto
    have go: "parse_object_cmd d (Some cmds) (Some keys) =
        (case r of None \<Rightarrow> Inr (COMMANDNOEXIST, None, False)
         | Some c \<Rightarrow>
             if int ?n \<noteq> paramNum c then Inr (PARAMNUMERR, None, is2Pipe c)
             else if deprecated c then Inr (DEPRECATED, None, is2Pipe c)
             else if rtn' < 0 then Inr (rtn', None, is2Pipe c)
             else bindR (snprintf (MAX_BUF_SIZE * 2) (cmd_value c) ps) (\<lambda>szBuf.
               Inr (if needRsp c then 1 else 0,
                 Some (szBuf @ replicate (MAX_BUF_SIZE * 2 + 1 - length szBuf) 0), is2Pipe c)))"
      unfolding parse_object_cmd_def option.case prod.case Let_def size(1) if_not_P [OF size(2)] v(1) Some
        bindR_simps key r(1) nat_int p(1) by (rule refl)
    show ?thesis
    proof (cases r)
      case None
      then show ?thesis unfolding go by auto
    next
      case (Some c)
      show ?thesis
      proof (cases "paramNum c = int ?n \<and> \<not> deprecated c \<and> \<not> rtn' < 0")
        case True
        with p(2) r(2) Some snprintf_ok [of c ps "MAX_BUF_SIZE * 2"] obtain t where
          "snprintf (MAX_BUF_SIZE * 2) (cmd_value c) ps = Inr t" by auto
        with True Some show ?thesis unfolding go by simp
      next
        case False
        with Some show ?thesis unfolding go by auto
      qed
    qed
  qed
qed

lemma parse_objects_ok:
  assumes "commands_ok d" and "json_ok cmds" and "json_ok keys"
  shows "\<exists>r. parse_objects d cmds keys i n parsed = Inr r"
proof (induction n arbitrary: i parsed)
  case (Suc n)
  let ?c = "cJSON_GetArrayItem cmds (int i)" and ?k = "cJSON_GetArrayItem keys (int i)"
  have "\<exists>r. parse_object_cmd d ?c ?k = Inr r"
  proof (cases "?c = None \<or> ?k = None")
    case True
    then show ?thesis by (auto simp: parse_object_cmd_def split: option.splits)
  next
    case False
    then obtain c k where ck: "?c = Some c" "?k = Some k" by auto
    then have "json_ok c" "json_ok k"
      using GetArrayItem_in json_names(2) [OF assms(2)] json_names(2) [OF assms(3)] by blast+
    with parse_object_ok [OF assms(1)] ck show ?thesis by simp
  qed
  then obtain r v fs where "parse_object_cmd d ?c ?k = Inr (r, v, fs)" by auto
  with Suc.IH [of "Suc i" "parsed @ [(r, v, fs)]"] show ?case by (cases "r < 0") auto
qed simp

lemma reverse_crc_data_longer:
  assumes "n \<le> length v" and "0 < n" and "n < 2 ^ 31"
  shows "reverse_crc_data (Some v) (int n) (Some (replicate n 0)) =
    Inr (if crc8_of (take n v) = 0 then (0, Some (take (n - 1) v @ [0])) else (-1, Some (replicate n 0)))"
proof -
  have "to_size_t (int n - 1) = n - 1"
    using assms(2,3) by (subst to_size_t_nonneg) (auto simp: nat_diff_distrib Suc_le_eq)
  moreover have "drop (n - 1) (replicate n (0 :: byte)) = [0]"
    unfolding drop_replicate using assms(2) by (simp add: Suc_diff_Suc [symmetric])
  ultimately show ?thesis using assms
    by (simp add: reverse_crc_data_def is_data_integrity_def crc8_eq mem_simps unsigned_eq_0_iff)
qed

section \<open>What is printed\<close>

text \<open>A text with gaps: a piece, and for each gap its value and the piece behind it\<close>

fun fill :: "byte list \<Rightarrow> (byte list \<times> byte list) list \<Rightarrow> byte list" where
  "fill p [] = p"
| "fill p ((v, q) # r) = p @ v @ fill q r"

definition plain_piece :: "byte list \<Rightarrow> bool" where
  "plain_piece p \<longleftrightarrow> c_content p \<and> 37 \<notin> set p"

lemma format_piece:
  "plain_piece p \<Longrightarrow> format_text (p @ f) args = bindR (format_text f args) (\<lambda>r. Inr (p @ r))"
proof (induction p)
  case Nil
  then show ?case by (cases "format_text f args") simp_all
next
  case (Cons c p)
  then show ?case by (cases "format_text f args") (auto simp: plain_piece_def)
qed

lemma format_fill:
  "plain_piece p \<Longrightarrow> list_all (\<lambda>(v, q). plain_piece q \<and> c_content v) r \<Longrightarrow>
     format_text (fill p (map (\<lambda>(v, q). ([37, 115], q)) r) @ 0 # rest) (map (\<lambda>(v, q). v @ [0]) r) =
       Inr (fill p r)"
proof (induction r arbitrary: p)
  case Nil
  then show ?case by (simp add: format_piece)
next
  case (Cons vq r)
  then show ?case by (cases vq) (simp add: format_piece strlen_content)
qed

text \<open>The key \<open>key\<close> selects a member of \<open>cmds\<close> whose value is the string \<open>v\<close>.\<close>

definition key_selects :: "cJSON \<Rightarrow> cJSON \<Rightarrow> byte list \<Rightarrow> bool" where
  "key_selects cmds key v \<longleftrightarrow> (\<exists>w m. valuestring (fields key) = Some (w @ [0]) \<and> c_content w \<and>
     find (\<lambda>m. same_name (name_bytes m) w) (child cmds) = Some m \<and> valuestring (fields m) = Some (v @ [0]))"

lemma vaild_item_selects:
  assumes "json_ok cmds" and "item_type (fields cmds) = cJSON_Object"
    and "list_all2 (key_selects cmds) (child keys) vs" and "i < length vs"
  shows "vaild_item cmds keys (int i) = Inr (0, Some (vs ! i @ [0]))"
proof -
  have "i < length (child keys)" using assms(3,4) by (simp add: list_all2_lengthD)
  then have "cJSON_GetArrayItem keys (int i) = Some (child keys ! i)"
    by (simp add: cJSON_GetArrayItem_def Cons_nth_drop_Suc [symmetric])
  moreover have "key_selects cmds (child keys ! i) (vs ! i)" using assms(3,4) by (simp add: list_all2_nthD2)
  ultimately show ?thesis
    using lookup_object [OF assms(1,2), where r = "[]"] by (auto simp: vaild_item_def key_selects_def)
qed

lemma take_params_selects:
  assumes "json_ok cmds" and "item_type (fields cmds) = cJSON_Object"
    and "list_all2 (key_selects cmds) (child keys) (op # vs)" and "n \<le> length vs"
  shows "take_params cmds keys n parms = Inr (0, map (\<lambda>v. v @ [0]) (take n vs) @ parms)"
  using assms(4)
proof (induction n arbitrary: parms)
  case (Suc n)
  then have "vaild_item cmds keys (int (Suc n)) = Inr (0, Some (vs ! n @ [0]))"
    using vaild_item_selects [OF assms(1-3), of "Suc n"] by simp
  with Suc show ?case by (simp add: take_Suc_conv_app_nth)
qed simp

section \<open>A sample\<close>

text \<open>The command \<open>pinfo %s\<close> with the number 7, in a table of its own; an object and its keys\<close>

definition sample_command :: db_command where
  "sample_command = \<lparr>db_key = 7, db_text = bytes_of ''pinfo %s'', db_rsp = True, db_deprecated = False,
     db_num = 1, db_pipe = True\<rparr>"

lemma sample_command_table:
  "\<exists>d. commands_ok d \<and> value_for_key d 7 = Inr (Some (command_of sample_command))"
proof -
  have ok: "db_command_ok sample_command" by (simp add: sample_command_def db_command_ok_def int32_def)
  from callback_ok [of None, OF _ this] obtain d h where
    d: "hash_ok d" "elems d = [\<lparr>hh_key = key_of sample_command, hh_hashv = h, hh_elem = row_elem sample_command\<rparr>]"
    by (auto simp: hash_ok_def key_of_def)
  have "command_ok (command_of sample_command)"
    unfolding command_ok_def by (intro exI [of _ 1]) code_simp
  then have "commands_ok d" using d by (simp add: commands_ok_def row_elem_def)
  moreover have "value_for_key d 7 = Inr (Some (command_of sample_command))"
    using d find_ok [OF d(1)]
    by (cases d) (simp_all add: value_for_key_def HASH_FIND_INT_def key_of_def sample_command_def row_elem_def)
  ultimately show ?thesis by blast
qed

definition text_node :: "string \<Rightarrow> string option \<Rightarrow> cJSON" where
  "text_node v name = Node (cJSON_New_Item\<lparr>item_type := cJSON_String, valuestring := Some (lit (bytes_of v)),
     item_string := map_option (\<lambda>n. lit (bytes_of n)) name\<rparr>) []"

definition sample_cmds :: cJSON where
  "sample_cmds = Node (fields cJSON_CreateObject) [text_node ''7'' (Some ''op''), text_node ''Bob'' (Some ''who'')]"

definition sample_keys :: cJSON where
  "sample_keys = Node (fields cJSON_CreateArray) [text_node ''op'' None, text_node ''who'' None]"

lemma sample_selects: "list_all2 (key_selects sample_cmds) (child sample_keys) [bytes_of ''7'', bytes_of ''Bob'']"
proof -
  have "key_selects sample_cmds (text_node ''op'' None) (bytes_of ''7'')" unfolding key_selects_def
    by (intro exI [of _ "bytes_of ''op''"] exI [of _ "text_node ''7'' (Some ''op'')"] conjI; code_simp?)
  moreover have "key_selects sample_cmds (text_node ''who'' None) (bytes_of ''Bob'')" unfolding key_selects_def
    by (intro exI [of _ "bytes_of ''who''"] exI [of _ "text_node ''Bob'' (Some ''who'')"] conjI; code_simp?)
  ultimately show ?thesis by (simp add: sample_keys_def)
qed

definition sample_json :: "byte list" where
  "sample_json = bytes_of ''{\"values\":[{\"op\":\"7\",\"who\":\"Bob\"}],\"keys\":[[\"op\",\"who\"]]}''"

definition sample_message :: "byte list" where
  "sample_message = [0, of_nat (length sample_json + 1)] @ sample_json @ [crc8_of sample_json]"

section \<open>Properties\<close>



text \<open>
  C22: A command is printed as it is meant to be. Let the keys of an object select a number \<open>k\<close> and the
  parameters (the first key selects the number), and let the command of \<open>k\<close> be valid, have that many
  parameters (one to four) and the format \<open>fill p (... %s ...)\<close>. Then \<open>parse_object_cmd\<close> gives the format
  with the parameters in their order in the places of \<open>%s\<close>, cut to 2047 bytes and terminated in an
  object of 2049 bytes, and the flags of the command.
\<close>

theorem parse_object_prints:
  assumes "value_for_key d k = Inr (Some c)" and "int32 k" and "\<not> deprecated c"
    and "paramNum c = int (length r)" and "1 \<le> length r" and "length r \<le> 4"
    and "cmd_value c = fill p (map (\<lambda>(v, q). ([37, 115], q)) r) @ 0 # rest"
    and "plain_piece p" and "list_all (\<lambda>(v, q). plain_piece q \<and> c_content v) r"
    and "json_ok cmds" and "item_type (fields cmds) = cJSON_Object"
    and "list_all2 (key_selects cmds) (child keys) (print_int k # map fst r)"
  shows "parse_object_cmd d (Some cmds) (Some keys) =
    Inr (if needRsp c then 1 else 0,
      Some (take 2047 (fill p r) @ replicate (2049 - min 2047 (length (fill p r))) 0), is2Pipe c)"
proof -
  have n: "cJSON_GetArraySize keys = Suc (length r)"
    using list_all2_lengthD [OF assms(12)] by (simp add: cJSON_GetArraySize_def)
  then have size: "\<not> (5 < int (cJSON_GetArraySize keys) \<or> int (cJSON_GetArraySize keys) \<le> 1)"
    "int (cJSON_GetArraySize keys) - 1 = int (length r)" using assms(5,6) by auto
  have op: "vaild_item cmds keys 0 = Inr (0, Some (print_int k @ [0]))"
    using vaild_item_selects [OF assms(10-12), of 0] by simp
  have key: "atoi (print_int k @ [0]) = Inr k" using assms(2) atoi_print_int [of k "[]"] by (simp add: int32_def)
  have ps: "take_params cmds keys (length r) [] = Inr (0, map (\<lambda>(v, q). v @ [0]) r)"
    using take_params_selects [OF assms(10-12), of "length r" "[]"] by (simp add: case_prod_beta comp_def)
  have out: "snprintf (MAX_BUF_SIZE * 2) (cmd_value c) (map (\<lambda>(v, q). v @ [0]) r) = Inr (take 2047 (fill p r))"
    unfolding snprintf_def assms(7) format_fill [OF assms(8,9)] by (simp add: MAX_BUF_SIZE_def)
  have len: "MAX_BUF_SIZE * 2 + 1 = 2049" by (simp add: MAX_BUF_SIZE_def)
  show ?thesis
    unfolding parse_object_cmd_def option.case prod.case Let_def size(2) if_not_P [OF size(1)] op bindR_simps key
      assms(1) nat_int ps out len using assms(3,4) by (simp add: min.commute)
qed

theorem parse_object_prints_witness:
  "\<exists>d. parse_object_cmd d (Some sample_cmds) (Some sample_keys) =
    Inr (1, Some (take 2047 (bytes_of ''pinfo Bob'') @ replicate 2040 0), True)"
proof -
  obtain d where d: "value_for_key d 7 = Inr (Some (command_of sample_command))" using sample_command_table by blast
  let ?r = "[(bytes_of ''Bob'', [])]"
  have r: "print_int 7 # map fst ?r = [bytes_of ''7'', bytes_of ''Bob'']" by code_simp
  have "parse_object_cmd d (Some sample_cmds) (Some sample_keys) =
    Inr (if needRsp (command_of sample_command) then 1 else 0,
      Some (take 2047 (fill (bytes_of ''pinfo '') ?r) @
        replicate (2049 - min 2047 (length (fill (bytes_of ''pinfo '') ?r))) 0), is2Pipe (command_of sample_command))"
  proof (rule parse_object_prints [OF d])
    show "cmd_value (command_of sample_command) =
        fill (bytes_of ''pinfo '') (map (\<lambda>(v, q). ([37, 115], q)) ?r) @ 0 # replicate 247 0" by code_simp
    show "json_ok sample_cmds" by code_simp
    show "item_type (fields sample_cmds) = cJSON_Object" by code_simp
    show "list_all2 (key_selects sample_cmds) (child sample_keys) (print_int 7 # map fst ?r)"
      unfolding r by (rule sample_selects)
    show "plain_piece (bytes_of ''pinfo '')" by code_simp
    show "list_all (\<lambda>(v, q). plain_piece q \<and> c_content v) ?r" by code_simp
  qed (simp_all add: int32_def command_of_def sample_command_def)
  moreover have "fill (bytes_of ''pinfo '') ?r = bytes_of ''pinfo Bob''" by simp
  ultimately show ?thesis by (intro exI [of _ d]) (simp add: command_of_def sample_command_def)
qed

end
