(* ===== verification/Requests.thy ===== *)
theory Requests
  imports Utility Message
begin

text \<open>
  The jobs of the thread pool (\<^verbatim>\<open>proxy_server/threadpool/aidsock.c\<close> from \<open>read_sock_func\<close> on): the messages of
  a client are read and their commands sent to the SOAP server or executed in the database, and
  the answers are written back as frames.

  A client is its descriptor and the script of what arrives from it. What is written to clients and to the
  server goes through \<open>writen_fd\<close> and is found in the state of \<open>Utility\<close>. Logging is not
  modelled; what a job allocates and frees is the subject of \<open>JobMemory\<close>.
\<close>

section \<open>The answer to a client\<close>

definition BUF4 :: nat where "BUF4 = MAX_BUF_SIZE * 4"

text \<open>The object that is printed: \<open>isopok\<close> and \<open>message\<close>; a null \<open>msg\<close> is a fault.\<close>

definition reply_object :: "bool \<Rightarrow> byte list option \<Rightarrow> cJSON res" where
  "reply_object isOpOk msg =
     bindR (cJSON_AddItemToObject cJSON_CreateObject (Some (lit (bytes_of ''isopok''))) (Some (cJSON_CreateBool isOpOk)))
       (\<lambda>root.
     bindR (cJSON_CreateString msg) (\<lambda>s.
     cJSON_AddItemToObject root (Some (lit (bytes_of ''message''))) (Some s)))"

definition write_sock_func :: "int \<Rightarrow> bool \<Rightarrow> byte list option \<Rightarrow> upstream \<Rightarrow> upstream res" where
  "write_sock_func client_fd isOpOk msg st =
     bindR (reply_object isOpOk msg) (\<lambda>root.
     bindR (cJSON_Print root) (\<lambda>json_str.
     case json_str of
       None \<Rightarrow> Inl NullDeref
     | Some json_str \<Rightarrow>
         bindR (strlen json_str) (\<lambda>n.
         if n > BUF4 then Inr st
         else bindR (crc_data (Some json_str) (int n) (replicate (BUF4 - HEADSIZE) 0)) (\<lambda>(len, body).
              if len = -1 then Inr st
              else bindR (convert_int_to_hex (word_of_int len) (replicate HEADSIZE 0 @ body)) (\<lambda>(_, buf).
                   case writen_fd client_fd (take (nat len + HEADSIZE) buf) st of (_, _, st) \<Rightarrow> Inr st)))))"

definition write_fd_error_message :: "int \<Rightarrow> int \<Rightarrow> upstream \<Rightarrow> upstream res" where
  "write_fd_error_message client_fd err st =
     write_sock_func client_fd False
       (if err = 1 then Some (lit (bytes_of ''connect to wow server failed''))
        else if err = 2 then Some (lit (bytes_of ''Broken Pipe'')) else None) st"

section \<open>A command for the SOAP server\<close>

text \<open>\<open>command\<close> is the object of the command, \<open>n\<close> its length as far as it was counted, \<open>auth\<close> the credentials.\<close>

definition write_pipe_or_sock ::
    "byte list option \<Rightarrow> int \<Rightarrow> int \<Rightarrow> byte list \<Rightarrow> nat \<Rightarrow> upstream \<Rightarrow> upstream res" where
  "write_pipe_or_sock auth client_fd resp command n st =
     (case make_soap_socket st of (sock_fd, st) \<Rightarrow>
      if sock_fd \<le> 0 then write_fd_error_message client_fd 1 st
      else bindR (strlen command) (\<lambda>l.
           bindR (make_soap_request (Some (take l command)) n auth BUF4) (\<lambda>(len, request).
           let szBuf = (case request of None \<Rightarrow> replicate BUF4 0 | Some r \<Rightarrow> r @ replicate (BUF4 - length r) 0)
           in case writen_fd sock_fd (take len szBuf) st of (ret, fd_write, st) \<Rightarrow>
              if ret \<le> 0 then write_fd_error_message client_fd 1 st
              else bindR (readn_fd fd_write szBuf st) (\<lambda>(nbytes, szBuf, st).
                   if resp = 1 \<and> nbytes > 0
                   then bindR (analysis_soap_response (Some szBuf) (nat nbytes) (replicate BUF4 0) BUF4)
                          (\<lambda>(isOpOk, szrst, rst_len).
                        bindR (memcpy szBuf 0 szrst rst_len) (\<lambda>szBuf.
                        bindR (wr szBuf rst_len 0) (\<lambda>szBuf.
                          write_sock_func client_fd isOpOk (Some szBuf) st)))
                   else Inr st))))"

section \<open>A command for the database\<close>

text \<open>
  A connection of SQLite: whether it is open, and its statements that are not finalized. What the
  library does with a text is a parameter: whether the file opens, whether \<open>sqlite3_prepare_v2\<close> makes a
  statement of it, and whether \<open>sqlite3_step\<close> is done with it at once. A step without a
  statement is an error; \<open>sqlite3_close\<close> refuses a connection that still has statements.
\<close>

record conn =
  c_open :: bool
  c_stmts :: nat

record sql =
  sql_open :: "byte list \<Rightarrow> bool"
  sql_prepare :: "byte list \<Rightarrow> bool"
  sql_done :: "byte list \<Rightarrow> bool"

definition sqlite3_close :: "conn \<Rightarrow> conn res" where
  "sqlite3_close c =
     (if \<not> c_open c then Inl UseAfterFree
      else Inr (if c_stmts c = 0 then c\<lparr>c_open := False\<rparr> else c))"

text \<open>\<open>close_db\<close> sets its own copy of the pointer to null, and not that of the caller.\<close>

definition close_db :: "conn option \<Rightarrow> conn option res" where
  "close_db db = (case db of None \<Rightarrow> Inr None | Some c \<Rightarrow> bindR (sqlite3_close c) (\<lambda>c. Inr (Some c)))"

definition run_statement :: "sql \<Rightarrow> byte list \<Rightarrow> conn \<Rightarrow> conn option res" where
  "run_statement q text c =
     (if \<not> c_open c then Inl UseAfterFree
      else let made = sql_prepare q text;
               c = (if made then c\<lparr>c_stmts := c_stmts c + 1\<rparr> else c)
           in if \<not> made \<or> \<not> sql_done q text then close_db (Some c)
              else Inr (Some (c\<lparr>c_stmts := c_stmts c - 1\<rparr>)))"

definition write_db :: "sql \<Rightarrow> byte list \<Rightarrow> byte list option \<Rightarrow> conn option \<Rightarrow> conn option res" where
  "write_db q cwd cmds db =
     (case cmds of
        None \<Rightarrow> Inr db
      | Some cmds \<Rightarrow>
          bindR (strlen cmds) (\<lambda>n.
          if n = 0 then Inr db
          else case db of
            Some c \<Rightarrow> run_statement q (take n cmds) c
          | None \<Rightarrow>
              if \<not> sql_open q (db_path cwd) then bindR (close_db (Some \<lparr>c_open = True, c_stmts = 0\<rparr>)) (\<lambda>_. Inr None)
              else run_statement q (take n cmds) \<lparr>c_open = True, c_stmts = 0\<rparr>))"

section \<open>The job of reading\<close>

text \<open>What a job works with: the table of commands, the credentials, the database and the directory\<close>

record proxy =
  px_commands :: "Table hash_head"
  px_auth :: "byte list option"
  px_sql :: sql
  px_cwd :: "byte list"

text \<open>\<open>strnlen(cmds[idx], nbytes)\<close>\<close>

fun strnlen :: "byte list \<Rightarrow> nat \<Rightarrow> nat res" where
  "strnlen s 0 = Inr 0"
| "strnlen [] (Suc n) = Inl OobRead"
| "strnlen (c # s) (Suc n) = (if c = 0 then Inr 0 else bindR (strnlen s n) (\<lambda>l. Inr (Suc l)))"

fun run_commands :: "proxy \<Rightarrow> int \<Rightarrow> nat \<Rightarrow> (int \<times> byte list option \<times> bool) list \<Rightarrow> conn option \<Rightarrow> upstream \<Rightarrow>
    (conn option \<times> upstream) res" where
  "run_commands px fd nbytes [] db st = Inr (db, st)"
| "run_commands px fd nbytes ((resp, command, pipe) # cs) db st =
     bindR (if resp \<ge> 0 then
              (case command of
                 None \<Rightarrow> Inr (db, st)
               | Some c \<Rightarrow>
                   if pipe
                   then bindR (strnlen c nbytes) (\<lambda>n.
                        bindR (write_pipe_or_sock (px_auth px) fd resp c n st) (\<lambda>st. Inr (db, st)))
                   else bindR (write_db (px_sql px) (px_cwd px) command db) (\<lambda>db. Inr (db, st)))
            else Inr (db, st))
       (\<lambda>(db, st). run_commands px fd nbytes cs db st)"

lemma os_peek_size: "os_peek s n = (a, s') \<Longrightarrow> rx_size s' \<le> rx_size s"
  by (cases "(s, n)" rule: os_peek.cases) auto

lemma recv_peek_size: "recv_peek_loop idx ret s n = (r, ds, s') \<Longrightarrow> rx_size s' \<le> rx_size s"
proof (induction idx arbitrary: ret s)
  case (Suc idx)
  obtain a s1 where p: "os_peek s n = (a, s1)" by fastforce
  from os_peek_size [OF p] Suc.prems Suc.IH [of "-1" s1] p show ?case
    by (cases a) (auto split: if_splits intro: order_trans)
qed simp

lemma os_read_size: "os_read s n = (a, s') \<Longrightarrow> rx_size s' \<le> rx_size s"
  by (cases "(s, n)" rule: os_read.cases) (auto split: if_splits)

lemma readn_loop_size:
  "readn_loop s n ds = (r, bs, s') \<Longrightarrow>
     rx_size s' \<le> rx_size s \<and> (length ds < length bs \<longrightarrow> rx_size s' < rx_size s) \<and> (0 < r \<longrightarrow> r = int (length bs))"
proof (induction s n ds rule: readn_loop.induct)
  case (1 s n ds)
  show ?case
  proof (cases "n = 0")
    case True
    with "1.prems" show ?thesis by (auto simp: readn_loop.simps [of s 0])
  next
    case False
    obtain a s1 where a: "os_read s n = (a, s1)" by fastforce
    show ?thesis
    proof (cases a)
      case (Fail e)
      with "1.IH"(2) [OF False a [symmetric] Fail] "1.prems" False a os_read_size [OF a] os_read_size_intr [of s1 s n]
      show ?thesis by (auto simp: readn_loop.simps [of s n] split: if_splits)
    next
      case (Got xs)
      with "1.IH"(1) [OF False a [symmetric] Got] "1.prems" False a os_read_size [OF a] os_read_size_got [of xs s1 s n]
      show ?thesis by (auto simp: readn_loop.simps [of s n] split: if_splits)
    qed
  qed
qed

lemma read_normal_sock_shorter:
  assumes "read_normal_sock s = Inr (n, Some buf, s')" and "0 < n"
  shows "rx_size s' < rx_size s"
proof -
  obtain r hd s1 where p: "recv_peek s HEADSIZE = (r, hd, s1)" by (metis prod_cases3)
  then have s1: "rx_size s1 \<le> rx_size s" using recv_peek_size by (simp add: recv_peek_def)
  obtain m bs where "readn s1 m = (n, bs, s')"
    using assms(1) p by (auto simp: read_normal_sock_def Let_def bindR_eq_Inr_iff split: if_splits prod.splits)
  then have "rx_size s' < rx_size s1" using readn_loop_size [of s1 m "[]" n bs s'] assms(2) by (auto simp: readn_def)
  with s1 show ?thesis by simp
qed

lemma analysed_commands:
  assumes "analysis_message t buf n = Inr (Commands cs)"
  shows "0 < n \<and> buf \<noteq> None"
  using assms by (auto simp: analysis_message_def split: option.splits if_splits)

text \<open>The loop: a turn reads one frame, and ends the loop when there is none or it has no commands.\<close>

function read_loop_func :: "proxy \<Rightarrow> int \<Rightarrow> rx list \<Rightarrow> conn option \<Rightarrow> upstream \<Rightarrow> (rx list \<times> conn option \<times> upstream) res" where
  "read_loop_func px fd s db st =
     bindR (read_normal_sock s) (\<lambda>(nbytes, pszBuf, s').
       if nbytes < 0 then Inr (s', db, st)
       else bindR (analysis_message (px_commands px) pszBuf (nat nbytes)) (\<lambda>r.
            case r of
              Rejected _ \<Rightarrow> Inr (s', db, st)
            | Commands cs \<Rightarrow>
                bindR (run_commands px fd (nat nbytes) cs db st) (\<lambda>(db, st). read_loop_func px fd s' db st)))"
  by pat_completeness auto
termination
  by (relation "measure (\<lambda>(px, fd, s, db, st). rx_size s)")
    (auto dest!: analysed_commands intro: read_normal_sock_shorter)

declare read_loop_func.simps [simp del]

definition read_sock_func :: "proxy \<Rightarrow> int \<Rightarrow> rx list \<Rightarrow> upstream \<Rightarrow> (rx list \<times> upstream) res" where
  "read_sock_func px fd s st =
     bindR (read_loop_func px fd s None st) (\<lambda>(s, db, st).
     bindR (close_db db) (\<lambda>_. Inr (s, st)))"

section \<open>The frame of an answer\<close>

definition reply_tree :: "bool \<Rightarrow> byte list \<Rightarrow> cJSON" where
  "reply_tree ok m = Node (cJSON.fields cJSON_CreateObject)
     [Node ((cJSON.fields (cJSON_CreateBool ok))\<lparr>item_string := Some (lit (bytes_of ''isopok''))\<rparr>) [],
      Node (cJSON_New_Item\<lparr>item_type := cJSON_String, valuestring := Some (m @ [0]),
        item_string := Some (lit (bytes_of ''message''))\<rparr>) []]"

text \<open>The JSON text, and the frame: the length of text and checksum in two bytes, the text, the checksum\<close>

definition reply_text :: "bool \<Rightarrow> byte list \<Rightarrow> byte list" where
  "reply_text ok m =
     bytes_of ''{'' @ [10, 9] @ bytes_of ''\"isopok\":'' @ [9] @ bytes_of (if ok then ''true'' else ''false'') @
     bytes_of '','' @ [10, 9] @ bytes_of ''\"message\":'' @ [9] @ string_bytes m @ [10] @ bytes_of ''}''"

definition reply_frame :: "bool \<Rightarrow> byte list \<Rightarrow> byte list" where
  "reply_frame ok m =
     (let j = reply_text ok m; n = of_nat (length j + 1) :: 32 word
      in ucast (n div 256) # ucast (n mod 256) # j @ [crc8_of j])"

lemma reply_object_tree:
  assumes "c_content m"
  shows "reply_object ok (Some (m @ 0 # r)) = Inr (reply_tree ok m)"
proof -
  have names: "strlen (lit (bytes_of ''isopok'')) = Inr 6" "strlen (lit (bytes_of ''message'')) = Inr 7"
    "take 7 (lit (bytes_of ''isopok'')) = lit (bytes_of ''isopok'')"
    "take 8 (lit (bytes_of ''message'')) = lit (bytes_of ''message'')"
    by code_simp+
  show ?thesis
    using strlen_content [OF assms, of r] names
    by (simp add: reply_object_def reply_tree_def cJSON_AddItemToObject_def cJSON_CreateBool_def of_type_def
        cJSON_strdup_def cJSON_AddItemToArray_def with_children_def cJSON_CreateObject_def cJSON_CreateString_def
        eval_nat_numeral)
qed

lemma reply_tree_ok:
  assumes "c_content m"
  shows "json_ok (reply_tree ok m)" "integers_only (reply_tree ok m)"
  using assms
  by (auto simp: reply_tree_def item_ok_def cJSON_CreateBool_def cJSON_CreateObject_def of_type_def type_simps
      cJSON_New_Item_def c_string_iff lit_def)

lemma render_reply: "json_render True 0 (reply_tree ok m) = reply_text ok m"
  by (simp add: reply_tree_def reply_text_def cJSON_CreateBool_def cJSON_CreateObject_def of_type_def type_simps
      cJSON_New_Item_def name_bytes_def member_bytes_def newline_def tabs_def string_value_def string_bytes_def
      lit_def escape_char_def)

lemma crc_data_longer:
  assumes "length d < 2 ^ 31" and "Suc (length d) \<le> length buf"
  shows "crc_data (Some (d @ r)) (int (length d)) buf =
    Inr (int (length d) + 1, d @ crc8_of d # drop (Suc (length d)) buf)"
proof -
  have "crc_data (Some (d @ r)) (int (length d)) buf = crc_data (Some d) (int (length d)) buf"
    using assms(1) crc8_eq [of "length d" "d @ r"] crc8_eq [of "length d" d]
    by (simp add: crc_data_def memcpy_def)
  then show ?thesis using crc_data_eq [OF assms] by simp
qed

lemma BUF4_eq: "BUF4 = 4096"
  by (simp add: BUF4_def MAX_BUF_SIZE_def)

lemma reply_frame_length: "length (reply_frame ok m) = length (reply_text ok m) + 3"
  by (simp add: reply_frame_def Let_def)

lemma write_sock_steps:
  assumes "c_content m"
  shows "write_sock_func fd ok (Some (m @ 0 # r)) st =
    (let j = reply_text ok m in
     if length j > 4096 then Inr st
     else bindR (crc_data (Some (j @ [0])) (int (length j)) (replicate 4094 0)) (\<lambda>(len, body).
       if len = -1 then Inr st
       else bindR (convert_int_to_hex (word_of_int len) (replicate HEADSIZE 0 @ body)) (\<lambda>(_, buf).
         case writen_fd fd (take (nat len + HEADSIZE) buf) st of (_, _, st) \<Rightarrow> Inr st)))"
proof -
  have p: "cJSON_Print (reply_tree ok m) = Inr (Some (reply_text ok m @ [0]))" and c: "c_content (reply_text ok m)"
    using print_renders(1) [OF reply_tree_ok(1) [OF assms] integers_numbers_ok [OF reply_tree_ok(2) [OF assms]], where depth = 0 and fmt = True]
    by (simp_all add: cJSON_Print_def render_reply)
  have n: "strlen (reply_text ok m @ [0]) = Inr (length (reply_text ok m))" by (rule strlen_content [OF c])
  have b: "4096 - HEADSIZE = 4094" by (simp add: HEADSIZE_def)
  show ?thesis
    unfolding write_sock_func_def reply_object_tree [OF assms] bindR_simps p option.case n BUF4_eq b Let_def ..
qed

text \<open>A text of at most 4093 bytes is sent as a frame; a longer one does not fit into the buffer.\<close>

lemma write_sock_frame:
  assumes "c_content m" and "length (reply_text ok m) \<le> 4093"
  shows "write_sock_func fd ok (Some (m @ 0 # r)) st =
    (case writen_fd fd (reply_frame ok m) st of (_, _, st) \<Rightarrow> Inr st)"
proof -
  let ?j = "reply_text ok m"
  let ?n = "of_nat (length ?j + 1) :: 32 word"
  have crc: "crc_data (Some (?j @ [0])) (int (length ?j)) (replicate 4094 0) =
      Inr (int (length ?j + 1), ?j @ crc8_of ?j # drop (Suc (length ?j)) (replicate 4094 0))"
    using crc_data_longer [of ?j "replicate 4094 0" "[0]"] assms(2) by simp
  have "unat ?n = length ?j + 1"
    unfolding unat_of_nat using assms(2) by simp
  then have "unat ?n \<le> 0xffff" using assms(2) by simp
  moreover have "replicate HEADSIZE (0 :: byte) = [0, 0]" by (simp add: HEADSIZE_def numeral_2_eq_2)
  ultimately have hex: "convert_int_to_hex ?n (replicate HEADSIZE 0 @ body) =
      Inr (True, ucast (?n div 256) # ucast (?n mod 256) # body)" for body
    using convert_int_to_hex_eq [of ?n 0 0 body] by simp
  have w: "(word_of_int (int (length ?j + 1)) :: 32 word) = ?n" by (simp only: of_int_of_nat_eq)
  have "take (nat (int (length ?j + 1)) + HEADSIZE)
      (ucast (?n div 256) # ucast (?n mod 256) # ?j @ crc8_of ?j # z) = reply_frame ok m" for z
    unfolding nat_int by (simp add: reply_frame_def Let_def HEADSIZE_def)
  moreover have "\<not> length ?j > 4096" "int (length ?j + 1) \<noteq> -1" using assms(2) by simp_all
  ultimately show ?thesis
    unfolding write_sock_steps [OF assms(1)] Let_def by (simp only: if_False crc bindR_simps prod.case w hex)
qed

text \<open>What a client makes of the frame\<close>

lemma reply_frame_reads:
  assumes "c_content m" and "length (reply_text ok m) \<le> 4093"
  shows "convert_hex_to_int (reply_frame ok m) HEADSIZE = Inr (int (length (reply_text ok m) + 1))"
    and "crc8_of (drop HEADSIZE (reply_frame ok m)) = 0"
    and "\<exists>c rest. cJSON_Parse (length (reply_text ok m) + 1) (reply_text ok m @ [0]) = Inr (Parsed c rest) \<and>
      json_view c = JObject [(bytes_of ''isopok'', JBool ok), (bytes_of ''message'', JString m)]"
proof -
  let ?n = "of_nat (length (reply_text ok m) + 1) :: 32 word"
  have n: "unat ?n = length (reply_text ok m) + 1" unfolding unat_of_nat using assms(2) by simp
  have "uint (ucast (?n div 256) :: byte) = int (unat ?n div 256)" "uint (ucast (?n mod 256) :: byte) = int (unat ?n mod 256)"
    using assms(2) n by (simp_all add: uint_nat unsigned_ucast_eq unat_div unat_mod take_bit_eq_mod zdiv_int zmod_int)
  then show "convert_hex_to_int (reply_frame ok m) HEADSIZE = Inr (int (length (reply_text ok m) + 1))"
    unfolding reply_frame_def Let_def convert_hex_to_int_2
    using n div_mult_mod_eq [of "unat ?n" 256] by (metis of_nat_add of_nat_mult of_nat_numeral)
  show "crc8_of (drop HEADSIZE (reply_frame ok m)) = 0"
    by (simp add: reply_frame_def Let_def HEADSIZE_def crc8_of_append_crc)
  from parse_printed [OF reply_tree_ok [OF assms(1)], where fmt = True and d = 0 and fuel = "length (reply_text ok m) + 1" and r = "[]"] obtain c where
    "cJSON_Parse (length (reply_text ok m) + 1) (reply_text ok m @ [0]) = Inr (Parsed c [0])" "json_view c = json_view (reply_tree ok m)"
    by (auto simp: render_reply)
  moreover have "json_view (reply_tree ok m) = JObject [(bytes_of ''isopok'', JBool ok), (bytes_of ''message'', JString m)]"
    by (simp add: reply_tree_def cJSON_CreateBool_def cJSON_CreateObject_def of_type_def type_simps cJSON_New_Item_def
        name_bytes_def string_value_def lit_def)
  ultimately show "\<exists>c rest. cJSON_Parse (length (reply_text ok m) + 1) (reply_text ok m @ [0]) = Inr (Parsed c rest) \<and>
      json_view c = JObject [(bytes_of ''isopok'', JBool ok), (bytes_of ''message'', JString m)]" by auto
qed

lemma write_sock_sends:
  assumes "c_content m" and "length (reply_text ok m) \<le> 4093"
    and "0 < fd" and "peer_stays st" and "writes st = ws @ rest" and "list_all tx_fine ws"
    and "length (reply_text ok m) + 3 \<le> tx_total ws"
  shows "\<exists>st'. write_sock_func fd ok (Some (m @ 0 # r)) st = Inr st' \<and> all_sent fd (reply_frame ok m) rest st st'"
proof -
  from writen_loop_sends [OF assms(3-6), of "reply_frame ok m"] assms(7) obtain st' where
    "writen_loop fd (reply_frame ok m) st = (0, fd, st')" "all_sent fd (reply_frame ok m) rest st st'"
    by (auto simp: reply_frame_length)
  then show ?thesis by (simp add: write_sock_frame [OF assms(1,2)] writen_fd_def)
qed

section \<open>Reconnecting\<close>

lemma set_opts_ok: "opts st = replicate n True @ os \<Longrightarrow> set_opts n st = (0, st\<lparr>opts := os\<rparr>)"
  by (induction n arbitrary: st) (simp_all add: os_setsockopt_def pop_def)

lemma connect_ok: "conns st = True # cs \<Longrightarrow> connect_loop (Suc n) st = (True, st\<lparr>conns := cs\<rparr>)"
  by (simp add: os_connect_def pop_def)

definition reconnected :: "int \<Rightarrow> int list \<Rightarrow> bool list \<Rightarrow> bool list \<Rightarrow> upstream \<Rightarrow> upstream" where
  "reconnected g gs os cs st =
     st\<lparr>td_sock_id := g, socks := gs, opts := os, conns := cs,
       closed := (if td_sock_id st > 0 then closed st @ [td_sock_id st] else closed st)\<rparr>"

lemma reset_ok:
  assumes "socks st = g # gs" and "0 < g" and "opts st = replicate 5 True @ os" and "conns st = True # cs"
  shows "reset_thread_local_soap_socket st = (g, reconnected g gs os cs st)"
proof -
  let ?st = "(if td_sock_id st > 0 then os_close (td_sock_id st) st else st)\<lparr>td_sock_id := 0\<rparr>"
  have o: "set_opts 5 (?st\<lparr>socks := gs\<rparr>) = (0, ?st\<lparr>socks := gs, opts := os\<rparr>)"
    by (rule set_opts_ok) (simp add: os_close_def assms(3))
  have c: "connect_loop 3 (?st\<lparr>socks := gs, opts := os\<rparr>) = (True, ?st\<lparr>socks := gs, opts := os, conns := cs\<rparr>)"
    using connect_ok [of "?st\<lparr>socks := gs, opts := os\<rparr>" cs 2] assms(4) by (simp add: os_close_def eval_nat_numeral)
  have s: "os_socket ?st = (g, ?st\<lparr>socks := gs\<rparr>)" using assms(1) by (simp add: os_socket_def pop_def os_close_def)
  have "make_soap_socket ?st = (g, ?st\<lparr>socks := gs, opts := os, conns := cs, td_sock_id := g\<rparr>)"
    using assms(2) by (simp add: make_soap_socket_def s set_sock_keepalive_def o c)
  then show ?thesis using assms(2)
    by (simp add: reset_thread_local_soap_socket_def Let_def reconnected_def os_close_def)
qed

text \<open>When the peer is gone, the bytes go to the new connection to the SOAP server.\<close>

lemma writen_loop_peer_gone:
  assumes "0 < fd" and "peeks st = PeekEof # ps" and "ptr \<noteq> []"
    and "socks st = g # gs" and "0 < g" and "opts st = replicate 5 True @ os" and "conns st = True # cs"
  shows "writen_loop fd ptr st =
    writen_loop g ptr (reconnected g gs os cs (st\<lparr>peeks := PeekData # ps\<rparr>))"
proof -
  let ?st = "st\<lparr>peeks := ps\<rparr>"
  have c: "is_sock_closed_by_peer fd st = (True, ?st)"
    using assms(1,2) by (simp add: is_sock_closed_by_peer_def os_recv_peek_def pop_def)
  have r: "reset_thread_local_soap_socket ?st = (g, reconnected g gs os cs ?st)"
    by (rule reset_ok) (simp_all add: assms)
  have d: "is_sock_closed_by_peer g (reconnected g gs os cs (st\<lparr>peeks := PeekData # ps\<rparr>)) = (False, reconnected g gs os cs ?st)"
    using assms(5) by (simp add: reconnected_def is_sock_closed_by_peer_def os_recv_peek_def pop_def)
  show ?thesis
    unfolding writen_loop.simps [of fd ptr st] writen_loop.simps [of g ptr "reconnected g gs os cs (st\<lparr>peeks := PeekData # ps\<rparr>)"] c d
    using assms(3,5) by (simp add: r)
qed

section \<open>An exchange with the SOAP server\<close>

definition request_text :: "byte list \<Rightarrow> byte list \<Rightarrow> byte list" where
  "request_text a command = concat (request_lines (length (envelope command)) a) @ envelope command"

lemma request_text_length:
  assumes "length command \<le> 496" and "length a \<le> 2700"
  shows "request_text a command \<noteq> []" "length (request_text a command) \<le> BUF4"
    "length (request_text a command) = length (envelope command) + length (concat (request_lines (length (envelope command)) a))"
  using request_length [of "length (envelope command)" a] assms
  by (simp_all add: request_text_def envelope_length BUF4_eq request_lines_def)

text \<open>
  The thread is connected to the server at \<open>s\<close>, the kernel takes the whole request, and the answer \<open>c\<close> of at
  most 1023 bytes arrives in one piece.
\<close>

lemma exchange:
  assumes "0 < td_sock_id st" and "peer_stays st" and "writes st = ws @ rest" and "list_all tx_fine ws"
    and "length (request_text a command) \<le> tx_total ws"
    and "c_content command" and "length command \<le> 496" and "n \<noteq> 0" and "a \<noteq> []" and "length a \<le> 2700"
    and "0 < k" and "selects st = k # ks" and "reads st = RdSome c # rs" and "c_content c" and "length c < 1024"
  shows "\<exists>st'. write_pipe_or_sock (Some a) fd resp (command @ 0 # r) n st =
      (if resp = 1 \<and> c \<noteq> []
       then bindR (analysis_soap_response (Some (c @ 0 # replicate (4095 - length c) 0)) (length c) (replicate 4096 0) 4096)
              (\<lambda>(isOpOk, szrst, rst_len).
            bindR (memcpy (c @ replicate (4096 - length c) 0) 0 szrst rst_len) (\<lambda>szBuf.
            bindR (wr szBuf rst_len 0) (\<lambda>szBuf. write_sock_func fd isOpOk (Some szBuf) st')))
       else Inr st') \<and>
    all_sent (td_sock_id st) (request_text a command) rest st (st'\<lparr>selects := k # ks, reads := RdSome c # rs\<rparr>)"
proof -
  let ?s = "td_sock_id st" and ?q = "request_text a command"
  note q = request_text_length [OF assms(7,10)]
  let ?b = "?q @ replicate (BUF4 - length ?q) 0"
  have b: "length ?b = 4096" using q(2) BUF4_eq by simp
  from writen_loop_sends [OF assms(1-5)] obtain st1 where
    w: "writen_loop ?s ?q st = (0, ?s, st1)" "all_sent ?s ?q rest st st1" by blast
  have stays: "peer_stays st1" "selects st1 = k # ks" "reads st1 = RdSome c # rs"
    using w(2) assms(12,13) by (simp_all add: all_sent_def)
  have "length c < length ?b" using assms(15) unfolding b by simp
  note rd = readn_fd_short [OF assms(1) stays(1) assms(11) stays(2,3) assms(14,15) this]
  then obtain ps where
    ps: "peer_stays (st1\<lparr>peeks := ps\<rparr>)" "readn_fd ?s ?b st1 =
      Inr (int (length c), c @ replicate (4096 - length c) 0, st1\<lparr>selects := ks, peeks := ps, reads := rs\<rparr>)"
    unfolding b by (elim exE conjE)
  have cap: "length a \<le> 3000" "length a + 1300 \<le> BUF4" using assms(10) unfolding BUF4_eq by simp_all
  have m: "make_soap_request (Some command) n (Some a) BUF4 = Inr (length ?q, Some ?q)"
    unfolding request_eq [OF assms(8,9) cap] if_P [OF assms(7)] Let_def request_text_def ..
  have z: "replicate (4096 - length c) (0 :: byte) = 0 # replicate (4095 - length c) 0"
  proof -
    have "4096 - length c = Suc (4095 - length c)" using assms(15) by simp
    then show ?thesis by (simp only: replicate_Suc)
  qed
  have go: "make_soap_socket st = (?s, st)" "\<not> ?s \<le> 0" using assms(1) by (simp_all add: make_soap_socket_def)
  have wr: "writen_fd ?s (take (length ?q) ?b) st = (int (length ?q), ?s, st1)" "\<not> int (length ?q) \<le> 0"
    using w(1) q(1) by (simp_all add: writen_fd_def)
  have t: "take (length command) (command @ 0 # r) = command" by simp
  have "0 < int (length c) \<longleftrightarrow> c \<noteq> []" by simp
  moreover have "all_sent ?s ?q rest st (st1\<lparr>selects := ks, peeks := ps, reads := rs\<rparr>\<lparr>selects := k # ks, reads := RdSome c # rs\<rparr>)"
    using w(2) ps(1) assms(12,13) by (simp add: all_sent_def sent_to_def peer_stays_def)
  ultimately show ?thesis
    unfolding write_pipe_or_sock_def go(1) prod.case if_not_P [OF go(2)] strlen_content [OF assms(6)] bindR_simps
      t m Let_def option.case wr(1) if_not_P [OF wr(2)] ps(2)
    by (intro exI [of _ "st1\<lparr>selects := ks, peeks := ps, reads := rs\<rparr>"]) (simp add: z BUF4_eq)
qed

section \<open>A frame without a body\<close>

lemma header_only_frame:
  assumes "b0 \<noteq> 0 \<or> b1 \<noteq> 0"
  shows "\<exists>z. read_normal_sock [RxData [b0, b1]] = Inr (2, Some (b0 # b1 # z), [])"
proof -
  let ?n = "uint b0 * 256 + uint b1"
  have pos: "0 < ?n"
  proof -
    have "uint b0 \<noteq> 0 \<or> uint b1 \<noteq> 0" using assms by (simp add: unsigned_eq_0_iff)
    then show ?thesis using unsigned_greater_eq [of b0, where 'a = int] unsigned_greater_eq [of b1, where 'a = int] by linarith
  qed
  have p: "recv_peek [RxData [b0, b1]] HEADSIZE = (2, [b0, b1], [RxData [b0, b1]])"
    by (simp add: recv_peek_def HEADSIZE_def eval_nat_numeral)
  have r: "readn [RxData [b0, b1]] (nat ?n + HEADSIZE) = (2, [b0, b1], [])"
    using pos by (simp add: readn_def readn_loop.simps HEADSIZE_def)
  have c: "convert_hex_to_int [b0, b1, 0] HEADSIZE = Inr ?n" by (rule convert_hex_to_int_2)
  have one: "HEADSIZE + 1 - length [b0, b1] = 1" by (simp add: HEADSIZE_def)
  have "read_normal_sock [RxData [b0, b1]] =
      Inr (2, Some ([b0, b1] @ replicate (nat ?n + HEADSIZE - length [b0, b1]) 0), [])"
    unfolding read_normal_sock_def p prod.case Let_def one using pos c r by simp
  then show ?thesis by simp
qed

lemma analysis_of_header: "\<exists>e. analysis_message d (Some (b0 # b1 # z)) 2 = Inl e"
proof -
  have "crc8 z 0 = Inr (crc8_of [])" using crc8_eq [of 0 z] by simp
  moreover have "crc8_of [] = 0" by (simp add: crc8_of_def)
  ultimately have "is_data_integrity z 0 = Inr 0" by (simp add: is_data_integrity_def)
  moreover have "\<exists>e. memcpy [] 0 z (to_size_t (0 - 1)) = Inl e" by (simp add: memcpy_def)
  ultimately obtain e where "reverse_crc_data (Some z) 0 (Some []) = Inl e" by (auto simp: reverse_crc_data_def)
  moreover have "drop HEADSIZE (b0 # b1 # z) = z" "int 2 - int HEADSIZE = 0" by (simp_all add: HEADSIZE_def)
  ultimately show ?thesis unfolding analysis_message_def by (simp add: Let_def)
qed

section \<open>The statements of a job\<close>

lemma run_statements:
  assumes "sql_open (px_sql px) (db_path (px_cwd px))"
    and "list_all (\<lambda>(resp, c). 0 \<le> resp \<and> c_content c \<and> sql_prepare (px_sql px) c \<and> sql_done (px_sql px) c) cs"
    and "db = None \<or> db = Some \<lparr>c_open = True, c_stmts = 0\<rparr>"
  shows "run_commands px fd n (map (\<lambda>(resp, c). (resp, Some (c @ [0]), False)) cs) db st =
    Inr (if list_all (\<lambda>(resp, c). c = []) cs then db else Some \<lparr>c_open = True, c_stmts = 0\<rparr>, st)"
  using assms(2,3)
proof (induction cs arbitrary: db)
  case (Cons rc cs)
  obtain resp c where rc: "rc = (resp, c)" by fastforce
  have l: "strlen (c @ [0]) = Inr (length c)" using Cons.prems(1) rc strlen_content [of c "[]"] by simp
  have "write_db (px_sql px) (px_cwd px) (Some (c @ [0])) db =
      Inr (if c = [] then db else Some \<lparr>c_open = True, c_stmts = 0\<rparr>)"
    using Cons.prems assms(1) rc by (auto simp: write_db_def l run_statement_def)
  with Cons.IH [of "if c = [] then db else Some \<lparr>c_open = True, c_stmts = 0\<rparr>"] Cons.prems rc show ?case by auto
qed simp

section \<open>Properties\<close>

text \<open>
  C19: What is answered reaches the client. For a message whose JSON text has at most 4093 bytes, and a
  client that stays connected, \<open>write_sock_func\<close> writes to the client, and to nobody else, a frame whose
  first two bytes are the length of what follows them, whose checksum is right, and whose text parses to the
  object with the outcome and the message: the escapes, the length and the checksum are what a
  reader of the protocol undoes.
\<close>

theorem write_sock_reply:
  assumes "c_content m" and "length (reply_text ok m) \<le> 4093"
    and "0 < fd" and "peer_stays st" and "writes st = ws @ rest" and "list_all tx_fine ws"
    and "length (reply_text ok m) + 3 \<le> tx_total ws"
  shows "\<exists>st' frame. write_sock_func fd ok (Some (m @ 0 # r)) st = Inr st' \<and>
    sent_to fd st' = sent_to fd st @ frame \<and> (\<forall>g. g \<noteq> fd \<longrightarrow> sent_to g st' = sent_to g st) \<and>
    convert_hex_to_int frame HEADSIZE = Inr (int (length (drop HEADSIZE frame))) \<and>
    crc8_of (drop HEADSIZE frame) = 0 \<and>
    (\<exists>fuel c rest. cJSON_Parse fuel (take (length (drop HEADSIZE frame) - 1) (drop HEADSIZE frame) @ [0]) = Inr (Parsed c rest) \<and>
      json_view c = JObject [(bytes_of ''isopok'', JBool ok), (bytes_of ''message'', JString m)])"
proof -
  have body: "length (drop HEADSIZE (reply_frame ok m)) = length (reply_text ok m) + 1"
    "take (length (drop HEADSIZE (reply_frame ok m)) - 1) (drop HEADSIZE (reply_frame ok m)) = reply_text ok m"
    by (simp_all add: reply_frame_def Let_def HEADSIZE_def)
  from write_sock_sends [OF assms, of r] obtain st' where
    "write_sock_func fd ok (Some (m @ 0 # r)) st = Inr st'" "all_sent fd (reply_frame ok m) rest st st'" by blast
  with reply_frame_reads [OF assms(1,2)] show ?thesis unfolding all_sent_def
    by (intro exI [of _ st'] exI [of _ "reply_frame ok m"]) (unfold body(2), unfold body(1), blast)
qed

definition sample_answer :: "byte list" where
  "sample_answer = bytes_of ''Say \"hi\"''"

lemma sample_answer_ok: "c_content sample_answer" "length (reply_text True sample_answer) \<le> 60"
  by code_simp+

definition sample_proxy :: proxy where
  "sample_proxy = \<lparr>px_commands = None, px_auth = None,
     px_sql = \<lparr>sql_open = (\<lambda>p. True), sql_prepare = (\<lambda>s. True), sql_done = (\<lambda>s. True)\<rparr>, px_cwd = []\<rparr>"

theorem write_sock_reply_witness:
  "\<exists>st' frame. write_sock_func 7 True (Some (sample_answer @ 0 # [])) (quiet\<lparr>writes := [TxSome 9, TxSome 90] @ []\<rparr>) = Inr st' \<and>
    sent_to 7 st' = frame \<and> convert_hex_to_int frame HEADSIZE = Inr (int (length (drop HEADSIZE frame)))"
proof -
  let ?st = "quiet\<lparr>writes := [TxSome 9, TxSome 90] @ []\<rparr>"
  have l: "length (reply_text True sample_answer) \<le> 4093" "length (reply_text True sample_answer) + 3 \<le> tx_total [TxSome 9, TxSome 90]"
    using sample_answer_ok(2) by simp_all
  have st: "peer_stays ?st" "writes ?st = [TxSome 9, TxSome 90] @ []" "list_all tx_fine [TxSome 9, TxSome 90]" "sent_to 7 ?st = []"
    by (simp_all add: quiet_def peer_stays_def tx_fine_def sent_to_def)
  from write_sock_reply [OF sample_answer_ok(1) l(1) _ st(1-3) l(2), of 7 "[]"] show ?thesis unfolding st(4) by auto
qed

text \<open>
  C40: An answer to a client that has left goes to the SOAP server. When the client has closed its
  connection, \<open>write_sock_func\<close> closes the thread's connection to the server, opens a new one, and writes
  the whole frame to the server, where the next request of the thread will follow it; the client gets
  nothing.
\<close>

theorem write_sock_client_left:
  assumes "c_content m" and "length (reply_text ok m) \<le> 4093"
    and "0 < fd" and "peeks st = PeekEof # ps" and "list_all (\<lambda>p. p = PeekData \<or> p = PeekAgain) ps"
    and "socks st = g # gs" and "0 < g" and "g \<noteq> fd" and "opts st = replicate 5 True @ os" and "conns st = True # cs"
    and "writes st = ws @ rest" and "list_all tx_fine ws" and "length (reply_text ok m) + 3 \<le> tx_total ws"
  shows "\<exists>st'. write_sock_func fd ok (Some (m @ 0 # r)) st = Inr st' \<and>
    sent_to g st' = sent_to g st @ reply_frame ok m \<and> sent_to fd st' = sent_to fd st \<and> td_sock_id st' = g \<and>
    closed st' = closed st @ (if td_sock_id st > 0 then [td_sock_id st] else [])"
proof -
  let ?st = "reconnected g gs os cs (st\<lparr>peeks := PeekData # ps\<rparr>)"
  have st: "peer_stays ?st" "writes ?st = ws @ rest" "td_sock_id ?st = g" "sent_to h ?st = sent_to h st"
      "closed ?st = closed st @ (if td_sock_id st > 0 then [td_sock_id st] else [])" for h
    using assms(5,11) by (simp_all add: reconnected_def peer_stays_def sent_to_def)
  have "reply_frame ok m \<noteq> []" by (simp add: reply_frame_def Let_def)
  note gone = writen_loop_peer_gone [OF assms(3,4) this assms(6,7,9,10)]
  from writen_loop_sends [OF assms(7) st(1,2) assms(12), of "reply_frame ok m"] assms(13) obtain st' where
    "writen_loop g (reply_frame ok m) ?st = (0, g, st')" "all_sent g (reply_frame ok m) rest ?st st'"
    by (auto simp: reply_frame_length)
  then show ?thesis using assms(8) st(3-5)
    by (intro exI [of _ st']) (simp add: write_sock_frame [OF assms(1,2)] writen_fd_def gone all_sent_def)
qed

theorem write_sock_client_left_witness:
  "\<exists>st'. write_sock_func 7 True (Some (sample_answer @ 0 # []))
      (quiet\<lparr>td_sock_id := 5, peeks := [PeekEof], socks := [6], opts := replicate 5 True @ [], conns := [True], writes := [TxSome 99] @ []\<rparr>) =
      Inr st' \<and> sent_to 6 st' = reply_frame True sample_answer \<and> sent_to 7 st' = []"
proof -
  let ?st = "quiet\<lparr>td_sock_id := 5, peeks := [PeekEof], socks := [6], opts := replicate 5 True @ [], conns := [True],
    writes := [TxSome 99] @ []\<rparr>"
  have l: "length (reply_text True sample_answer) \<le> 4093" "length (reply_text True sample_answer) + 3 \<le> tx_total [TxSome 99]"
    using sample_answer_ok(2) by simp_all
  have st: "peeks ?st = PeekEof # []" "socks ?st = 6 # []" "opts ?st = replicate 5 True @ []" "conns ?st = True # []"
    "writes ?st = [TxSome 99] @ []" "list_all tx_fine [TxSome 99]" "sent_to g ?st = []" for g
    by (simp_all add: quiet_def tx_fine_def sent_to_def)
  from write_sock_client_left [OF sample_answer_ok(1) l(1) _ st(1) _ st(2) _ _ st(3-6) l(2), of 7 "[]"] show ?thesis
    unfolding st(7) by auto
qed

text \<open>
  A frame that consists of its length field alone stops the process with a fault. When a client
  sends the two bytes of the length (not both 0) and closes, the reading job is given 2 bytes, the
  checksum of no bytes is right, and \<open>reverse_crc_data\<close> copies a text of \<open>(size_t) -1\<close> bytes.
\<close>

theorem read_sock_header_only:
  assumes "b0 \<noteq> 0 \<or> b1 \<noteq> 0"
  shows "\<exists>e. read_sock_func px fd [RxData [b0, b1]] st = Inl e"
proof -
  from header_only_frame [OF assms] obtain z where z: "read_normal_sock [RxData [b0, b1]] = Inr (2, Some (b0 # b1 # z), [])" ..
  from analysis_of_header obtain e where "analysis_message (px_commands px) (Some (b0 # b1 # z)) 2 = Inl e" by blast
  with z show ?thesis by (simp add: read_sock_func_def read_loop_func.simps [of px fd "[RxData [b0, b1]]"])
qed

theorem read_sock_header_only_witness:
  "\<exists>e. read_sock_func sample_proxy 7 [RxData [0, 9]] quiet = Inl e"
  by (rule read_sock_header_only) simp

text \<open>
  C3: A command is executed and answered. The thread is connected to the SOAP server, the command has
  at most 496 bytes and the credentials at most 2700, and the kernel accepts what is written in any pieces.
  Then the server gets exactly the HTTP request of the command; and when it answers \<open>200 OK\<close> with a well-formed
  envelope of less than 1024 bytes, in one piece, the client gets exactly the frame that reports
  success and carries the text of the \<open>result\<close> element.
\<close>

theorem command_answered:
  assumes "0 < td_sock_id st" and "peer_stays st" and "writes st = ws @ rest" and "list_all tx_fine ws"
    and "length (request_text a command) \<le> tx_total ws"
    and "c_content command" and "length command \<le> 496" and "n \<noteq> 0" and "a \<noteq> []" and "length a \<le> 2700"
    and "0 < k" and "selects st = k # ks" and "reads st = RdSome c # rs" and "c_content c" and "length c < 1024"
    and "first_sub septation c (length c) = Some j" and "first_sub (bytes_of ''200 OK'') (take j c) j \<noteq> None"
    and "soap_text c (length c) j = Some (render t)" and "length (render t) \<le> length c" and "tree_ok t"
    and "t = Tree m0 None (Tree m1 None (Tree m2 None (Tree m3 (Some txt) [] # ts2) # ts1) # ts0)"
    and "take (length ''result'') m3 = bytes_of ''result''"
    and "0 < fd" and "fd \<noteq> td_sock_id st" and "length (reply_text True txt) \<le> 4093"
    and "list_all tx_fine rest" and "length (reply_text True txt) + 3 \<le> tx_total rest"
  shows "\<exists>st'. write_pipe_or_sock (Some a) fd 1 (command @ 0 # r) n st = Inr st' \<and>
    sent_to (td_sock_id st) st' = sent_to (td_sock_id st) st @ request_text a command \<and>
    sent_to fd st' = sent_to fd st @ reply_frame True txt \<and> closed st' = closed st"
proof -
  have ne: "c \<noteq> []" using assms(16) by (auto simp: first_sub_def)
  have ct: "c_content txt" using soap_text_content [OF assms(14,18)] unfolding assms(21) by simp
  have lt: "length txt \<le> 4095" using assms(15,19) unfolding assms(21) by simp
  have "0 < length c" "length c \<le> MAX_BUF_SIZE" "length txt \<le> 4096" using ne assms(15) lt by (simp_all add: MAX_BUF_SIZE_def)
  from response_result [OF assms(14) this(1,2) _ _ assms(16-22) this(3), of "replicate 4096 0" "replicate (4095 - length c) 0"]
  have rsp: "analysis_soap_response (Some (c @ 0 # replicate (4095 - length c) 0)) (length c) (replicate 4096 0) 4096 =
    Inr (True, txt @ replicate (4096 - length txt) 0, length txt)" by simp
  have cpy: "memcpy (c @ replicate (4096 - length c) 0) 0 (txt @ replicate (4096 - length txt) 0) (length txt) =
    Inr (txt @ drop (length txt) (c @ replicate (4096 - length c) 0))"
    using lt assms(15) by (simp add: memcpy_def)
  obtain x y where xy: "drop (length txt) (c @ replicate (4096 - length c) 0) = x # y"
    using lt assms(15) by (cases "drop (length txt) (c @ replicate (4096 - length c) (0 :: byte))") auto
  have end0: "wr (txt @ x # y) (length txt) 0 = Inr (txt @ 0 # y)" by (simp add: wr_def)
  note go = exchange [OF assms(1-15), of fd 1 r]
  obtain st1 where st1: "write_pipe_or_sock (Some a) fd 1 (command @ 0 # r) n st = write_sock_func fd True (Some (txt @ 0 # y)) st1"
    "all_sent (td_sock_id st) (request_text a command) rest st (st1\<lparr>selects := k # ks, reads := RdSome c # rs\<rparr>)"
    using go ne unfolding rsp bindR_simps prod.case cpy xy end0 by auto
  then obtain ws' where w: "writes st1 = (ws' @ rest) @ []" "list_all tx_fine ws'" by (auto simp: all_sent_def)
  have f: "list_all tx_fine (ws' @ rest)" using w(2) assms(26) by simp
  have total: "tx_total rest \<le> tx_total (us @ rest)" for us by (induction us rule: tx_total.induct) simp_all
  have tot: "length (reply_text True txt) + 3 \<le> tx_total (ws' @ rest)" using assms(27) total [of ws'] by simp
  have "peer_stays st1" using st1(2) by (simp add: all_sent_def peer_stays_def)
  from write_sock_sends [OF ct assms(25,23) this w(1) f tot, of y] obtain st' where
    "write_sock_func fd True (Some (txt @ 0 # y)) st1 = Inr st'" "all_sent fd (reply_frame True txt) [] st1 st'" by blast
  with st1 assms(24) show ?thesis by (intro exI [of _ st']) (auto simp: all_sent_def sent_to_def)
qed

definition connected :: "byte list \<Rightarrow> upstream" where
  "connected c = quiet\<lparr>td_sock_id := 5, writes := [TxSome 2, TxFail EINTR, TxSome 5000, TxSome 9, TxSome 90], selects := [1],
     reads := [RdSome c]\<rparr>"

lemma connected_ok:
  "0 < td_sock_id (connected c)" "peer_stays (connected c)"
  "writes (connected c) = [TxSome 2, TxFail EINTR, TxSome 5000] @ [TxSome 9, TxSome 90]"
  "list_all tx_fine [TxSome 2, TxFail EINTR, TxSome 5000]" "list_all tx_fine [TxSome 9, TxSome 90]"
  "selects (connected c) = 1 # []" "reads (connected c) = RdSome c # []"
  "length (request_text [65] [66]) \<le> tx_total [TxSome 2, TxFail EINTR, TxSome 5000]" "sent_to g (connected c) = []"
  using request_text_length(2) [of "[66]" "[65]"]
  by (simp_all add: connected_def quiet_def peer_stays_def tx_fine_def sent_to_def BUF4_eq)

theorem command_answered_witness:
  "\<exists>st'. write_pipe_or_sock (Some [65]) 7 1 ([66] @ 0 # []) 1 (connected ok_response) = Inr st' \<and>
    sent_to 5 st' = request_text [65] [66] \<and> sent_to 7 st' = reply_frame True (bytes_of ''1 up'')"
proof -
  have five: "td_sock_id (connected ok_response) = 5" by (simp add: connected_def)
  have "\<exists>st'. write_pipe_or_sock (Some [65]) 7 1 ([66] @ 0 # []) 1 (connected ok_response) = Inr st' \<and>
    sent_to (td_sock_id (connected ok_response)) st' =
      sent_to (td_sock_id (connected ok_response)) (connected ok_response) @ request_text [65] [66] \<and>
    sent_to 7 st' = sent_to 7 (connected ok_response) @ reply_frame True (bytes_of ''1 up'') \<and>
    closed st' = closed (connected ok_response)"
  proof (rule command_answered [OF connected_ok(1-4,8) _ _ _ _ _ _ connected_ok(6,7)])
    show "c_content ok_response" unfolding c_content_def by code_simp
    show "length ok_response < 1024" by code_simp
    show "first_sub septation ok_response (length ok_response) = Some 15" by code_simp
    show "first_sub (bytes_of ''200 OK'') (take 15 ok_response) 15 \<noteq> None" by code_simp
    show "soap_text ok_response (length ok_response) 15 = Some (render ok_envelope)" by code_simp
    show "length (render ok_envelope) \<le> length ok_response" by code_simp
    show "tree_ok ok_envelope" by code_simp
    show "ok_envelope = Tree (bytes_of ''E x=1'') None (Tree (bytes_of ''B'') None
       (Tree (bytes_of ''R'') None (Tree (bytes_of ''result'') (Some (bytes_of ''1 up'')) [] # []) # []) # [])"
      by (simp add: ok_envelope_def)
    show "length (reply_text True (bytes_of ''1 up'')) \<le> 4093" by code_simp
    show "length (reply_text True (bytes_of ''1 up'')) + 3 \<le> tx_total [TxSome 9, TxSome 90]" by code_simp
    show "list_all tx_fine [TxSome 9, TxSome 90]" by (rule connected_ok(5))
    show "7 \<noteq> td_sock_id (connected ok_response)" unfolding five by simp
  qed (simp_all add: c_content_def)
  then show ?thesis unfolding five connected_ok(9) by auto
qed

text \<open>
  An answer that is not an HTTP response with a body overflows the stack. When the bytes that the
  server sends contain no blank line, \<open>analysis_soap_response\<close> leaves the length at the size of the
  buffer, and the terminator is written behind the end of \<open>szBuf\<close>.
\<close>

theorem response_without_body_overflows:
  assumes "0 < td_sock_id st" and "peer_stays st" and "writes st = ws @ rest" and "list_all tx_fine ws"
    and "length (request_text a command) \<le> tx_total ws"
    and "c_content command" and "length command \<le> 496" and "n \<noteq> 0" and "a \<noteq> []" and "length a \<le> 2700"
    and "0 < k" and "selects st = k # ks" and "reads st = RdSome c # rs" and "c_content c" and "length c < 1024"
    and "c \<noteq> []" and "first_sub septation c (length c) = None"
  shows "write_pipe_or_sock (Some a) fd 1 (command @ 0 # r) n st = Inl OobWrite"
proof -
  have len: "0 < length c" "length c \<le> MAX_BUF_SIZE" using assms(15,16) by (simp_all add: MAX_BUF_SIZE_def)
  have "partition_response (Some (c @ 0 # z)) (length c) (replicate MAX_BUF_SIZE 0) (replicate (MAX_BUF_SIZE * 3) 0) =
    Inr (False, replicate MAX_BUF_SIZE 0, replicate (MAX_BUF_SIZE * 3) 0)" for z
    using partition_response_spec [OF assms(14) len, of z] assms(17) by simp
  then have rsp: "analysis_soap_response (Some (c @ 0 # z)) (length c) (replicate 4096 0) 4096 =
    Inr (False, replicate 4096 0, 4096)" for z
    by (simp add: analysis_soap_response_def memcpy_def Let_def)
  have cpy: "memcpy (c @ replicate (4096 - length c) 0) 0 (replicate 4096 0) 4096 = Inr (replicate 4096 0)"
    using assms(15) by (simp add: memcpy_def)
  have end0: "wr (replicate 4096 (0 :: byte)) 4096 0 = Inl OobWrite" by (simp add: wr_def)
  from exchange [OF assms(1-15), of fd 1 r] assms(16) show ?thesis
    unfolding rsp bindR_simps prod.case cpy end0 by auto
qed

theorem response_without_body_overflows_witness:
  "write_pipe_or_sock (Some [65]) 7 1 ([66] @ 0 # []) 1 (connected [72, 84]) = Inl OobWrite"
proof (rule response_without_body_overflows [OF connected_ok(1-4,8) _ _ _ _ _ _ connected_ok(6,7)])
  show "first_sub septation [72, 84] (length [72, 84 :: byte]) = None" by code_simp
qed (simp_all add: c_content_def)

text \<open>
  The statements of a client are executed on one connection. When SQLite opens the database and is done with
  every statement, then, whatever the number of statements, all of them but the empty ones are run on the same
  connection, which is opened by the first, has no statement left after each, and is closed at the end of the job.
\<close>

theorem statements_share_connection:
  assumes "sql_open (px_sql px) (db_path (px_cwd px))"
    and "list_all (\<lambda>(resp, c). 0 \<le> resp \<and> c_content c \<and> sql_prepare (px_sql px) c \<and> sql_done (px_sql px) c) cs"
  shows "run_commands px fd n (map (\<lambda>(resp, c). (resp, Some (c @ [0]), False)) cs) None st =
      Inr (if list_all (\<lambda>(resp, c). c = []) cs then None else Some \<lparr>c_open = True, c_stmts = 0\<rparr>, st) \<and>
    close_db (Some \<lparr>c_open = True, c_stmts = 0\<rparr>) = Inr (Some \<lparr>c_open = False, c_stmts = 0\<rparr>)"
  using run_statements [OF assms, of None] by (simp_all add: close_db_def sqlite3_close_def)

theorem statements_share_connection_witness:
  "run_commands sample_proxy 7 9
     (map (\<lambda>(resp, c). (resp, Some (c @ [0]), False)) [(0, [65]), (1, []), (1, [66, 67])]) None quiet =
   Inr (Some \<lparr>c_open = True, c_stmts = 0\<rparr>, quiet)"
  using statements_share_connection [of sample_proxy
      "[(0, [65]), (1, []), (1, [66, 67])]" 7 9 quiet]
  by (simp add: c_content_def sample_proxy_def)

text \<open>
  A statement that SQLite refuses leaves the job with a closed connection: \<open>write_db\<close> closes it with
  \<open>close_db\<close>, which sets only its own copy of the pointer to null, and so the next statement of the client, as
  well as the end of the job, uses the connection after it has been freed.
\<close>

theorem refused_statement_dangles:
  assumes "sql_open q (db_path cwd)" and "c_content c" and "c \<noteq> []" and "\<not> sql_prepare q c" and "c_content d" and "d \<noteq> []"
  shows "\<exists>conn. write_db q cwd (Some (c @ 0 # r)) None = Inr (Some conn) \<and>
    write_db q cwd (Some (d @ 0 # s)) (Some conn) = Inl UseAfterFree \<and> close_db (Some conn) = Inl UseAfterFree"
  using assms by (simp add: write_db_def run_statement_def close_db_def sqlite3_close_def strlen_content)

theorem refused_statement_dangles_witness:
  "\<exists>conn. write_db \<lparr>sql_open = (\<lambda>p. True), sql_prepare = (\<lambda>s. False), sql_done = (\<lambda>s. False)\<rparr> [] (Some ([65] @ 0 # [])) None =
     Inr (Some conn) \<and> close_db (Some conn) = Inl UseAfterFree"
  using refused_statement_dangles [of "\<lparr>sql_open = (\<lambda>p. True), sql_prepare = (\<lambda>s. False), sql_done = (\<lambda>s. False)\<rparr>" "[]" "[65]" "[65]" "[]" "[]"]
  by (auto simp: c_content_def)

text \<open>
  The size of an answer. A message whose JSON text is longer than 4096 bytes is silently not sent. A text
  of 4094 to 4096 bytes passes the test of the size, but does not fit behind the length field of the
  buffer with its checksum, and is written over its end.
\<close>

theorem write_sock_too_long:
  assumes "c_content m" and "4094 \<le> length (reply_text ok m)"
  shows "write_sock_func fd ok (Some (m @ 0 # r)) st =
    (if length (reply_text ok m) \<le> 4096 then Inl OobWrite else Inr st)"
proof (cases "length (reply_text ok m) \<le> 4096")
  case True
  let ?j = "reply_text ok m"
  have "crc_data (Some (?j @ [0])) (int (length ?j)) (replicate 4094 0) = Inl OobWrite"
    using True assms(2) crc8_eq [of "length ?j" "?j @ [0]"] by (auto simp: crc_data_def strncpy_def memcpy_def)
  with True show ?thesis unfolding write_sock_steps [OF assms(1)] Let_def by simp
next
  case False
  then show ?thesis unfolding write_sock_steps [OF assms(1)] Let_def by simp
qed

theorem write_sock_too_long_witness:
  "write_sock_func 7 True (Some (replicate 4059 65 @ 0 # [])) quiet = Inl OobWrite"
proof -
  have c: "c_content (replicate 4059 (65 :: byte))" by (simp add: c_content_def)
  have "string_bytes (replicate n 65) = [34] @ replicate n 65 @ [34]" for n
    by (simp add: string_bytes_def escape_char_def)
  then have l: "length (reply_text True (replicate 4059 65)) = 4094" by (simp add: reply_text_def)
  show ?thesis using write_sock_too_long [OF c, of True 7 "[]" quiet] by (simp add: l)
qed

text \<open>
  A damaged frame has no effect. When a whole frame arrives, in any pieces of which the first has the
  length field, and the checksum over its body is wrong, the job reads the frame and ends:
  no command is executed, nothing is sent to the client or to the server, and the database is not opened.
\<close>

theorem damaged_frame_ignored:
  assumes "k < 10" and "ds = b0 # b1 # bs" and "HEADSIZE < frame_size ds"
    and "frame_size ds \<le> length (rx_stream (RxData ds # s))"
    and "crc8_of (take (frame_size ds - HEADSIZE) (drop HEADSIZE (rx_stream (RxData ds # s)))) \<noteq> 0"
  shows "\<exists>s'. read_sock_func px fd (replicate k (RxFail EINTR) @ RxData ds # s) st = Inr (s', st) \<and>
    rx_stream s' = drop (frame_size ds) (rx_stream (RxData ds # s))"
proof -
  let ?S = "rx_stream (RxData ds # s)" and ?n = "frame_size ds"
  from readn_enough [OF assms(4)] obtain s' where
    s': "readn (RxData ds # s) ?n = (int ?n, take ?n ?S, s')" "rx_stream s' = drop ?n ?S" by blast
  have full: "?n - length (take ?n ?S) = 0" using assms(4) by simp
  have rd: "read_normal_sock (replicate k (RxFail EINTR) @ RxData ds # s) = Inr (int ?n, Some (take ?n ?S), s')"
    unfolding read_normal_sock_data [OF assms(1-3)] s'(1) Let_def prod.case full by simp
  have "unat (ds ! 0) < 256" "unat (ds ! 1) < 256" using unsigned_less [where 'b = 8 and 'a = nat] by simp_all
  then have n: "?n < 2 ^ 31" "0 < ?n - HEADSIZE" using assms(3) by (simp_all add: frame_size_def HEADSIZE_def)
  let ?v = "drop HEADSIZE (take ?n ?S)"
  have v: "?n - HEADSIZE \<le> length ?v" "take (?n - HEADSIZE) ?v = take (?n - HEADSIZE) (drop HEADSIZE ?S)"
    using assms(4) by (simp_all add: drop_take)
  have len: "int ?n - int HEADSIZE = int (?n - HEADSIZE)" "\<not> int (?n - HEADSIZE) < 0" "?n \<noteq> 0"
    using n(2) by (simp_all add: of_nat_diff)
  have "analysis_message (px_commands px) (Some (take ?n ?S)) ?n = Inr (Rejected [])"
    using reverse_crc_data_longer [OF v(1) n(2)] n(1) assms(5)
    unfolding v(2) analysis_message_def option.case Let_def len(1) if_not_P [OF len(2)] if_not_P [OF len(3)] nat_int by simp
  with rd s'(2) show ?thesis
    by (intro exI [of _ s']) (simp add: read_sock_func_def read_loop_func.simps close_db_def)
qed

theorem damaged_frame_ignored_witness:
  "\<exists>s'. read_sock_func sample_proxy 7
      (replicate 1 (RxFail EINTR) @ RxData [0, 2, 7] # [RxData [8, 9]]) quiet = Inr (s', quiet) \<and> rx_stream s' = [9]"
proof -
  have "crc8_of [7, 8] \<noteq> 0" by code_simp
  then show ?thesis
    using damaged_frame_ignored [of 1 "[0, 2, 7]" 0 2 "[7]" "[RxData [8, 9]]"
      sample_proxy 7 quiet]
    by (simp add: frame_size_def HEADSIZE_def)
qed

end
