(* ===== verification/ProxyLoop.thy ===== *)
theory ProxyLoop
  imports Requests
begin

text \<open>
  The main thread (\<^verbatim>\<open>proxy_server/proxy_server.c\<close>, with the connections of \<^verbatim>\<open>common/utility.c\<close>): the start, the loop
  over the events of the listening socket and of the clients, and the jobs that it gives to the
  worker threads, as far as they touch the connections that are shared between the threads.

  Connections are objects of a heap; a pointer is an address. What \<open>epoll_wait\<close> and \<open>accept\<close> return is part of the
  action of the environment. The pool of threads is modelled in \<open>ThreadPool\<close>; here it takes
  the jobs in their order, and what a job does with the messages is modelled in \<open>Requests\<close>.
\<close>

unbundle bit_operations_syntax

section \<open>Connections\<close>

definition EPOLLIN :: "32 word" where "EPOLLIN = 0x1"
definition EPOLLOUT :: "32 word" where "EPOLLOUT = 0x4"
definition EPOLLERR :: "32 word" where "EPOLLERR = 0x8"
definition EPOLLHUP :: "32 word" where "EPOLLHUP = 0x10"
definition EPOLLRDHUP :: "32 word" where "EPOLLRDHUP = 0x2000"
definition EPOLLET :: "32 word" where "EPOLLET = 0x80000000"

lemmas epoll_flags = EPOLLIN_def EPOLLOUT_def EPOLLERR_def EPOLLHUP_def EPOLLRDHUP_def EPOLLET_def

record sockconn =
  ep_fd :: int
  events :: "32 word"
  sock_fd :: int

record sockdata =
  sock_table :: int
  sockConn :: nat
  msg :: "byte list option"
  isOpOk :: bool

text \<open>The function and the argument of a job\<close>

datatype job =
    ReadSock sockdata
  | WriteSock sockdata
  | FreeSockConn nat

text \<open>
  An event: the pointer that was registered, the flags, and what \<open>accept\<close> answers if the event leads to
  calls of it (a descriptor, or -1, and whether the registration with \<open>epoll_ctl\<close> succeeds).
\<close>

type_synonym event = "nat \<times> 32 word \<times> (int \<times> bool) list"

text \<open>
  The state: the globals of the file, the heap of connections with the next free address, what is
  registered with epoll (descriptor, pointer and interest), the events of the current turn that are still to be
  handled, and the jobs that wait and that run.
\<close>

record server =
  g_stop :: bool
  pre_error :: int
  error_num :: int
  conn_heap :: "nat \<Rightarrow> sockconn option"
  next_addr :: nat
  epoll_set :: "(int \<times> nat \<times> 32 word) list"
  pending :: "event list"
  jobs :: "job list"
  running :: "job list"

definition deref :: "nat \<Rightarrow> server \<Rightarrow> sockconn res" where
  "deref a s = (case conn_heap s a of None \<Rightarrow> Inl UseAfterFree | Some c \<Rightarrow> Inr c)"

definition malloc_sockconn :: "int \<Rightarrow> int \<Rightarrow> 32 word \<Rightarrow> server \<Rightarrow> nat \<times> server" where
  "malloc_sockconn ep fd ev s =
     (next_addr s, s\<lparr>conn_heap := (conn_heap s)(next_addr s \<mapsto> \<lparr>ep_fd = ep, events = ev, sock_fd = fd\<rparr>),
        next_addr := Suc (next_addr s)\<rparr>)"

definition add_epoll_fd :: "nat \<Rightarrow> bool \<Rightarrow> server \<Rightarrow> server res" where
  "add_epoll_fd a ctl_ok s =
     bindR (deref a s) (\<lambda>c.
       Inr (if ctl_ok then s\<lparr>epoll_set := epoll_set s @ [(sock_fd c, a, events c)]\<rparr> else s))"

definition modify_epoll_fd :: "nat \<Rightarrow> bool \<Rightarrow> server \<Rightarrow> server res" where
  "modify_epoll_fd a ctl_ok s =
     bindR (deref a s) (\<lambda>c.
       Inr (if ctl_ok
            then s\<lparr>epoll_set := map (\<lambda>(fd, p, ev). if fd = sock_fd c then (fd, a, events c) else (fd, p, ev)) (epoll_set s)\<rparr>
            else s))"

text \<open>Closing a descriptor takes it out of the set of epoll.\<close>

definition free_sockconn :: "nat \<Rightarrow> server \<Rightarrow> server res" where
  "free_sockconn a s =
     bindR (deref a s) (\<lambda>c.
       let s = (if sock_fd c > 0 then s\<lparr>epoll_set := filter (\<lambda>(fd, _). fd \<noteq> sock_fd c) (epoll_set s)\<rparr> else s)
       in Inr (s\<lparr>conn_heap := (conn_heap s)(a := None)\<rparr>))"

definition malloc_sockData :: "nat \<Rightarrow> int \<times> int \<Rightarrow> sockdata" where
  "malloc_sockData a container = \<lparr>sock_table = fst container, sockConn = a, msg = None, isOpOk = False\<rparr>"

text \<open>\<open>free_sockData\<close> prints the descriptor of the connection before it frees the data.\<close>

definition free_sockData :: "sockdata \<Rightarrow> server \<Rightarrow> server res" where
  "free_sockData d s = bindR (deref (sockConn d) s) (\<lambda>_. Inr s)"

section \<open>Handling the events\<close>

fun handle_accept :: "int \<Rightarrow> (int \<times> bool) list \<Rightarrow> server \<Rightarrow> server res" where
  "handle_accept ep [] s = Inr s"
| "handle_accept ep ((client_fd, ctl_ok) # acc) s =
     (if client_fd = -1 then Inr s
      else case malloc_sockconn ep client_fd (EPOLLIN OR EPOLLET OR EPOLLRDHUP) s of (a, s) \<Rightarrow>
           bindR (add_epoll_fd a ctl_ok s) (handle_accept ep acc))"

definition threadpool_add :: "job \<Rightarrow> server \<Rightarrow> server" where
  "threadpool_add j s = s\<lparr>jobs := jobs s @ [j]\<rparr>"

definition handle_disconnect :: "nat \<Rightarrow> server \<Rightarrow> server" where
  "handle_disconnect a s = threadpool_add (FreeSockConn a) s"

definition handle_read :: "nat \<Rightarrow> int \<times> int \<Rightarrow> server \<Rightarrow> server" where
  "handle_read a container s = threadpool_add (ReadSock (malloc_sockData a container)) s"

definition handle_write :: "nat \<Rightarrow> server \<Rightarrow> server" where
  "handle_write a s = threadpool_add (WriteSock (malloc_sockData a (0, 0))) s"

text \<open>The body of the loop over the events\<close>

definition has :: "32 word \<Rightarrow> 32 word \<Rightarrow> bool" where
  "has ev flag \<longleftrightarrow> ev AND flag \<noteq> 0"

definition handle_event :: "int \<Rightarrow> int \<Rightarrow> event \<Rightarrow> server \<Rightarrow> server res" where
  "handle_event ep listen_fd = (\<lambda>(a, ev, acc) s.
     bindR (deref a s) (\<lambda>c.
       let s = s\<lparr>conn_heap := (conn_heap s)(a \<mapsto> c\<lparr>events := ev\<rparr>)\<rparr>
       in if has ev EPOLLERR \<or> has ev EPOLLHUP then Inr (handle_disconnect a s)
          else if has ev EPOLLIN \<and> has ev EPOLLRDHUP then Inr (handle_disconnect a s)
          else if has ev EPOLLIN then
            (if sock_fd c = listen_fd then handle_accept ep acc s else Inr (handle_read a (0, 0) s))
          else if has ev EPOLLOUT then Inr (handle_write a s)
          else Inr s))"

fun handle_events :: "int \<Rightarrow> int \<Rightarrow> event list \<Rightarrow> server \<Rightarrow> server res" where
  "handle_events ep listen_fd [] s = Inr s"
| "handle_events ep listen_fd (e # es) s = bindR (handle_event ep listen_fd e s) (handle_events ep listen_fd es)"

datatype wait = WaitError int | WaitEvents "event list"

definition EINTR_code :: int where "EINTR_code = 4"
definition ERRNUMTOEXIT :: int where "ERRNUMTOEXIT = 5"

text \<open>What \<open>loop_once\<close> does with an error of \<open>epoll_wait\<close>\<close>

definition wait_error :: "int \<Rightarrow> server \<Rightarrow> server" where
  "wait_error e s =
     (if e = EINTR_code then s
      else let n = (if pre_error s = e then error_num s + 1 else 0)
           in if n = ERRNUMTOEXIT then s\<lparr>error_num := n, g_stop := True\<rparr>
              else s\<lparr>error_num := n, pre_error := e\<rparr>)"

definition loop_once :: "int \<Rightarrow> int \<Rightarrow> wait \<Rightarrow> server \<Rightarrow> server res" where
  "loop_once ep listen_fd w s =
     (case w of
        WaitError e \<Rightarrow> Inr (wait_error e s)
      | WaitEvents es \<Rightarrow> handle_events ep listen_fd es s)"

text \<open>The loop of \<open>main\<close>, for a finite number of answers of \<open>epoll_wait\<close>\<close>

fun main_loop :: "int \<Rightarrow> int \<Rightarrow> wait list \<Rightarrow> server \<Rightarrow> server res" where
  "main_loop ep listen_fd [] s = Inr s"
| "main_loop ep listen_fd (w # ws) s =
     (if g_stop s then Inr s else bindR (loop_once ep listen_fd w s) (main_loop ep listen_fd ws))"

section \<open>The start\<close>

text \<open>The globals at the start, and the connection of the listening socket\<close>

definition globals :: server where
  "globals = \<lparr>g_stop = False, pre_error = 0, error_num = 0, conn_heap = Map.empty, next_addr = 0, epoll_set = [],
     pending = [], jobs = [], running = []\<rparr>"

definition register_listener :: "int \<Rightarrow> int \<Rightarrow> bool \<Rightarrow> server res" where
  "register_listener ep listen_fd ctl_ok =
     (case malloc_sockconn ep listen_fd (EPOLLIN OR EPOLLET) globals of (a, s) \<Rightarrow> add_epoll_fd a ctl_ok s)"

record environment =
  pool_created :: bool
  database :: sqlite
  directory :: "byte list"
  listen_sock :: int
  getfd_flags :: nat
  setfl_works :: bool
  bind_answers :: "errno option list"
  listen_works :: bool
  epoll_sock :: int
  epoll_ctl_works :: bool

text \<open>
  \<open>main\<close> up to its loop: the return value if it returns there, and otherwise the command table, the
  credentials, the listening socket and the state in which the loop starts.
\<close>

definition SERVERPORT :: int where "SERVERPORT = 18083"

definition proxy_start :: "environment \<Rightarrow> (int + Table hash_head \<times> byte list option \<times> int \<times> server) res" where
  "proxy_start env =
     (if \<not> pool_created env then Inr (Inl (-1))
      else bindR (init_commands_table (database env) (directory env) None) (\<lambda>(r, command_table).
      if r \<noteq> 0 then Inr (Inl (-1))
      else bindR (init_request_auth (database env) (directory env) None) (\<lambda>(r, auth_base64).
      if r \<noteq> 0 then Inr (Inl (-1))
      else let listen_fd = create_server SERVERPORT (listen_sock env) (getfd_flags env) (setfl_works env)
                 (bind_answers env) (listen_works env)
           in if listen_fd \<le> 0 then Inr (Inl (-1))
              else if epoll_sock env < 0 then Inr (Inl (-3))
              else bindR (register_listener (epoll_sock env) listen_fd (epoll_ctl_works env)) (\<lambda>s.
                   Inr (Inr (command_table, auth_base64, listen_fd, s))))))"

text \<open>
  The end of \<open>main\<close>: the listening socket is closed, and the connection that was allocated for it, at the address \<open>a\<close>, is
  freed. What follows, the freeing of the tables and the destruction of the pool, is in \<open>AidSql\<close> and \<open>ThreadPool\<close>.
\<close>

definition main_end :: "int \<Rightarrow> nat \<Rightarrow> server \<Rightarrow> server res" where
  "main_end listen_fd a s =
     (let s = s\<lparr>epoll_set := filter (\<lambda>(fd, _). fd \<noteq> listen_fd) (epoll_set s)\<rparr>
      in bindR (deref a s) (\<lambda>_. Inr (s\<lparr>conn_heap := (conn_heap s)(a := None)\<rparr>)))"

section \<open>The threads together\<close>

text \<open>
  One step: the main thread is given events or an error, or handles its next event; one of \<open>n\<close> workers
  takes the next job; the job at a place uses its connection, as it does at its begin, for each
  answer, and when it closes; a job ends, with the last of these uses, or by freeing the connection; or the signal
  that stops the loop arrives.
  \<open>None\<close> is a step that is not possible.
\<close>

datatype action = Wait wait | Handle | Take | Use nat | Finish nat | Interrupt

definition handleInterrupt :: "server \<Rightarrow> server" where
  "handleInterrupt s = s\<lparr>g_stop := True\<rparr>"

definition use_job :: "job \<Rightarrow> server \<Rightarrow> server res" where
  "use_job j s =
     (case j of
        ReadSock d \<Rightarrow> bindR (deref (sockConn d) s) (\<lambda>_. Inr s)
      | WriteSock d \<Rightarrow> bindR (reply_object (isOpOk d) (msg d)) (\<lambda>_. bindR (deref (sockConn d) s) (\<lambda>_. Inr s))
      | FreeSockConn a \<Rightarrow> bindR (deref a s) (\<lambda>_. Inr s))"

definition finish_job :: "job \<Rightarrow> server \<Rightarrow> server res" where
  "finish_job j s =
     (case j of
        ReadSock d \<Rightarrow> free_sockData d s
      | WriteSock d \<Rightarrow> use_job j s
      | FreeSockConn a \<Rightarrow> free_sockconn a s)"

definition drop_nth :: "nat \<Rightarrow> 'a list \<Rightarrow> 'a list" where
  "drop_nth i xs = take i xs @ drop (Suc i) xs"

definition act :: "int \<Rightarrow> int \<Rightarrow> nat \<Rightarrow> action \<Rightarrow> server \<Rightarrow> server option res" where
  "act ep listen_fd n x s =
     (case x of
        Wait w \<Rightarrow>
          if g_stop s \<or> pending s \<noteq> [] then Inr None
          else (case w of
             WaitError e \<Rightarrow> Inr (Some (wait_error e s))
           | WaitEvents es \<Rightarrow> Inr (Some (s\<lparr>pending := es\<rparr>)))
      | Handle \<Rightarrow>
          (case pending s of
             [] \<Rightarrow> Inr None
           | e # es \<Rightarrow> bindR (handle_event ep listen_fd e (s\<lparr>pending := es\<rparr>)) (\<lambda>s. Inr (Some s)))
      | Take \<Rightarrow>
          (case jobs s of
             [] \<Rightarrow> Inr None
           | j # js \<Rightarrow> if length (running s) < n then Inr (Some (s\<lparr>jobs := js, running := running s @ [j]\<rparr>)) else Inr None)
      | Use i \<Rightarrow>
          if i < length (running s) then bindR (use_job (running s ! i) s) (\<lambda>s. Inr (Some s)) else Inr None
      | Finish i \<Rightarrow>
          if i < length (running s)
          then bindR (finish_job (running s ! i) s) (\<lambda>s'. Inr (Some (s'\<lparr>running := drop_nth i (running s)\<rparr>)))
          else Inr None
      | Interrupt \<Rightarrow> Inr (Some (handleInterrupt s)))"

fun run :: "int \<Rightarrow> int \<Rightarrow> nat \<Rightarrow> action list \<Rightarrow> server \<Rightarrow> server option res" where
  "run ep listen_fd n [] s = Inr (Some s)"
| "run ep listen_fd n (x # xs) s =
     bindR (act ep listen_fd n x s) (\<lambda>r. case r of None \<Rightarrow> Inr None | Some s \<Rightarrow> run ep listen_fd n xs s)"

section \<open>What the kernel does\<close>

text \<open>
  \<open>epoll_wait\<close> reports registered connections, each once, with flags of their interest or an error or hangup.
  It is also assumed here that a connection is not reported while the job that frees it waits or runs;
  the program does nothing to ensure this. \<open>accept\<close> gives positive descriptors.
\<close>

definition flags_ok :: "32 word \<Rightarrow> 32 word \<Rightarrow> bool" where
  "flags_ok want ev \<longleftrightarrow> ev AND NOT (want OR EPOLLERR OR EPOLLHUP) = 0"

definition accept_ok :: "(int \<times> bool) list \<Rightarrow> bool" where
  "accept_ok acc \<longleftrightarrow> list_all (\<lambda>(fd, _). fd = -1 \<or> 0 < fd) acc"

definition event_ok :: "server \<Rightarrow> event \<Rightarrow> bool" where
  "event_ok s = (\<lambda>(a, ev, acc).
     list_ex (\<lambda>(_, a', want). a' = a \<and> flags_ok want ev) (epoll_set s) \<and> accept_ok acc \<and>
     FreeSockConn a \<notin> set (running s @ jobs s))"

definition kernel_ok :: "action \<Rightarrow> server \<Rightarrow> bool" where
  "kernel_ok x s = (case x of
     Wait (WaitEvents es) \<Rightarrow> distinct (map fst es) \<and> list_all (event_ok s) es
   | _ \<Rightarrow> True)"

fun trace_ok :: "int \<Rightarrow> int \<Rightarrow> nat \<Rightarrow> action list \<Rightarrow> server \<Rightarrow> bool" where
  "trace_ok ep listen_fd n [] s = True"
| "trace_ok ep listen_fd n (x # xs) s =
     (kernel_ok x s \<and> (case act ep listen_fd n x s of Inr (Some s') \<Rightarrow> trace_ok ep listen_fd n xs s' | _ \<Rightarrow> True))"

section \<open>The invariant of one worker\<close>

fun job_conn :: "job \<Rightarrow> nat" where
  "job_conn (ReadSock d) = sockConn d"
| "job_conn (WriteSock d) = sockConn d"
| "job_conn (FreeSockConn a) = a"

text \<open>No job on a connection follows the job that frees it.\<close>

fun free_last :: "job list \<Rightarrow> bool" where
  "free_last [] = True"
| "free_last (j # js) = ((case j of FreeSockConn a \<Rightarrow> a \<notin> job_conn ` set js | _ \<Rightarrow> True) \<and> free_last js)"

definition want_ok :: "32 word \<Rightarrow> bool" where
  "want_ok want \<longleftrightarrow> want AND EPOLLOUT = 0"

definition job_ok :: "server \<Rightarrow> job \<Rightarrow> bool" where
  "job_ok s j \<longleftrightarrow> conn_heap s (job_conn j) \<noteq> None \<and> (case j of WriteSock d \<Rightarrow> False | _ \<Rightarrow> True)"

definition work :: "server \<Rightarrow> job list" where
  "work s = running s @ jobs s"

definition pending_ok :: "server \<Rightarrow> event \<Rightarrow> bool" where
  "pending_ok s = (\<lambda>(a, ev, acc). conn_heap s a \<noteq> None \<and> FreeSockConn a \<notin> set (work s) \<and> \<not> has ev EPOLLOUT \<and> accept_ok acc)"

definition registered_ok :: "server \<Rightarrow> int \<times> nat \<times> 32 word \<Rightarrow> bool" where
  "registered_ok s = (\<lambda>(fd, a, want). 0 < fd \<and> want_ok want \<and> (\<exists>c. conn_heap s a = Some c \<and> sock_fd c = fd))"

definition server_inv :: "server \<Rightarrow> bool" where
  "server_inv s \<longleftrightarrow> list_all (job_ok s) (work s) \<and> free_last (work s) \<and> list_all (pending_ok s) (pending s) \<and>
     distinct (map fst (pending s)) \<and> list_all (registered_ok s) (epoll_set s) \<and>
     (\<forall>a\<ge>next_addr s. conn_heap s a = None) \<and> length (running s) \<le> 1"

lemma free_last_append:
  "free_last (js @ [j]) \<longleftrightarrow> free_last js \<and> FreeSockConn (job_conn j) \<notin> set js"
  by (induction js) (auto split: job.splits)

lemma no_out: "flags_ok want ev \<Longrightarrow> want_ok want \<Longrightarrow> \<not> has ev EPOLLOUT"
proof -
  assume f: "flags_ok want ev" and m: "want_ok want"
  have "ev AND EPOLLOUT = (ev AND NOT (want OR EPOLLERR OR EPOLLHUP)) AND EPOLLOUT OR ev AND (want AND EPOLLOUT) OR
      ev AND ((EPOLLERR OR EPOLLHUP) AND EPOLLOUT)"
    by (rule bit_eqI) (auto simp: bit_simps)
  also have "(EPOLLERR OR EPOLLHUP) AND EPOLLOUT = 0" by (simp add: epoll_flags)
  finally show "\<not> has ev EPOLLOUT" using f m by (simp add: has_def flags_ok_def want_ok_def)
qed

lemma work_simps [simp]:
  "work (s\<lparr>conn_heap := h\<rparr>) = work s" "work (s\<lparr>next_addr := n\<rparr>) = work s" "work (s\<lparr>epoll_set := es\<rparr>) = work s"
  "work (s\<lparr>pending := ps\<rparr>) = work s" "work (s\<lparr>jobs := js\<rparr>) = running s @ js" "work (s\<lparr>running := js\<rparr>) = js @ jobs s"
  by (simp_all add: work_def)

text \<open>A job that does not come behind the freeing of its connection keeps the invariant.\<close>

lemma add_job_inv:
  assumes "server_inv s" and "job_ok s j" and "FreeSockConn (job_conn j) \<notin> set (work s)"
    and "job_conn j \<notin> fst ` set (pending s)"
  shows "server_inv (threadpool_add j s)"
proof -
  have w: "work (threadpool_add j s) = work s @ [j]" by (simp add: threadpool_add_def work_def)
  have ok: "job_ok (threadpool_add j s) = job_ok s" "registered_ok (threadpool_add j s) = registered_ok s"
    by (auto simp: fun_eq_iff job_ok_def registered_ok_def threadpool_add_def)
  have "pending_ok (threadpool_add j s) e" if e: "e \<in> set (pending s)" for e
  proof -
    obtain a ev acc where abc: "e = (a, ev, acc)" by (cases e)
    have "a \<in> fst ` set (pending s)" using imageI [OF e, of fst] unfolding abc by simp
    then have "FreeSockConn a \<noteq> j" using assms(4) by (metis job_conn.simps(3))
    moreover have "pending_ok s e" using assms(1) e by (simp add: server_inv_def list_all_iff)
    ultimately show ?thesis by (simp add: abc pending_ok_def w) (simp add: threadpool_add_def)
  qed
  then have "list_all (pending_ok (threadpool_add j s)) (pending s)" by (simp add: list_all_iff)
  then show ?thesis using assms(1-3)
    unfolding server_inv_def w ok by (auto simp: free_last_append threadpool_add_def)
qed

text \<open>The heap may grow, and a connection may get new flags.\<close>

lemma event_flags_inv:
  assumes "server_inv s" and "conn_heap s a = Some c"
  shows "server_inv (s\<lparr>conn_heap := (conn_heap s)(a \<mapsto> c\<lparr>events := ev\<rparr>)\<rparr>)"
proof -
  let ?s = "s\<lparr>conn_heap := (conn_heap s)(a \<mapsto> c\<lparr>events := ev\<rparr>)\<rparr>"
  have "job_ok s j \<Longrightarrow> job_ok ?s j" "pending_ok s e \<Longrightarrow> pending_ok ?s e" "registered_ok s r \<Longrightarrow> registered_ok ?s r" for j e r
    using assms(2) by (auto simp: job_ok_def pending_ok_def registered_ok_def)
  moreover have "a < next_addr s" using assms by (auto simp: server_inv_def not_le [symmetric])
  ultimately show ?thesis using assms(1) by (auto simp: server_inv_def list_all_iff)
qed

lemma accept_one_inv:
  assumes "server_inv s" and "0 < fd"
  shows "\<exists>s'. add_epoll_fd (next_addr s) ctl (snd (malloc_sockconn ep fd (EPOLLIN OR EPOLLET OR EPOLLRDHUP) s)) = Inr s' \<and>
    server_inv s' \<and> work s' = work s \<and> pending s' = pending s"
proof -
  let ?c = "\<lparr>ep_fd = ep, events = EPOLLIN OR EPOLLET OR EPOLLRDHUP, sock_fd = fd\<rparr>"
  let ?s = "s\<lparr>conn_heap := (conn_heap s)(next_addr s \<mapsto> ?c), next_addr := Suc (next_addr s)\<rparr>"
  have "conn_heap s (next_addr s) = None" using assms(1) by (simp add: server_inv_def)
  then have "job_ok s j \<Longrightarrow> job_ok ?s j" "pending_ok s e \<Longrightarrow> pending_ok ?s e" "registered_ok s r \<Longrightarrow> registered_ok ?s r" for j e r
    by (auto simp: job_ok_def pending_ok_def registered_ok_def)
  then have inv: "server_inv ?s" using assms(1) by (auto simp: server_inv_def list_all_iff)
  have "want_ok (EPOLLIN OR EPOLLET OR EPOLLRDHUP)" by (simp add: want_ok_def epoll_flags)
  then have "registered_ok ?s (fd, next_addr s, EPOLLIN OR EPOLLET OR EPOLLRDHUP)"
    using assms(2) by (simp add: registered_ok_def)
  moreover have "job_ok (?s\<lparr>epoll_set := es\<rparr>) = job_ok ?s" "pending_ok (?s\<lparr>epoll_set := es\<rparr>) = pending_ok ?s"
      "registered_ok (?s\<lparr>epoll_set := es\<rparr>) = registered_ok ?s" for es
    by (auto simp: fun_eq_iff job_ok_def pending_ok_def registered_ok_def)
  ultimately have "server_inv (?s\<lparr>epoll_set := epoll_set s @ [(fd, next_addr s, EPOLLIN OR EPOLLET OR EPOLLRDHUP)]\<rparr>)"
    using inv by (simp add: server_inv_def)
  with inv show ?thesis by (simp add: malloc_sockconn_def add_epoll_fd_def deref_def)
qed

lemma handle_accept_inv:
  "server_inv s \<Longrightarrow> accept_ok acc \<Longrightarrow> \<exists>s'. handle_accept ep acc s = Inr s' \<and> server_inv s'"
proof (induction ep acc s rule: handle_accept.induct)
  case (2 ep client_fd ctl acc s)
  show ?case
  proof (cases "client_fd = -1")
    case False
    then have pos: "0 < client_fd" using "2.prems"(2) by (simp add: accept_ok_def)
    obtain a s1 where m: "malloc_sockconn ep client_fd (EPOLLIN OR EPOLLET OR EPOLLRDHUP) s = (a, s1)" by fastforce
    then have "a = next_addr s" by (auto simp: malloc_sockconn_def)
    with accept_one_inv [OF "2.prems"(1) pos, of ctl ep] m obtain s2 where "add_epoll_fd a ctl s1 = Inr s2" "server_inv s2" by auto
    with "2.IH" [OF False m [symmetric], of s2] "2.prems"(2) m False show ?thesis by (simp add: accept_ok_def)
  qed (use "2.prems" in simp)
qed simp

lemma handle_event_inv:
  assumes "server_inv s" and "pending_ok s e" and "fst e \<notin> fst ` set (pending s)"
  shows "\<exists>s'. handle_event ep listen_fd e s = Inr s' \<and> server_inv s'"
proof -
  obtain a ev acc where e: "e = (a, ev, acc)" by (cases e)
  obtain c where c: "conn_heap s a = Some c" using assms(2) e by (auto simp: pending_ok_def)
  let ?s = "s\<lparr>conn_heap := (conn_heap s)(a \<mapsto> c\<lparr>events := ev\<rparr>)\<rparr>"
  have inv: "server_inv ?s" by (rule event_flags_inv [OF assms(1) c])
  have free: "FreeSockConn a \<notin> set (work ?s)" "\<not> has ev EPOLLOUT" "accept_ok acc" using assms(2) e by (simp_all add: pending_ok_def)
  have a: "a \<notin> fst ` set (pending ?s)" using assms(3) e by simp
  have "server_inv (handle_disconnect a ?s)"
    unfolding handle_disconnect_def by (rule add_job_inv) (use inv free a in \<open>simp_all add: job_ok_def\<close>)
  moreover have "server_inv (handle_read a cont ?s)" for cont
    unfolding handle_read_def by (rule add_job_inv) (use inv free a in \<open>simp_all add: job_ok_def malloc_sockData_def\<close>)
  moreover from handle_accept_inv [OF inv free(3)] obtain s' where "handle_accept ep acc ?s = Inr s'" "server_inv s'" by blast
  ultimately show ?thesis using c inv free(2) unfolding e handle_event_def
    by (simp add: deref_def Let_def)
qed

lemma drop_one: "length xs \<le> 1 \<Longrightarrow> i < length xs \<Longrightarrow> xs = [xs ! i] \<and> drop_nth i xs = []"
  by (cases xs) (auto simp: drop_nth_def)

text \<open>The job that runs ends: what it frees is used by no other job and by no event.\<close>

lemma finish_inv:
  assumes "server_inv s" and "running s = [j]"
  shows "\<exists>s'. finish_job j s = Inr s' \<and> server_inv (s'\<lparr>running := []\<rparr>)"
proof -
  have w: "work s = j # jobs s" using assms(2) by (simp add: work_def)
  have j: "job_ok s j" "free_last (j # jobs s)" using assms(1) unfolding server_inv_def w by simp_all
  show ?thesis
  proof (cases j)
    case (ReadSock d)
    have "server_inv (s\<lparr>running := []\<rparr>)"
      using assms(1) w by (auto simp: server_inv_def work_def list_all_iff job_ok_def pending_ok_def registered_ok_def split: job.splits)
    moreover obtain c where "conn_heap s (sockConn d) = Some c" using j(1) ReadSock by (auto simp: job_ok_def)
    ultimately show ?thesis using ReadSock by (simp add: finish_job_def free_sockData_def deref_def)
  next
    case (WriteSock d)
    then show ?thesis using j(1) by (simp add: job_ok_def)
  next
    case (FreeSockConn a)
    then obtain c where c: "conn_heap s a = Some c" using j(1) by (auto simp: job_ok_def)
    let ?s = "(if sock_fd c > 0 then s\<lparr>epoll_set := filter (\<lambda>(fd, _). fd \<noteq> sock_fd c) (epoll_set s)\<rparr> else s)
      \<lparr>conn_heap := (conn_heap s)(a := None), running := []\<rparr>"
    have ws: "work ?s = jobs s" "pending ?s = pending s" "next_addr ?s = next_addr s" by (simp_all add: work_def)
    have "job_ok ?s x" if "x \<in> set (jobs s)" for x
    proof -
      have "a \<noteq> job_conn x" using j(2) FreeSockConn that by auto
      moreover have "job_ok s x" using assms(1) w that by (simp add: server_inv_def list_all_iff)
      ultimately show ?thesis by (auto simp: job_ok_def)
    qed
    moreover have "pending_ok ?s e" if "e \<in> set (pending s)" for e
    proof -
      have p: "pending_ok s e" using assms(1) that by (simp add: server_inv_def list_all_iff)
      then have "fst e \<noteq> a" using FreeSockConn w by (auto simp: pending_ok_def)
      with p w show ?thesis by (auto simp: pending_ok_def ws)
    qed
    moreover have "registered_ok ?s r" if "r \<in> set (epoll_set ?s)" for r
    proof -
      have r: "r \<in> set (epoll_set s)" "0 < sock_fd c \<Longrightarrow> fst r \<noteq> sock_fd c" using that by (auto split: if_splits)
      then have "registered_ok s r" using assms(1) by (simp add: server_inv_def list_all_iff)
      with r c show ?thesis by (auto simp: registered_ok_def)
    qed
    moreover have "free_last (jobs s)" using j(2) by simp
    ultimately have "server_inv ?s" using assms(1) unfolding server_inv_def list_all_iff ws by auto
    then show ?thesis using FreeSockConn c
      by (auto simp: finish_job_def free_sockconn_def deref_def Let_def)
  qed
qed

lemma wait_error_inv: "server_inv s \<Longrightarrow> server_inv (wait_error e s)"
proof -
  assume inv: "server_inv s"
  have "job_ok (wait_error e s) = job_ok s" "pending_ok (wait_error e s) = pending_ok s"
    "registered_ok (wait_error e s) = registered_ok s" "work (wait_error e s) = work s" "pending (wait_error e s) = pending s"
    "epoll_set (wait_error e s) = epoll_set s" "next_addr (wait_error e s) = next_addr s" "conn_heap (wait_error e s) = conn_heap s"
    "running (wait_error e s) = running s"
    by (auto simp: fun_eq_iff job_ok_def pending_ok_def registered_ok_def work_def wait_error_def Let_def)
  with inv show ?thesis by (simp add: server_inv_def)
qed

lemma events_inv:
  assumes "server_inv s" and "distinct (map fst es)" and "list_all (event_ok s) es"
  shows "server_inv (s\<lparr>pending := es\<rparr>)"
proof -
  have "pending_ok (s\<lparr>pending := es\<rparr>) e" if e: "e \<in> set es" for e
  proof -
    obtain a ev acc where abc: "e = (a, ev, acc)" by (cases e)
    have ok: "event_ok s (a, ev, acc)" using assms(3) e abc by (simp add: list_all_iff)
    then obtain fd want where r: "(fd, a, want) \<in> set (epoll_set s)" "flags_ok want ev"
      by (auto simp: event_ok_def list_ex_iff)
    then have "registered_ok s (fd, a, want)" using assms(1) by (simp add: server_inv_def list_all_iff)
    with r(2) ok show ?thesis using no_out by (auto simp: abc pending_ok_def event_ok_def registered_ok_def work_def)
  qed
  moreover have "job_ok (s\<lparr>pending := es\<rparr>) = job_ok s" "registered_ok (s\<lparr>pending := es\<rparr>) = registered_ok s"
    by (auto simp: fun_eq_iff job_ok_def registered_ok_def)
  ultimately show ?thesis using assms(1,2) by (simp add: server_inv_def list_all_iff)
qed

lemma take_inv:
  assumes "server_inv s" and "jobs s = j # js" and "running s = []"
  shows "server_inv (s\<lparr>jobs := js, running := [j]\<rparr>)"
proof -
  let ?s = "s\<lparr>jobs := js, running := [j]\<rparr>"
  have "work ?s = work s" using assms(2,3) by (simp add: work_def)
  moreover have "job_ok ?s = job_ok s" "registered_ok ?s = registered_ok s"
    by (auto simp: fun_eq_iff job_ok_def registered_ok_def)
  moreover from this have "pending_ok ?s = pending_ok s" using assms(2,3) by (auto simp: fun_eq_iff pending_ok_def work_def)
  ultimately show ?thesis using assms(1) by (simp add: server_inv_def)
qed

lemma act_inv:
  assumes "server_inv s" and "kernel_ok x s"
  shows "\<exists>r. act ep listen_fd 1 x s = Inr r \<and> (case r of None \<Rightarrow> True | Some s' \<Rightarrow> server_inv s')"
proof (cases x)
  case (Wait w)
  then show ?thesis using assms wait_error_inv events_inv
    by (cases w) (auto simp: act_def kernel_ok_def)
next
  case Handle
  show ?thesis
  proof (cases "pending s")
    case (Cons e es)
    let ?s = "s\<lparr>pending := es\<rparr>"
    have "job_ok ?s = job_ok s" "registered_ok ?s = registered_ok s" "pending_ok ?s = pending_ok s"
      by (auto simp: fun_eq_iff job_ok_def registered_ok_def pending_ok_def)
    then have "server_inv ?s" "pending_ok ?s e" "fst e \<notin> fst ` set (pending ?s)"
      using assms(1) Cons by (simp_all add: server_inv_def)
    from handle_event_inv [OF this, of ep listen_fd] obtain s' where
      "handle_event ep listen_fd e ?s = Inr s'" "server_inv s'" by blast
    with Cons Handle show ?thesis by (simp add: act_def)
  qed (simp add: act_def Handle)
next
  case Take
  then show ?thesis using assms(1) take_inv by (cases "jobs s") (auto simp: act_def)
next
  case (Use i)
  show ?thesis
  proof (cases "i < length (running s)")
    case True
    have "job_ok s (running s ! i)" using assms(1) True by (simp add: server_inv_def work_def list_all_iff)
    then obtain s' where "use_job (running s ! i) s = Inr s'" "s' = s"
      by (cases "running s ! i") (auto simp: use_job_def job_ok_def deref_def)
    with True Use assms(1) show ?thesis by (simp add: act_def)
  qed (simp add: act_def Use)
next
  case (Finish i)
  show ?thesis
  proof (cases "i < length (running s)")
    case True
    have one: "running s = [running s ! i]" "drop_nth i (running s) = []"
      using drop_one [OF _ True] assms(1) by (simp_all add: server_inv_def)
    from finish_inv [OF assms(1) one(1)] True Finish one(2) show ?thesis by (auto simp: act_def)
  qed (simp add: act_def Finish)
next
  case Interrupt
  have "job_ok (handleInterrupt s) = job_ok s" "registered_ok (handleInterrupt s) = registered_ok s"
    "pending_ok (handleInterrupt s) = pending_ok s"
    by (auto simp: fun_eq_iff job_ok_def registered_ok_def pending_ok_def handleInterrupt_def work_def)
  then have "server_inv (handleInterrupt s)" using assms(1) by (simp add: server_inv_def) (simp add: handleInterrupt_def work_def)
  then show ?thesis by (simp add: act_def Interrupt)
qed

lemma run_safe:
  "server_inv s \<Longrightarrow> trace_ok ep listen_fd 1 xs s \<Longrightarrow> \<exists>r. run ep listen_fd 1 xs s = Inr r"
proof (induction xs arbitrary: s)
  case (Cons x xs)
  from act_inv [OF Cons.prems(1), of x ep listen_fd] Cons.prems(2) obtain r where
    "act ep listen_fd 1 x s = Inr r" "case r of None \<Rightarrow> True | Some s' \<Rightarrow> server_inv s'" by auto
  with Cons show ?case by (cases r) auto
qed simp

lemma listener_inv:
  assumes "0 < listen_fd"
  shows "\<exists>s. register_listener ep listen_fd ctl = Inr s \<and> server_inv s"
  using assms
  by (auto simp: register_listener_def malloc_sockconn_def add_epoll_fd_def deref_def globals_def server_inv_def work_def
      registered_ok_def want_ok_def epoll_flags)

section \<open>The connection of the listening socket\<close>

text \<open>It has the address 0. A turn in which the kernel reports only incoming clients for it leaves it alone.\<close>

definition quiet_event :: "event \<Rightarrow> bool" where
  "quiet_event = (\<lambda>(a, ev, _). a = 0 \<longrightarrow> has ev EPOLLIN \<and> \<not> has ev EPOLLERR \<and> \<not> has ev EPOLLHUP \<and> \<not> has ev EPOLLRDHUP)"

definition quiet_action :: "action \<Rightarrow> bool" where
  "quiet_action x = (case x of Wait (WaitEvents es) \<Rightarrow> list_all quiet_event es | _ \<Rightarrow> True)"

definition listener_kept :: "int \<Rightarrow> server \<Rightarrow> bool" where
  "listener_kept listen_fd s \<longleftrightarrow> (\<exists>c. conn_heap s 0 = Some c \<and> sock_fd c = listen_fd) \<and>
     FreeSockConn 0 \<notin> set (work s) \<and> list_all quiet_event (pending s) \<and> 0 < next_addr s"

lemma accept_keeps_listener:
  "handle_accept ep acc s = Inr s' \<Longrightarrow> listener_kept listen_fd s \<Longrightarrow> listener_kept listen_fd s'"
proof (induction ep acc s rule: handle_accept.induct)
  case (2 ep client_fd ctl acc s)
  show ?case
  proof (cases "client_fd = -1")
    case False
    let ?s = "snd (malloc_sockconn ep client_fd (EPOLLIN OR EPOLLET OR EPOLLRDHUP) s)"
    from 2(2) False obtain s1 where s1: "add_epoll_fd (next_addr s) ctl ?s = Inr s1" "handle_accept ep acc s1 = Inr s'"
      by (auto simp: malloc_sockconn_def bindR_eq_Inr_iff)
    then have "listener_kept listen_fd s1"
      using 2(3) by (auto simp: listener_kept_def malloc_sockconn_def add_epoll_fd_def deref_def split: if_splits)
    with 2(1) [OF False _ s1(1) s1(2)] show ?thesis by (simp add: malloc_sockconn_def)
  qed (use 2 in simp)
qed simp

lemma event_keeps_listener:
  assumes "handle_event ep listen_fd e s = Inr s'" and "quiet_event e" and "listener_kept listen_fd s"
  shows "listener_kept listen_fd s'"
proof -
  obtain a ev acc where e: "e = (a, ev, acc)" by (cases e)
  from assms(1) obtain c where c: "conn_heap s a = Some c"
    by (auto simp: e handle_event_def bindR_eq_Inr_iff deref_def split: option.splits)
  let ?s = "s\<lparr>conn_heap := (conn_heap s)(a \<mapsto> c\<lparr>events := ev\<rparr>)\<rparr>"
  have kept: "listener_kept listen_fd ?s" using assms(3) c by (auto simp: listener_kept_def)
  have job: "listener_kept listen_fd (threadpool_add j ?s)" if "j \<noteq> FreeSockConn 0" for j
    using kept that by (auto simp: listener_kept_def threadpool_add_def work_def)
  show ?thesis
  proof (cases "a = 0")
    case True
    with assms c have "handle_accept ep acc ?s = Inr s'"
      by (auto simp: e handle_event_def deref_def quiet_event_def Let_def listener_kept_def)
    from accept_keeps_listener [OF this kept] show ?thesis .
  next
    case False
    with assms(1) c kept job show ?thesis
      by (auto simp: e handle_event_def deref_def Let_def handle_disconnect_def handle_read_def handle_write_def
          split: if_splits dest: accept_keeps_listener [rotated])
  qed
qed

lemma act_keeps_listener:
  assumes "act ep listen_fd n x s = Inr (Some s')" and "quiet_action x" and "listener_kept listen_fd s"
  shows "listener_kept listen_fd s'"
proof (cases x)
  case (Wait w)
  with assms show ?thesis
    by (cases w) (auto simp: act_def quiet_action_def listener_kept_def wait_error_def Let_def work_def split: if_splits)
next
  case Handle
  with assms(1) obtain e es where p: "pending s = e # es" "handle_event ep listen_fd e (s\<lparr>pending := es\<rparr>) = Inr s'"
    by (auto simp: act_def bindR_eq_Inr_iff split: list.splits)
  have "quiet_event e" "listener_kept listen_fd (s\<lparr>pending := es\<rparr>)" using assms(3) p(1) by (auto simp: listener_kept_def)
  from event_keeps_listener [OF p(2) this] show ?thesis .
next
  case Take
  with assms(1,3) show ?thesis
    by (auto simp: act_def listener_kept_def work_def split: list.splits if_splits)
next
  case (Use i)
  with assms(1,3) show ?thesis
    by (auto simp: act_def use_job_def bindR_eq_Inr_iff split: if_splits job.splits)
next
  case (Finish i)
  with assms(1) obtain s1 where s1: "i < length (running s)" "finish_job (running s ! i) s = Inr s1"
    "s' = s1\<lparr>running := drop_nth i (running s)\<rparr>"
    by (auto simp: act_def bindR_eq_Inr_iff split: if_splits)
  have "FreeSockConn 0 \<noteq> running s ! i" using assms(3) s1(1) nth_mem by (fastforce simp: listener_kept_def work_def)
  then have "conn_heap s1 0 = conn_heap s 0 \<and> jobs s1 = jobs s \<and> pending s1 = pending s \<and> next_addr s1 = next_addr s"
    using s1(2) by (cases "running s ! i")
      (auto simp: finish_job_def free_sockData_def use_job_def free_sockconn_def bindR_eq_Inr_iff Let_def)
  moreover have "set (drop_nth i (running s)) \<subseteq> set (running s)"
    by (auto simp: drop_nth_def dest: in_set_takeD in_set_dropD)
  ultimately show ?thesis using assms(3) s1(3) by (auto simp: listener_kept_def work_def)
next
  case Interrupt
  with assms show ?thesis by (auto simp: act_def handleInterrupt_def listener_kept_def work_def)
qed

lemma run_keeps_listener:
  "run ep listen_fd n xs s = Inr (Some s') \<Longrightarrow> list_all quiet_action xs \<Longrightarrow> listener_kept listen_fd s \<Longrightarrow> listener_kept listen_fd s'"
proof (induction xs arbitrary: s)
  case (Cons x xs)
  then obtain s1 where "act ep listen_fd n x s = Inr (Some s1)" "run ep listen_fd n xs s1 = Inr (Some s')"
    by (auto simp: bindR_eq_Inr_iff split: option.splits)
  with Cons act_keeps_listener show ?case by auto
qed simp

text \<open>
  As long as no error and no hangup of the listening socket is reported, the connection that \<open>main\<close> frees at its end is
  still allocated; otherwise a job has freed it before.
\<close>

lemma main_end_frees:
  assumes "proxy_start env = Inr (Inr (command_table, auth, listen_fd, s))"
    and "run (epoll_sock env) listen_fd n xs s = Inr (Some s')" and "list_all quiet_action xs"
  shows "\<exists>s''. main_end listen_fd 0 s' = Inr s''"
proof -
  have "register_listener (epoll_sock env) listen_fd (epoll_ctl_works env) = Inr s"
    using assms(1) by (auto simp: proxy_start_def bindR_eq_Inr_iff Let_def split: if_splits)
  then have "listener_kept listen_fd s"
    by (auto simp: register_listener_def malloc_sockconn_def add_epoll_fd_def deref_def globals_def listener_kept_def work_def
        split: if_splits)
  from run_keeps_listener [OF assms(2,3) this] show ?thesis
    by (auto simp: listener_kept_def main_end_def deref_def)
qed

section \<open>Errors of the wait\<close>

definition quiet_wait :: "int \<Rightarrow> wait \<Rightarrow> bool" where
  "quiet_wait e w \<longleftrightarrow> w = WaitError e \<or> w = WaitError EINTR_code \<or> w = WaitEvents []"

lemma main_loop_errors:
  assumes "list_all (quiet_wait e) ws" and "e \<noteq> EINTR_code" and "pre_error s = e" and "error_num s = int k" and "k < 5" and "\<not> g_stop s"
  shows "\<exists>s'. main_loop ep listen_fd ws s = Inr s' \<and> (g_stop s' \<longleftrightarrow> 5 \<le> k + length (filter ((=) (WaitError e)) ws))"
  using assms(1,3-6)
proof (induction ws arbitrary: s k)
  case (Cons w ws)
  then consider "w = WaitError e" | "w = WaitError EINTR_code" "w \<noteq> WaitError e" | "w = WaitEvents []"
    using assms(2) by (auto simp: quiet_wait_def)
  then show ?case
  proof cases
    case 1
    show ?thesis
    proof (cases "k = 4")
      case True
      have stop: "g_stop (wait_error e s)" using Cons.prems True assms(2) by (simp add: wait_error_def ERRNUMTOEXIT_def Let_def)
      then have "main_loop ep listen_fd ws (wait_error e s) = Inr (wait_error e s)" by (cases ws) simp_all
      with 1 True stop Cons.prems(5) show ?thesis by (simp add: loop_once_def)
    next
      case False
      have "wait_error e s = s\<lparr>error_num := int (Suc k), pre_error := e\<rparr>"
        using Cons.prems False assms(2) by (simp add: wait_error_def ERRNUMTOEXIT_def Let_def)
      with Cons.IH [of "s\<lparr>error_num := int (Suc k), pre_error := e\<rparr>" "Suc k"] 1 Cons.prems False show ?thesis
        by (simp add: loop_once_def)
    qed
  next
    case 2
    with Cons.IH [of s k] Cons.prems show ?thesis by (auto simp: loop_once_def wait_error_def)
  next
    case 3
    with Cons.IH [of s k] Cons.prems show ?thesis by (simp add: loop_once_def)
  qed
qed simp

section \<open>What a turn does\<close>

definition event_jobs :: "event \<Rightarrow> job list" where
  "event_jobs = (\<lambda>(a, ev, _).
     if has ev EPOLLERR \<or> has ev EPOLLHUP \<or> (has ev EPOLLIN \<and> has ev EPOLLRDHUP) then [FreeSockConn a]
     else if has ev EPOLLIN then [ReadSock (malloc_sockData a (0, 0))]
     else if has ev EPOLLOUT then [WriteSock (malloc_sockData a (0, 0))]
     else [])"

lemma handle_event_client:
  assumes "conn_heap s a = Some c" and "sock_fd c \<noteq> listen_fd"
  shows "handle_event ep listen_fd (a, ev, acc) s =
    Inr (s\<lparr>conn_heap := (conn_heap s)(a \<mapsto> c\<lparr>events := ev\<rparr>), jobs := jobs s @ event_jobs (a, ev, acc)\<rparr>)"
  using assms
  by (auto simp: handle_event_def deref_def Let_def event_jobs_def handle_disconnect_def handle_read_def handle_write_def
      threadpool_add_def)

lemma handle_events_dispatch:
  assumes "list_all (\<lambda>(a, _). \<exists>c. conn_heap s a = Some c \<and> sock_fd c \<noteq> listen_fd) es"
  shows "\<exists>s'. handle_events ep listen_fd es s = Inr s' \<and> jobs s' = jobs s @ concat (map event_jobs es) \<and>
    epoll_set s' = epoll_set s \<and> dom (conn_heap s') = dom (conn_heap s) \<and> running s' = running s \<and> g_stop s' = g_stop s"
  using assms
proof (induction es arbitrary: s)
  case (Cons e es)
  obtain a ev acc where e: "e = (a, ev, acc)" by (cases e)
  with Cons.prems obtain c where c: "conn_heap s a = Some c" "sock_fd c \<noteq> listen_fd" by auto
  let ?s = "s\<lparr>conn_heap := (conn_heap s)(a \<mapsto> c\<lparr>events := ev\<rparr>), jobs := jobs s @ event_jobs e\<rparr>"
  have "list_all (\<lambda>(a, _). \<exists>c. conn_heap ?s a = Some c \<and> sock_fd c \<noteq> listen_fd) es"
    using Cons.prems c(2) by (auto simp: list_all_iff)
  from Cons.IH [OF this] obtain s' where
    "handle_events ep listen_fd es ?s = Inr s' \<and> jobs s' = jobs ?s @ concat (map event_jobs es) \<and>
     epoll_set s' = epoll_set ?s \<and> dom (conn_heap s') = dom (conn_heap ?s) \<and> running s' = running ?s \<and> g_stop s' = g_stop ?s"
    by blast
  then show ?case using handle_event_client [OF c, of ep ev acc] c(1)
    by (intro exI [of _ s']) (auto simp: e)
qed simp

lemma handle_accept_all:
  "-1 \<notin> set fds \<Longrightarrow>
     handle_accept ep (map (\<lambda>fd. (fd, True)) fds) s =
       Inr (s\<lparr>conn_heap := (\<lambda>a. if next_addr s \<le> a \<and> a < next_addr s + length fds
           then Some \<lparr>ep_fd = ep, events = EPOLLIN OR EPOLLET OR EPOLLRDHUP, sock_fd = fds ! (a - next_addr s)\<rparr> else conn_heap s a),
         next_addr := next_addr s + length fds,
         epoll_set := epoll_set s @ map (\<lambda>(fd, a). (fd, a, EPOLLIN OR EPOLLET OR EPOLLRDHUP))
           (zip fds [next_addr s..<next_addr s + length fds])\<rparr>)"
proof (induction fds arbitrary: s)
  case (Cons fd fds)
  have "[next_addr s..<next_addr s + length (fd # fds)] = next_addr s # [Suc (next_addr s)..<Suc (next_addr s) + length fds]"
    using upt_conv_Cons [of "next_addr s" "next_addr s + Suc (length fds)"] by (simp del: upt_Suc)
  then show ?case using Cons
    by (auto simp: malloc_sockconn_def add_epoll_fd_def deref_def fun_eq_iff nth_Cons' le_less_Suc_eq)
next
  case Nil
  have "(\<lambda>a. if next_addr s \<le> a \<and> a < next_addr s then x a else conn_heap s a) = conn_heap s" for x
    by (auto simp: fun_eq_iff)
  then show ?case by simp
qed

section \<open>Properties\<close>


definition sample_env :: environment where
  "sample_env = \<lparr>pool_created = True, database = \<lparr>sqlite3_open = (\<lambda>p. 0), sqlite3_exec = (\<lambda>q. ([], 0))\<rparr>, directory = [],
     listen_sock = 3, getfd_flags = 1, setfl_works = True, bind_answers = [None], listen_works = True, epoll_sock = 4,
     epoll_ctl_works = True\<rparr>"

definition sample_server :: server where
  "sample_server = globals\<lparr>conn_heap := [0 \<mapsto> \<lparr>ep_fd = 4, events = EPOLLIN OR EPOLLET, sock_fd = 3\<rparr>], next_addr := 1,
     epoll_set := [(3, 0, EPOLLIN OR EPOLLET)]\<rparr>"

lemma sample_start: "proxy_start sample_env = Inr (Inr (None, None, 3, sample_server))"
proof -
  have "init_commands_table (database sample_env) [] None = Inr (0, None)"
    "init_request_auth (database sample_env) [] None = Inr (0, None)"
    by (simp_all add: init_commands_table_def init_request_auth_def sample_env_def)
  then show ?thesis
    by (simp add: proxy_start_def sample_env_def create_server_def create_listen_sock_def set_non_blocking_def
        eval_nat_numeral pop_def Let_def register_listener_def malloc_sockconn_def add_epoll_fd_def deref_def
        SERVERPORT_def sample_server_def globals_def)
qed

lemma listener_freed_twice:
  "case run 4 3 1 [Wait (WaitEvents [(0, EPOLLERR, [])]), Handle, Take, Finish 0] sample_server of
     Inr (Some s) \<Rightarrow> (case main_end 3 0 s of Inl e \<Rightarrow> e = UseAfterFree | Inr _ \<Rightarrow> False)
   | _ \<Rightarrow> False"
  by code_simp

text \<open>A client connects, sends something, and leaves.\<close>

definition client_visit :: "action list" where
  "client_visit = [Wait (WaitEvents [(0, EPOLLIN, [(7, True)])]), Handle,
     Wait (WaitEvents [(1, EPOLLIN, [])]), Handle, Take, Use 0, Finish 0,
     Wait (WaitEvents [(1, EPOLLIN OR EPOLLRDHUP, [])]), Handle, Take, Use 0, Finish 0]"



text \<open>
  C20: A turn dispatches the events. For events of any number of clients, in one turn the pool gets, in the order of the
  events, exactly the jobs that their flags ask for: the freeing of the connection for an error, a
  hangup, or data together with the end of the stream; else a reading or a writing job; or nothing. Nothing is
  registered or removed and no connection is created or freed.
\<close>

theorem loop_once_dispatches:
  assumes "list_all (\<lambda>(a, _). \<exists>c. conn_heap s a = Some c \<and> sock_fd c \<noteq> listen_fd) es"
  shows "\<exists>s'. loop_once ep listen_fd (WaitEvents es) s = Inr s' \<and> jobs s' = jobs s @ concat (map event_jobs es) \<and>
    epoll_set s' = epoll_set s \<and> dom (conn_heap s') = dom (conn_heap s) \<and> running s' = running s \<and> g_stop s' = g_stop s"
  using handle_events_dispatch [OF assms] by (simp add: loop_once_def)

theorem loop_once_dispatches_witness:
  "\<exists>s'. loop_once 4 3 (WaitEvents [(1, EPOLLIN, []), (1, EPOLLHUP, [])])
      (sample_server\<lparr>conn_heap := [1 \<mapsto> \<lparr>ep_fd = 4, events = 0, sock_fd = 7\<rparr>]\<rparr>) = Inr s' \<and>
    jobs s' = [ReadSock (malloc_sockData 1 (0, 0)), FreeSockConn 1]"
  using loop_once_dispatches [of "sample_server\<lparr>conn_heap := [1 \<mapsto> \<lparr>ep_fd = 4, events = 0, sock_fd = 7\<rparr>]\<rparr>" 3
      "[(1, EPOLLIN, []), (1, EPOLLHUP, [])]" 4]
  by (auto simp: event_jobs_def has_def epoll_flags sample_server_def globals_def)

text \<open>
  A notification of the listening socket takes all clients that wait. Each of them gets a connection of its own, in fresh
  memory, with its descriptor, and is registered, in the order of the calls of \<open>accept\<close>, for data and for the
  end of the stream, and not for the possibility to write; no job is created and nothing else changes.
\<close>

theorem clients_registered:
  assumes "conn_heap s a = Some c" and "sock_fd c = listen_fd" and "-1 \<notin> set fds"
    and "\<not> has ev EPOLLERR" and "\<not> has ev EPOLLHUP" and "\<not> has ev EPOLLRDHUP" and "has ev EPOLLIN" and "a < next_addr s"
  shows "\<exists>s'. loop_once ep listen_fd (WaitEvents [(a, ev, map (\<lambda>fd. (fd, True)) fds)]) s = Inr s' \<and>
    epoll_set s' = epoll_set s @ map (\<lambda>(fd, b). (fd, b, EPOLLIN OR EPOLLET OR EPOLLRDHUP)) (zip fds [next_addr s..<next_addr s']) \<and>
    next_addr s' = next_addr s + length fds \<and>
    map (\<lambda>b. map_option sock_fd (conn_heap s' b)) [next_addr s..<next_addr s'] = map Some fds \<and>
    (\<forall>b. b < next_addr s \<and> b \<noteq> a \<longrightarrow> conn_heap s' b = conn_heap s b) \<and> jobs s' = jobs s"
  using assms
  by (simp add: loop_once_def handle_event_def deref_def Let_def handle_accept_all) (auto intro: nth_equalityI)

theorem clients_registered_witness:
  "\<exists>s'. loop_once 4 3 (WaitEvents [(0, EPOLLIN, map (\<lambda>fd. (fd, True)) [7, 8])]) sample_server = Inr s' \<and>
    length (epoll_set s') = 3 \<and> jobs s' = []"
proof -
  let ?c = "\<lparr>ep_fd = 4, events = EPOLLIN OR EPOLLET, sock_fd = 3\<rparr>"
  have "conn_heap sample_server 0 = Some ?c" "sock_fd ?c = 3" "-1 \<notin> set [7, 8 :: int]" "\<not> has EPOLLIN EPOLLERR"
    "\<not> has EPOLLIN EPOLLHUP" "\<not> has EPOLLIN EPOLLRDHUP" "has EPOLLIN EPOLLIN" "0 < next_addr sample_server"
    by (simp_all add: sample_server_def has_def epoll_flags)
  from clients_registered [OF this, of 4] show ?thesis
    by (auto simp: sample_server_def globals_def)
qed



end
