(* ===== verification/CJsonBuffer.thy ===== *)
theory CJsonBuffer
  imports CJsonPrint
begin

text \<open>
  The printer of \<^verbatim>\<open>common/cJSON.c\<close> with a \<open>printbuffer\<close>, as \<open>cJSON_PrintBuffered\<close> runs it: the text is written
  into one object, which is replaced by a larger one when it is full. An allocation may fail, and what
  is in a new object is not known: both are parameters.
\<close>

unbundle bit_operations_syntax

section \<open>The buffer\<close>

record allocator =
  can_malloc :: "nat \<Rightarrow> bool"
  junk :: "nat \<Rightarrow> byte"

record printbuffer =
  buffer :: "byte list option"
  pb_length :: int
  offset :: int

definition malloc_bytes :: "allocator \<Rightarrow> int \<Rightarrow> byte list option" where
  "malloc_bytes al sz =
     (let n = to_size_t sz in if can_malloc al n then Some (map (junk al) [0..<n]) else None)"

text \<open>Sums of \<open>int\<close> wrap around, as they do on the target.\<close>

definition wrap32 :: "int \<Rightarrow> int" where
  "wrap32 v = sint (word_of_int v :: 32 word)"

definition pow2gt :: "int \<Rightarrow> int" where
  "pow2gt x =
     (let x = (word_of_int x :: 32 word) - 1;
          x = x OR signed_drop_bit 1 x;
          x = x OR signed_drop_bit 2 x;
          x = x OR signed_drop_bit 4 x;
          x = x OR signed_drop_bit 8 x;
          x = x OR signed_drop_bit 16 x
      in sint (x + 1))"

text \<open>The result says whether the pointer \<open>p->buffer + p->offset\<close> is returned, or null.\<close>

definition ensure :: "allocator \<Rightarrow> printbuffer \<Rightarrow> int \<Rightarrow> (bool \<times> printbuffer) res" where
  "ensure al p needed =
     (case buffer p of
        None \<Rightarrow> Inr (False, p)
      | Some b \<Rightarrow>
          let needed = wrap32 (needed + offset p)
          in if needed \<le> pb_length p then Inr (True, p)
             else let newsize = pow2gt needed
                  in case malloc_bytes al newsize of
                       None \<Rightarrow> Inr (False, p\<lparr>buffer := None, pb_length := 0\<rparr>)
                     | Some newbuffer \<Rightarrow>
                         bindR (memcpy newbuffer 0 b (to_size_t (pb_length p))) (\<lambda>newbuffer.
                           Inr (True, p\<lparr>pb_length := newsize, buffer := Some newbuffer\<rparr>)))"

definition update :: "printbuffer \<Rightarrow> int res" where
  "update p =
     (case buffer p of
        None \<Rightarrow> Inr 0
      | Some b \<Rightarrow> bindR (strlen (drop (nat (offset p)) b)) (\<lambda>n. Inr (offset p + int n)))"

text \<open>
  \<open>p->offset = update(p)\<close>; the writing of bytes at the offset; and the pattern of the sources: a call of
  \<open>ensure\<close>, which ends the function when it fails, the writing, and the advance of the offset.
\<close>

definition advance :: "printbuffer \<Rightarrow> printbuffer res" where
  "advance p = bindR (update p) (\<lambda>n. Inr (p\<lparr>offset := n\<rparr>))"

definition put :: "byte list \<Rightarrow> printbuffer \<Rightarrow> printbuffer res" where
  "put bs p =
     (case buffer p of
        None \<Rightarrow> Inl NullDeref
      | Some b \<Rightarrow> bindR (memcpy b (nat (offset p)) bs (length bs)) (\<lambda>b. Inr (p\<lparr>buffer := Some b\<rparr>)))"

definition emit :: "allocator \<Rightarrow> nat \<Rightarrow> byte list \<Rightarrow> nat \<Rightarrow> printbuffer \<Rightarrow> (bool \<times> printbuffer) res" where
  "emit al needed bs len p =
     bindR (ensure al p (int needed)) (\<lambda>(ok, p).
       if \<not> ok then Inr (False, p)
       else bindR (put bs p) (\<lambda>p. Inr (True, p\<lparr>offset := offset p + int len\<rparr>)))"

section \<open>The printer\<close>

text \<open>A value that is not composed: the pointer that is returned is that of its beginning.\<close>

definition emit_value :: "allocator \<Rightarrow> nat \<Rightarrow> byte list \<Rightarrow> printbuffer \<Rightarrow> (int option \<times> printbuffer) res" where
  "emit_value al needed bs p =
     bindR (emit al needed bs 0 p) (\<lambda>(ok, p'). Inr (if ok then Some (offset p) else None, p'))"

definition print_number_buf :: "allocator \<Rightarrow> item \<Rightarrow> printbuffer \<Rightarrow> (int option \<times> printbuffer) res" where
  "print_number_buf al i p =
     (let d = valuedouble i in
      if coef d = 0 then emit_value al 2 [48, 0] p
      else if near_int (valueint i) d \<and> in_int_range d then emit_value al 21 (print_int (valueint i) @ [0]) p
      else
        let (small, million) = abs_and_power d (-6); (big, milliard) = abs_and_power d 9;
            (huge, limit) = abs_and_power d 60
        in emit_value al 64
          ((if near_int (floor_number d) d \<and> huge < limit then print_fixed 0 d
            else if small < million \<or> milliard < big then print_exponential d
            else print_fixed 6 d) @ [0]) p)"

definition print_string_buf :: "allocator \<Rightarrow> byte list option \<Rightarrow> printbuffer \<Rightarrow> (int option \<times> printbuffer) res" where
  "print_string_buf al str p =
     (case str of
        None \<Rightarrow> Inl NullDeref
      | Some s \<Rightarrow>
          bindR (strlen s) (\<lambda>len.
            let w = take len s in
            if \<not> list_ex is_escaped w then emit_value al (len + 3) (34 # w @ [34, 0]) p
            else emit_value al (escaped_length w + 3) (34 # concat (map escape_char w) @ [34, 0]) p))"

text \<open>
  The loops over the children return whether they have not been ended by a null pointer. What a child
  returns is not looked at. In \<open>print_object\<close> the variable that holds the offset of the beginning is used
  for the tabulators before the brace as well, so that the pointer returned for formatted output is another one.
\<close>

fun print_value_buf :: "allocator \<Rightarrow> cJSON \<Rightarrow> nat \<Rightarrow> bool \<Rightarrow> printbuffer \<Rightarrow> (int option \<times> printbuffer) res"
  and elements_buf :: "allocator \<Rightarrow> cJSON list \<Rightarrow> nat \<Rightarrow> bool \<Rightarrow> printbuffer \<Rightarrow> (bool \<times> printbuffer) res"
  and members_buf :: "allocator \<Rightarrow> cJSON list \<Rightarrow> nat \<Rightarrow> bool \<Rightarrow> printbuffer \<Rightarrow> (bool \<times> printbuffer) res" where
  "print_value_buf al (Node i cs) depth fmt p =
     (let t = item_type i mod 256 in
      if t = cJSON_NULL then emit_value al 5 (lit (bytes_of ''null'')) p
      else if t = cJSON_False then emit_value al 6 (lit (bytes_of ''false'')) p
      else if t = cJSON_True then emit_value al 5 (lit (bytes_of ''true'')) p
      else if t = cJSON_Number then print_number_buf al i p
      else if t = cJSON_String then print_string_buf al (valuestring i) p
      else if t = cJSON_Array then
        (if cs = [] then emit_value al 3 [91, 93, 0] p
         else bindR (emit al 1 [91] 1 p) (\<lambda>(ok, p1).
              if \<not> ok then Inr (None, p1)
              else bindR (elements_buf al cs (depth + 1) fmt p1) (\<lambda>(ok, p2).
                   if \<not> ok then Inr (None, p2)
                   else bindR (emit al 2 [93, 0] 0 p2) (\<lambda>(ok, p3). Inr (if ok then Some (offset p) else None, p3)))))
      else if t = cJSON_Object then
        (if cs = []
         then emit_value al (if fmt then depth + 4 else 3) (123 # (if fmt then 10 # replicate (depth - 1) 9 else []) @ [125, 0]) p
         else bindR (emit al (if fmt then 3 else 2) (123 # newline fmt @ [0]) (if fmt then 2 else 1) p) (\<lambda>(ok, p1).
              if \<not> ok then Inr (None, p1)
              else bindR (members_buf al cs (depth + 1) fmt p1) (\<lambda>(ok, p2).
                   if \<not> ok then Inr (None, p2)
                   else bindR (emit al (if fmt then depth + 2 else 2) (tabs fmt depth @ [125, 0]) 0 p2) (\<lambda>(ok, p3).
                          Inr (if ok then Some (if fmt then int depth else offset p) else None, p3)))))
      else Inr (None, p))"
| "elements_buf al [] depth fmt p = Inr (True, p)"
| "elements_buf al (c # cs) depth fmt p =
     bindR (print_value_buf al c depth fmt p) (\<lambda>(_, p).
     bindR (advance p) (\<lambda>p.
       if cs = [] then Inr (True, p)
       else bindR (emit al (if fmt then 3 else 2) (44 # (if fmt then [32] else []) @ [0]) (if fmt then 2 else 1) p) (\<lambda>(ok, p).
              if \<not> ok then Inr (False, p) else elements_buf al cs depth fmt p)))"
| "members_buf al [] depth fmt p = Inr (True, p)"
| "members_buf al (c # cs) depth fmt p =
     bindR (if fmt then emit al depth (tabs fmt depth) depth p else Inr (True, p)) (\<lambda>(ok, p).
     if \<not> ok then Inr (False, p)
     else bindR (print_string_buf al (name_of c) p) (\<lambda>(_, p).
          bindR (advance p) (\<lambda>p.
          bindR (emit al (if fmt then 2 else 1) (58 # (if fmt then [9] else [])) (if fmt then 2 else 1) p) (\<lambda>(ok, p).
          if \<not> ok then Inr (False, p)
          else bindR (print_value_buf al c depth fmt p) (\<lambda>(_, p).
               bindR (advance p) (\<lambda>p.
               let len = (if fmt then 1 else 0) + (if cs = [] then 0 else 1)
               in bindR (emit al (len + 1) ((if cs = [] then [] else [44]) @ newline fmt @ [0]) len p) (\<lambda>(ok, p).
                    if \<not> ok then Inr (False, p) else members_buf al cs depth fmt p)))))))"

text \<open>The result is a null pointer, or the bytes from the pointer to the end of its object.\<close>

definition cJSON_PrintBuffered :: "allocator \<Rightarrow> cJSON \<Rightarrow> int \<Rightarrow> bool \<Rightarrow> byte list option res" where
  "cJSON_PrintBuffered al c prebuffer fmt =
     (let p = \<lparr>buffer = malloc_bytes al prebuffer, pb_length = prebuffer, offset = 0\<rparr>
      in bindR (print_value_buf al c 0 fmt p) (\<lambda>(out, p).
           case out of
             None \<Rightarrow> Inr None
           | Some out \<Rightarrow> (case buffer p of None \<Rightarrow> Inl UseAfterFree | Some b \<Rightarrow> Inr (Some (drop (nat out) b)))))"

section \<open>The buffer grows enough\<close>

lemma sint_of_int32: "- (2 ^ 31) \<le> v \<Longrightarrow> v < 2 ^ 31 \<Longrightarrow> sint (word_of_int v :: 32 word) = v"
  by (simp add: sint_sbintrunc' signed_take_bit_int_eq_self)

lemma smear:
  fixes w :: "32 word"
  assumes "0 \<le> sint w" and "sint w < 2 ^ 30"
  shows "sint w \<le> sint (w OR signed_drop_bit k w)" "sint (w OR signed_drop_bit k w) < 2 ^ 30"
proof -
  have d: "0 \<le> drop_bit k (sint w)" "drop_bit k (sint w) \<le> sint w"
    using assms(1) zdiv_mono2 [of "sint w" 1 "2 ^ k"] by (simp_all add: drop_bit_eq_div pos_imp_zdiv_nonneg_iff)
  have or: "sint (w OR signed_drop_bit k w) = sint w OR drop_bit k (sint w)"
    by (simp add: signed_or_eq sint_signed_drop_bit_eq)
  show "sint w \<le> sint (w OR signed_drop_bit k w)" unfolding or by (rule or_greater_eq) (use assms(1) d in auto)
  show "sint (w OR signed_drop_bit k w) < 2 ^ 30" unfolding or by (rule OR_upper) (use assms d in auto)
qed

lemma pow2gt_enough:
  assumes "0 < x" and "x \<le> 2 ^ 30"
  shows "x \<le> pow2gt x" "pow2gt x \<le> 2 ^ 30"
proof -
  let ?w0 = "(word_of_int x :: 32 word) - 1"
  have "(word_of_int x :: 32 word) - 1 = word_of_int (x - 1)" by simp
  then have w0: "sint ?w0 = x - 1" using assms sint_of_int32 [of "x - 1"] by simp
  define w1 where "w1 = ?w0 OR signed_drop_bit 1 ?w0"
  define w2 where "w2 = w1 OR signed_drop_bit 2 w1"
  define w3 where "w3 = w2 OR signed_drop_bit 4 w2"
  define w4 where "w4 = w3 OR signed_drop_bit 8 w3"
  define w5 where "w5 = w4 OR signed_drop_bit 16 w4"
  have 0: "0 \<le> sint ?w0" "sint ?w0 < 2 ^ 30" using w0 assms by simp_all
  have 1: "sint ?w0 \<le> sint w1" "sint w1 < 2 ^ 30" unfolding w1_def using smear [OF 0] by auto
  then have 2: "sint w1 \<le> sint w2" "sint w2 < 2 ^ 30" unfolding w2_def using smear [of w1] 0(1) by auto
  then have 3: "sint w2 \<le> sint w3" "sint w3 < 2 ^ 30" unfolding w3_def using smear [of w2] 0(1) 1(1) by auto
  then have 4: "sint w3 \<le> sint w4" "sint w4 < 2 ^ 30" unfolding w4_def using smear [of w3] 0(1) 1(1) 2(1) by auto
  then have 5: "sint w4 \<le> sint w5" "sint w5 < 2 ^ 30" unfolding w5_def using smear [of w4] 0(1) 1(1) 2(1) 3(1) by auto
  have low: "x - 1 \<le> sint w5" using w0 1(1) 2(1) 3(1) 4(1) 5(1) by linarith
  have p: "pow2gt x = sint (w5 + 1)"
    unfolding pow2gt_def Let_def w5_def w4_def w3_def w2_def w1_def ..
  have "w5 + 1 = word_of_int (sint w5 + 1)" by simp
  moreover have "- (2 ^ 31) \<le> sint w5 + 1" "sint w5 + 1 < 2 ^ 31" using 5(2) low assms(1) by simp_all
  ultimately have "pow2gt x = sint w5 + 1"
    unfolding p using sint_of_int32 [of "sint w5 + 1"] by simp
  then show "x \<le> pow2gt x" "pow2gt x \<le> 2 ^ 30" using low 5(2) by simp_all
qed

section \<open>Writing into the buffer\<close>

text \<open>
  The text \<open>t\<close> stands in the buffer up to the offset; or an allocation has failed, which it can
  only when the allocator may fail.
\<close>

definition ready :: "allocator \<Rightarrow> byte list \<Rightarrow> printbuffer \<Rightarrow> bool" where
  "ready al t p \<longleftrightarrow>
     (case buffer p of
        None \<Rightarrow> \<exists>n. \<not> can_malloc al n
      | Some b \<Rightarrow> pb_length p = int (length b) \<and> length b < 2 ^ 31 \<and> offset p = int (length t) \<and> (\<exists>r. b = t @ r))"

lemma ensure_ready:
  assumes "ready al t p" and "0 < n" and "length t + n \<le> 2 ^ 30"
  shows "\<exists>p'. ensure al p (int n) = Inr (buffer p' \<noteq> None, p') \<and> ready al t p' \<and>
    (case buffer p' of None \<Rightarrow> True | Some b \<Rightarrow> length t + n \<le> length b)"
proof (cases "buffer p")
  case None
  then show ?thesis using assms(1) by (intro exI [of _ p]) (simp add: ensure_def ready_def)
next
  case (Some b)
  then obtain r where b: "pb_length p = int (length b)" "length b < 2 ^ 31" "offset p = int (length t)" "b = t @ r"
    using assms(1) by (auto simp: ready_def)
  let ?n = "int (length t + n)"
  have n: "wrap32 (int n + offset p) = ?n" "0 < ?n" "?n \<le> 2 ^ 30"
    using sint_of_int32 [of ?n] assms(2,3) b(3) by (simp_all add: wrap32_def add.commute)
  show ?thesis
  proof (cases "?n \<le> pb_length p")
    case True
    then show ?thesis using Some n(1) b assms(1) by (intro exI [of _ p]) (simp add: ensure_def)
  next
    case False
    define m where "m = pow2gt ?n"
    have m: "?n \<le> m" "m \<le> 2 ^ 30" unfolding m_def using pow2gt_enough [OF n(2,3)] by simp_all
    then have sz: "to_size_t m = nat m" by (simp add: to_size_t_nonneg)
    have step: "ensure al p (int n) =
      (case malloc_bytes al m of
         None \<Rightarrow> Inr (False, p\<lparr>buffer := None, pb_length := 0\<rparr>)
       | Some newbuffer \<Rightarrow> bindR (memcpy newbuffer 0 b (to_size_t (pb_length p))) (\<lambda>newbuffer.
           Inr (True, p\<lparr>pb_length := m, buffer := Some newbuffer\<rparr>)))"
      using Some False n(1) unfolding m_def by (simp add: ensure_def Let_def split: option.split)
    show ?thesis
    proof (cases "can_malloc al (nat m)")
      case True
      have l: "to_size_t (pb_length p) = length b" using b(1,2) by simp
      let ?nb = "map (junk al) [0..<nat m]"
      have le: "length b \<le> nat m" "length t + n \<le> nat m" using False b(1) m(1) by linarith+
      have c: "memcpy ?nb 0 b (length b) = Inr (b @ drop (length b) ?nb)" using le by (simp add: memcpy_def)
      have "malloc_bytes al m = Some ?nb" using True by (simp add: malloc_bytes_def sz Let_def)
      then have e: "ensure al p (int n) = Inr (True, p\<lparr>pb_length := m, buffer := Some (b @ drop (length b) ?nb)\<rparr>)"
        unfolding step l by (simp add: c)
      have "int (nat m) = m" "nat m \<le> 2 ^ 30" using m n(2) by simp_all
      then show ?thesis using e b(3,4) le
        by (intro exI [of _ "p\<lparr>pb_length := m, buffer := Some (b @ drop (length b) ?nb)\<rparr>"]) (simp add: ready_def)
    next
      case False
      then show ?thesis unfolding step
        by (intro exI [of _ "p\<lparr>buffer := None, pb_length := 0\<rparr>"]) (auto simp: malloc_bytes_def sz ready_def Let_def)
    qed
  qed
qed

text \<open>What \<open>emit\<close> does: the bytes stand behind the text, and the offset behind the first \<open>len\<close> of them.\<close>

definition holds :: "byte list \<Rightarrow> nat \<Rightarrow> printbuffer \<Rightarrow> bool" where
  "holds w len p \<longleftrightarrow> (\<exists>r. buffer p = Some (w @ r) \<and> pb_length p = int (length (w @ r)) \<and> length (w @ r) < 2 ^ 31 \<and>
     offset p = int len)"

lemma holds_ready: "holds (t @ w @ z) (length t + length w) p \<Longrightarrow> ready al (t @ w) p"
  by (auto simp: holds_def ready_def)

lemma emit_ready:
  assumes "ready al t p" and "length bs \<le> n" and "0 < n" and "length t + n \<le> 2 ^ 30"
  shows "\<exists>p'. emit al n bs len p = Inr (buffer p' \<noteq> None, p') \<and>
    (if buffer p' = None then \<exists>n. \<not> can_malloc al n else holds (t @ bs) (length t + len) p' \<and> offset p = int (length t))"
proof -
  from ensure_ready [OF assms(1,3,4)] obtain p1 where
    p1: "ensure al p (int n) = Inr (buffer p1 \<noteq> None, p1)" "ready al t p1"
      "case buffer p1 of None \<Rightarrow> True | Some b \<Rightarrow> length t + n \<le> length b" by blast
  show ?thesis
  proof (cases "buffer p1")
    case None
    then show ?thesis using p1 by (intro exI [of _ p1]) (simp add: emit_def ready_def)
  next
    case (Some b)
    then obtain r where b: "pb_length p1 = int (length b)" "length b < 2 ^ 31" "offset p1 = int (length t)" "b = t @ r"
      using p1(2) by (auto simp: ready_def)
    have "length bs \<le> length r" using p1(3) Some b(4) assms(2) by simp
    then have "memcpy b (length t) bs (length bs) = Inr ((t @ bs) @ drop (length bs) r)" using b(4) by (simp add: memcpy_def)
    moreover have "buffer p \<noteq> None" "offset p = int (length t)"
      using p1(1) Some assms(1) by (auto simp: ensure_def ready_def split: option.splits)
    ultimately show ?thesis using p1(1) Some b \<open>length bs \<le> length r\<close>
      by (intro exI [of _ "p1\<lparr>buffer := Some ((t @ bs) @ drop (length bs) r), offset := int (length t + len)\<rparr>"])
        (simp add: emit_def put_def holds_def)
  qed
qed

section \<open>What the parts of the printer write\<close>

text \<open>
  A part of the printer that advances the offset (\<open>goes\<close>), and one that leaves it inside the text it has
  written and terminated (\<open>value_done\<close>). Both fail only when an allocation has failed.
\<close>

definition goes :: "allocator \<Rightarrow> byte list \<Rightarrow> (bool \<times> printbuffer) res \<Rightarrow> bool" where
  "goes al t r \<longleftrightarrow> (\<exists>ok p. r = Inr (ok, p) \<and> ready al t p \<and> (\<not> ok \<longrightarrow> buffer p = None))"

definition terminated :: "allocator \<Rightarrow> byte list \<Rightarrow> byte list \<Rightarrow> printbuffer \<Rightarrow> bool" where
  "terminated al t w p \<longleftrightarrow>
     (case buffer p of
        None \<Rightarrow> \<exists>n. \<not> can_malloc al n
      | Some b \<Rightarrow> pb_length p = int (length b) \<and> length b < 2 ^ 31 \<and> (\<exists>r. b = t @ w @ 0 # r) \<and>
          int (length t) \<le> offset p \<and> offset p \<le> int (length t + length w))"

definition value_done :: "allocator \<Rightarrow> byte list \<Rightarrow> byte list \<Rightarrow> (int option \<times> printbuffer) res \<Rightarrow> bool" where
  "value_done al t w r \<longleftrightarrow> (\<exists>out p. r = Inr (out, p) \<and> terminated al t w p \<and> (out = None \<longleftrightarrow> buffer p = None))"

lemma goes_ok: "ready al t p \<Longrightarrow> goes al t (Inr (True, p))"
  by (auto simp: goes_def)

lemma goes_bind:
  assumes "goes al u r" and "\<And>p. ready al u p \<Longrightarrow> goes al t (f p)"
  shows "goes al t (bindR r (\<lambda>(ok, p). if \<not> ok then Inr (False, p) else f p))"
proof -
  from assms(1) obtain ok p where "r = Inr (ok, p)" "ready al u p" "\<not> ok \<longrightarrow> buffer p = None" by (auto simp: goes_def)
  with assms(2) show ?thesis by (cases ok) (auto simp: goes_def ready_def)
qed

lemma done_bind:
  assumes "goes al u r" and "\<And>p. ready al u p \<Longrightarrow> value_done al t w (f p)"
  shows "value_done al t w (bindR r (\<lambda>(ok, p). if \<not> ok then Inr (None, p) else f p))"
proof -
  from assms(1) obtain ok p where "r = Inr (ok, p)" "ready al u p" "\<not> ok \<longrightarrow> buffer p = None" by (auto simp: goes_def)
  with assms(2) show ?thesis by (cases ok) (auto simp: value_done_def ready_def terminated_def)
qed

lemma goes_emit:
  assumes "ready al t p" and "length (w @ z) \<le> n" and "0 < n" and "length t + n \<le> 2 ^ 30"
  shows "goes al (t @ w) (emit al n (w @ z) (length w) p)"
proof -
  from emit_ready [OF assms, where len = "length w"] obtain p' where p':
    "emit al n (w @ z) (length w) p = Inr (buffer p' \<noteq> None, p')"
    "if buffer p' = None then \<exists>n. \<not> can_malloc al n
     else holds (t @ w @ z) (length t + length w) p' \<and> offset p = int (length t)" by blast
  have "ready al (t @ w) p'"
  proof (cases "buffer p' = None")
    case True with p'(2) show ?thesis by (simp add: ready_def)
  next
    case False with p'(2) show ?thesis by (auto intro: holds_ready)
  qed
  with p'(1) show ?thesis by (auto simp: goes_def)
qed

lemma done_emit:
  assumes "ready al (t @ u) p" and "length z < n" and "length (t @ u) + n \<le> 2 ^ 30"
  shows "value_done al t (u @ z) (bindR (emit al n (z @ [0]) 0 p) (\<lambda>(ok, p'). Inr (if ok then Some x else None, p')))"
proof -
  have "length (z @ [0]) \<le> n" "0 < n" using assms(2) by simp_all
  from emit_ready [OF assms(1) this assms(3), where len = 0] obtain p' where p':
    "emit al n (z @ [0]) 0 p = Inr (buffer p' \<noteq> None, p')"
    "if buffer p' = None then \<exists>n. \<not> can_malloc al n
     else holds ((t @ u) @ z @ [0]) (length (t @ u) + 0) p' \<and> offset p = int (length (t @ u))" by blast
  have "terminated al t (u @ z) p'"
    using p'(2) by (cases "buffer p' = None") (auto simp: terminated_def holds_def)
  with p'(1) show ?thesis by (auto simp: value_done_def)
qed

lemma done_emit_value:
  assumes "ready al t p" and "length z < n" and "length t + n \<le> 2 ^ 30"
  shows "value_done al t z (emit_value al n (z @ [0]) p)"
  using done_emit [of al t "[]" p z n "offset p"] assms by (simp add: emit_value_def)

lemma goes_value:
  assumes "value_done al t w r" and "c_content w" and "\<And>p. ready al (t @ w) p \<Longrightarrow> goes al u (f p)"
  shows "goes al u (bindR r (\<lambda>(_, p). bindR (advance p) f))"
proof -
  from assms(1) obtain out p where r: "r = Inr (out, p)" "terminated al t w p" by (auto simp: value_done_def)
  have "\<exists>p'. advance p = Inr p' \<and> ready al (t @ w) p'"
  proof (cases "buffer p")
    case None
    with r(2) show ?thesis by (simp add: advance_def update_def terminated_def ready_def)
  next
    case (Some b)
    with r(2) obtain q where b: "b = t @ w @ 0 # q" "pb_length p = int (length b)" "length b < 2 ^ 31"
      and o: "int (length t) \<le> offset p" "offset p \<le> int (length t + length w)" by (auto simp: terminated_def)
    define k where "k = nat (offset p) - length t"
    have k: "nat (offset p) = length t + k" "k \<le> length w" "offset p = int (length t + k)"
      using o by (simp_all add: k_def)
    have "c_content (drop k w)" using assms(2) by (auto simp: c_content_def dest: in_set_dropD)
    then have "strlen (drop (nat (offset p)) b) = Inr (length w - k)"
      using k b(1) strlen_content [of "drop k w" q] by simp
    then have "advance p = Inr (p\<lparr>offset := int (length (t @ w))\<rparr>)"
      using Some k by (simp add: advance_def update_def)
    then show ?thesis using Some b by (simp add: ready_def)
  qed
  with r(1) assms(3) show ?thesis by auto
qed

lemma print_number_same:
  "\<exists>n z. n \<le> 64 \<and> print_number i = built n (z @ [0]) \<and> print_number_buf al i p = emit_value al n (z @ [0]) p"
proof -
  let ?d = "valuedouble i"
  consider "coef ?d = 0" | "coef ?d \<noteq> 0" "near_int (valueint i) ?d \<and> in_int_range ?d"
    | "coef ?d \<noteq> 0" "\<not> (near_int (valueint i) ?d \<and> in_int_range ?d)" by blast
  then show ?thesis
  proof cases
    case 1
    then show ?thesis by (intro exI [of _ 2] exI [of _ "[48]"]) (simp add: print_number_def print_number_buf_def)
  next
    case 2
    then show ?thesis
      by (intro exI [of _ 21] exI [of _ "print_int (valueint i)"]) (simp add: print_number_def print_number_buf_def Let_def)
  next
    case 3
    obtain a1 b1 a2 b2 a3 b3 where p: "abs_and_power ?d (-6) = (a1, b1)" "abs_and_power ?d 9 = (a2, b2)"
      "abs_and_power ?d 60 = (a3, b3)" by (meson surj_pair)
    show ?thesis
      by (intro exI [of _ 64] exI [of _ "if near_int (floor_number ?d) ?d \<and> a3 < b3 then print_fixed 0 ?d
            else if a1 < b1 \<or> b2 < a2 then print_exponential ?d else print_fixed 6 ?d"] conjI)
        (use 3 in \<open>simp_all only: print_number_def print_number_buf_def Let_def p prod.case if_False order.refl\<close>)
  qed
qed

lemma print_number_buf_done:
  assumes "ready al t p" and "number_ok i" and "length t + 64 \<le> 2 ^ 30"
  shows "value_done al t (butlast (projr (print_number i))) (print_number_buf al i p)"
proof -
  from print_number_same obtain n z where n: "n \<le> 64" "print_number i = built n (z @ [0])"
    "print_number_buf al i p = emit_value al n (z @ [0]) p" by blast
  with print_number_fits [OF assms(2)] have "length z < n" by (auto simp: built_def split: if_splits)
  with done_emit_value [OF assms(1) this] n assms(3) show ?thesis by (simp add: built_def)
qed

lemma print_string_buf_done:
  assumes "ready al t p" and "c_content w" and "length t + length (string_bytes w) + 64 \<le> 2 ^ 30"
  shows "value_done al t (string_bytes w) (print_string_buf al (Some (w @ [0])) p)"
proof (cases "list_ex is_escaped w")
  case True
  have "length (34 # concat (map escape_char w) @ [34]) < escaped_length w + 3"
    "length t + (escaped_length w + 3) \<le> 2 ^ 30"
    using assms(3) escaped_length_eq [OF assms(2)] by (simp_all add: string_bytes_def)
  from done_emit_value [OF assms(1) this] True show ?thesis
    using strlen_content [OF assms(2), of "[]"] by (simp add: print_string_buf_def string_bytes_def)
next
  case False
  then have "concat (map escape_char w) = w"
    using assms(2) by (induction w) (simp_all add: escape_char_plain)
  then have sb: "string_bytes w = 34 # w @ [34]" by (simp add: string_bytes_def)
  have "length (34 # w @ [34]) < length w + 3" "length t + (length w + 3) \<le> 2 ^ 30"
    using assms(3) by (simp_all add: sb)
  from done_emit_value [OF assms(1) this] False show ?thesis
    using strlen_content [OF assms(2), of "[]"] by (simp add: print_string_buf_def sb)
qed

section \<open>The loops and the tree\<close>

lemma goes_write:
  assumes "ready al t p" and "bs = w @ z" and "len = length w" and "u = t @ w" and "length bs \<le> n" and "0 < n"
    and "length t + n \<le> 2 ^ 30"
  shows "goes al u (emit al n bs len p)"
  using goes_emit [of al t p w z n] assms by simp

lemma separated_more: "ws \<noteq> [] \<Longrightarrow> separated sep (w # ws) = w @ sep @ separated sep ws"
  by (cases ws) simp_all

text \<open>What is proved of the printing of a child at a depth\<close>

definition child_done :: "allocator \<Rightarrow> bool \<Rightarrow> nat \<Rightarrow> cJSON \<Rightarrow> bool" where
  "child_done al fmt depth c \<longleftrightarrow> c_content (json_render fmt depth c) \<and>
     (\<forall>t p. ready al t p \<longrightarrow> length t + length (json_render fmt depth c) + 64 \<le> 2 ^ 30 \<longrightarrow>
        value_done al t (json_render fmt depth c) (print_value_buf al c depth fmt p))"

lemma elements_go:
  assumes "list_all (child_done al fmt depth) cs" and "ready al t p"
    and "u = t @ separated (44 # (if fmt then [32] else [])) (map (json_render fmt depth) cs)"
    and "length u + 64 \<le> 2 ^ 30"
  shows "goes al u (elements_buf al cs depth fmt p)"
  using assms
proof (induction cs arbitrary: t p)
  case Nil
  then show ?case by (simp add: goes_ok)
next
  case (Cons c cs)
  let ?w = "json_render fmt depth c" and ?sep = "44 # (if fmt then [32 :: byte] else [])"
  let ?rest = "separated ?sep (map (json_render fmt depth) cs)"
  have u: "u = t @ ?w @ (if cs = [] then [] else ?sep @ ?rest)"
    using Cons.prems(3) by (simp add: separated_more)
  have len: "length t + length ?w + 64 \<le> 2 ^ 30" using Cons.prems(4) unfolding u by simp
  have child: "value_done al t ?w (print_value_buf al c depth fmt p)" and content: "c_content ?w"
    using Cons.prems(1,2) len by (simp_all add: child_done_def)
  show ?case unfolding elements_buf.simps
  proof (rule goes_value [OF child content])
    fix p1 assume p1: "ready al (t @ ?w) p1"
    show "goes al u (if cs = [] then Inr (True, p1)
      else bindR (emit al (if fmt then 3 else 2) (44 # (if fmt then [32] else []) @ [0]) (if fmt then 2 else 1) p1)
        (\<lambda>(ok, p). if \<not> ok then Inr (False, p) else elements_buf al cs depth fmt p))"
    proof (cases "cs = []")
      case True
      with p1 u show ?thesis by (simp add: goes_ok)
    next
      case False
      have "goes al (t @ ?w @ ?sep) (emit al (if fmt then 3 else 2) (44 # (if fmt then [32] else []) @ [0]) (if fmt then 2 else 1) p1)"
        by (rule goes_write [OF p1, where w = ?sep and z = "[0]"]) (use Cons.prems(4) u False in \<open>auto split: if_splits\<close>)
      then have "goes al u (bindR (emit al (if fmt then 3 else 2) (44 # (if fmt then [32] else []) @ [0]) (if fmt then 2 else 1) p1)
        (\<lambda>(ok, p). if \<not> ok then Inr (False, p) else elements_buf al cs depth fmt p))"
      proof (rule goes_bind)
        fix p2 assume "ready al (t @ ?w @ ?sep) p2"
        with Cons.IH Cons.prems(1,4) u False show "goes al u (elements_buf al cs depth fmt p2)" by simp
      qed
      with False show ?thesis by simp
    qed
  qed
qed

lemma members_go:
  assumes "list_all (child_done al fmt depth) cs" and "ready al t p" and "0 < depth"
    and "list_all (\<lambda>c. case name_of c of None \<Rightarrow> False | Some s \<Rightarrow> c_string s) cs"
    and "u = t @ separated (44 # newline fmt)
      (map (\<lambda>c. member_bytes fmt depth (name_bytes c) (json_render fmt depth c)) cs) @ (if cs = [] then [] else newline fmt)"
    and "length u + 64 \<le> 2 ^ 30"
  shows "goes al u (members_buf al cs depth fmt p)"
  using assms(1,2,4,5,6)
proof (induction cs arbitrary: t p)
  case Nil
  then show ?case by (simp add: goes_ok)
next
  case (Cons c cs)
  let ?w = "json_render fmt depth c" and ?n = "string_bytes (name_bytes c)" and ?tabs = "tabs fmt depth"
  let ?colon = "58 # (if fmt then [9 :: byte] else [])" and ?comma = "(if cs = [] then [] else [44 :: byte]) @ newline fmt"
  let ?rest = "separated (44 # newline fmt)
      (map (\<lambda>c. member_bytes fmt depth (name_bytes c) (json_render fmt depth c)) cs) @ (if cs = [] then [] else newline fmt)"
  have u: "u = t @ ?tabs @ ?n @ ?colon @ ?w @ ?comma @ (if cs = [] then [] else ?rest)"
    using Cons.prems(4) by (simp add: separated_more member_bytes_def)
  obtain s where s: "name_of c = Some (s @ [0])" "c_content s" "name_bytes c = s"
    using Cons.prems(3) by (auto simp: c_string_iff name_bytes_def split: option.splits)
  have child: "child_done al fmt depth c" using Cons.prems(1) by simp
  have tabs: "goes al (t @ ?tabs) (if fmt then emit al depth ?tabs depth p else Inr (True, p))"
  proof (cases fmt)
    case True
    have "goes al (t @ ?tabs) (emit al depth ?tabs depth p)"
      by (rule goes_write [OF Cons.prems(2), where w = ?tabs and z = "[]"])
        (use True assms(3) Cons.prems(5) u in \<open>auto simp: tabs_def\<close>)
    with True show ?thesis by simp
  next
    case False
    with Cons.prems(2) show ?thesis by (simp add: tabs_def goes_ok)
  qed
  show ?case unfolding members_buf.simps Let_def
  proof (rule goes_bind [OF tabs])
    fix p1 assume p1: "ready al (t @ ?tabs) p1"
    have "value_done al (t @ ?tabs) ?n (print_string_buf al (name_of c) p1)"
      unfolding s(1,3) by (rule print_string_buf_done [OF p1 s(2)]) (use Cons.prems(5) u s(3) in simp)
    moreover have "c_content ?n" using s by (simp add: string_bytes_content)
    ultimately show "goes al u (bindR (print_string_buf al (name_of c) p1) (\<lambda>(_, p). bindR (advance p) (\<lambda>p.
      bindR (emit al (if fmt then 2 else 1) (58 # (if fmt then [9] else [])) (if fmt then 2 else 1) p) (\<lambda>(ok, p).
      if \<not> ok then Inr (False, p)
      else bindR (print_value_buf al c depth fmt p) (\<lambda>(_, p). bindR (advance p) (\<lambda>p.
        bindR (emit al ((if fmt then 1 else 0) + (if cs = [] then 0 else 1) + 1)
          ((if cs = [] then [] else [44]) @ newline fmt @ [0]) ((if fmt then 1 else 0) + (if cs = [] then 0 else 1)) p) (\<lambda>(ok, p).
        if \<not> ok then Inr (False, p) else members_buf al cs depth fmt p)))))))"
    proof (rule goes_value)
      fix p2 assume p2: "ready al ((t @ ?tabs) @ ?n) p2"
      have colon: "goes al (t @ ?tabs @ ?n @ ?colon) (emit al (if fmt then 2 else 1) (58 # (if fmt then [9] else [])) (if fmt then 2 else 1) p2)"
        by (rule goes_write [OF p2, where w = ?colon and z = "[]"]) (use Cons.prems(5) u in \<open>auto split: if_splits\<close>)
      show "goes al u (bindR (emit al (if fmt then 2 else 1) (58 # (if fmt then [9] else [])) (if fmt then 2 else 1) p2) (\<lambda>(ok, p).
        if \<not> ok then Inr (False, p)
        else bindR (print_value_buf al c depth fmt p) (\<lambda>(_, p). bindR (advance p) (\<lambda>p.
          bindR (emit al ((if fmt then 1 else 0) + (if cs = [] then 0 else 1) + 1)
            ((if cs = [] then [] else [44]) @ newline fmt @ [0]) ((if fmt then 1 else 0) + (if cs = [] then 0 else 1)) p) (\<lambda>(ok, p).
          if \<not> ok then Inr (False, p) else members_buf al cs depth fmt p)))))"
      proof (rule goes_bind [OF colon], rule goes_value)
        fix p3 assume p3: "ready al (t @ ?tabs @ ?n @ ?colon) p3"
        show "value_done al (t @ ?tabs @ ?n @ ?colon) ?w (print_value_buf al c depth fmt p3)"
          using child p3 Cons.prems(5) u by (simp add: child_done_def)
        show "c_content ?w" using child by (simp add: child_done_def)
      next
        fix p4 assume p4: "ready al ((t @ ?tabs @ ?n @ ?colon) @ ?w) p4"
        let ?x = "t @ ?tabs @ ?n @ ?colon @ ?w @ ?comma"
        have "goes al ?x (emit al ((if fmt then 1 else 0) + (if cs = [] then 0 else 1) + 1)
            ((if cs = [] then [] else [44]) @ newline fmt @ [0]) ((if fmt then 1 else 0) + (if cs = [] then 0 else 1)) p4)"
          by (rule goes_write [OF p4, where w = ?comma and z = "[0]"])
            (use Cons.prems(5) u in \<open>auto simp: newline_def split: if_splits\<close>)
        then show "goes al u (bindR (emit al ((if fmt then 1 else 0) + (if cs = [] then 0 else 1) + 1)
            ((if cs = [] then [] else [44]) @ newline fmt @ [0]) ((if fmt then 1 else 0) + (if cs = [] then 0 else 1)) p4) (\<lambda>(ok, p).
          if \<not> ok then Inr (False, p) else members_buf al cs depth fmt p))"
        proof (rule goes_bind)
          fix p5 assume p5: "ready al ?x p5"
          show "goes al u (members_buf al cs depth fmt p5)"
          proof (cases "cs = []")
            case True
            with p5 u show ?thesis by (simp add: goes_ok)
          next
            case False
            show ?thesis by (rule Cons.IH [OF _ p5]) (use False Cons.prems(1,3,5) u in simp_all)
          qed
        qed
      qed
    qed
  qed
qed

lemma render_content: "json_ok c \<Longrightarrow> numbers_ok c \<Longrightarrow> c_content (json_render fmt depth c)"
  using print_renders(1) by blast

lemma tree_done:
  "json_ok c \<Longrightarrow> numbers_ok c \<Longrightarrow> child_done al fmt depth c"
proof (induction c arbitrary: depth)
  case (Node i cs)
  have item: "item_ok i cs" and cs: "list_all json_ok cs" "list_all numbers_ok cs"
    and num: "item_type i = cJSON_Number \<Longrightarrow> number_ok i"
    using Node.prems by simp_all
  then have "item_type i \<le> 6" by (simp add: item_ok_def)
  then have ty: "item_type i mod 256 = item_type i" by simp
  have children: "list_all (child_done al fmt (Suc depth)) cs"
    using Node.IH cs by (simp add: list_all_iff)
  have "value_done al t (json_render fmt depth (Node i cs)) (print_value_buf al (Node i cs) depth fmt p)"
    if p: "ready al t p" and len: "length t + length (json_render fmt depth (Node i cs)) + 64 \<le> 2 ^ 30" for t p
  proof -
    consider "item_type i \<in> {cJSON_NULL, cJSON_False, cJSON_True}" | "item_type i = cJSON_Number"
      | "item_type i = cJSON_String" | "item_type i = cJSON_Array" "cs = []" | "item_type i = cJSON_Array" "cs \<noteq> []"
      | "item_type i = cJSON_Object" "cs = []" | "item_type i = cJSON_Object" "cs \<noteq> []"
      using \<open>item_type i \<le> 6\<close> unfolding type_codes by (auto simp: le_Suc_eq numeral_eq_Suc)
    then show ?thesis
    proof cases
      case 1
      then show ?thesis
        using len done_emit_value [OF p, of "bytes_of ''null''" 5] done_emit_value [OF p, of "bytes_of ''false''" 6]
          done_emit_value [OF p, of "bytes_of ''true''" 5]
        by (auto simp: Let_def ty type_simps lit_def)
    next
      case 2
      with print_number_buf_done [OF p num] len show ?thesis by (simp add: Let_def ty type_simps)
    next
      case 3
      with item obtain w where w: "valuestring i = Some (w @ [0])" "c_content w"
        by (auto simp: item_ok_def type_simps c_string_iff split: option.splits)
      with 3 print_string_buf_done [OF p w(2)] len show ?thesis by (simp add: Let_def ty type_simps string_value_def)
    next
      case 4
      then show ?thesis using len done_emit_value [OF p, of "[91, 93]" 3] by (simp add: Let_def ty type_simps)
    next
      case 5
      let ?els = "separated (44 # (if fmt then [32] else [])) (map (json_render fmt (Suc depth)) cs)"
      have r: "json_render fmt depth (Node i cs) = (91 # ?els) @ [93]" using 5 by (simp add: type_simps)
      have open_bracket: "goes al (t @ [91]) (emit al 1 [91] 1 p)"
        by (rule goes_write [OF p, where w = "[91]" and z = "[]"]) (use len r in auto)
      have "value_done al t ((91 # ?els) @ [93]) (bindR (emit al 1 [91] 1 p) (\<lambda>(ok, p1).
          if \<not> ok then Inr (None, p1)
          else bindR (elements_buf al cs (depth + 1) fmt p1) (\<lambda>(ok, p2).
               if \<not> ok then Inr (None, p2)
               else bindR (emit al 2 [93, 0] 0 p2) (\<lambda>(ok, p3). Inr (if ok then Some (offset p) else None, p3)))))"
      proof (rule done_bind [OF open_bracket], rule done_bind)
        fix p1 assume "ready al (t @ [91]) p1"
        then show "goes al (t @ 91 # ?els) (elements_buf al cs (depth + 1) fmt p1)"
          by (intro elements_go [where t = "t @ [91]"]) (use children len r in auto)
      next
        fix p2 assume "ready al (t @ 91 # ?els) p2"
        from done_emit [OF this, of "[93]" 2] len r
        show "value_done al t ((91 # ?els) @ [93])
          (bindR (emit al 2 [93, 0] 0 p2) (\<lambda>(ok, p3). Inr (if ok then Some (offset p) else None, p3)))" by simp
      qed
      then show ?thesis unfolding r using 5 by (simp add: Let_def ty type_simps)
    next
      case 6
      then show ?thesis using len done_emit_value [OF p, of "123 # newline fmt @ tabs fmt (depth - 1) @ [125]" "if fmt then depth + 4 else 3"]
        by (auto simp: Let_def ty type_simps newline_def tabs_def)
    next
      case 7
      let ?ms = "separated (44 # newline fmt)
          (map (\<lambda>c. member_bytes fmt (Suc depth) (name_bytes c) (json_render fmt (Suc depth) c)) cs)"
      let ?body = "123 # newline fmt @ ?ms @ newline fmt"
      have r: "json_render fmt depth (Node i cs) = ?body @ tabs fmt depth @ [125]" using 7 by (simp add: type_simps)
      have names: "list_all (\<lambda>c. case name_of c of None \<Rightarrow> False | Some s \<Rightarrow> c_string s) cs"
        using item 7 by (simp add: item_ok_def)
      have open_brace: "goes al (t @ 123 # newline fmt) (emit al (if fmt then 3 else 2) (123 # newline fmt @ [0]) (if fmt then 2 else 1) p)"
        by (rule goes_write [OF p, where w = "123 # newline fmt" and z = "[0]"]) (use len r in \<open>auto simp: newline_def\<close>)
      have "value_done al t (?body @ tabs fmt depth @ [125])
        (bindR (emit al (if fmt then 3 else 2) (123 # newline fmt @ [0]) (if fmt then 2 else 1) p) (\<lambda>(ok, p1).
          if \<not> ok then Inr (None, p1)
          else bindR (members_buf al cs (depth + 1) fmt p1) (\<lambda>(ok, p2).
               if \<not> ok then Inr (None, p2)
               else bindR (emit al (if fmt then depth + 2 else 2) (tabs fmt depth @ [125, 0]) 0 p2) (\<lambda>(ok, p3).
                      Inr (if ok then Some (if fmt then int depth else offset p) else None, p3)))))"
      proof (rule done_bind [OF open_brace], rule done_bind)
        fix p1 assume "ready al (t @ 123 # newline fmt) p1"
        then show "goes al (t @ ?body) (members_buf al cs (depth + 1) fmt p1)"
          by (intro members_go [where t = "t @ 123 # newline fmt"]) (use children names len r 7 in auto)
      next
        fix p2 assume "ready al (t @ ?body) p2"
        from done_emit [OF this, of "tabs fmt depth @ [125]" "if fmt then depth + 2 else 2"] len r
        show "value_done al t (?body @ tabs fmt depth @ [125])
          (bindR (emit al (if fmt then depth + 2 else 2) (tabs fmt depth @ [125, 0]) 0 p2) (\<lambda>(ok, p3).
             Inr (if ok then Some (if fmt then int depth else offset p) else None, p3)))"
          by (simp add: tabs_def split: if_splits)
      qed
      then show ?thesis unfolding r using 7 by (simp add: Let_def ty type_simps)
    qed
  qed
  then show ?case using render_content [OF Node.prems] by (simp add: child_done_def)
qed

lemma emit_value_pointer: "emit_value al n bs p = Inr (Some out, p') \<Longrightarrow> out = offset p"
  by (auto simp: emit_value_def bindR_eq_Inr_iff split: if_splits prod.splits)

lemma print_number_pointer: "print_number_buf al i p = Inr (Some out, p') \<Longrightarrow> out = offset p"
  using print_number_same [of i al p] emit_value_pointer by metis

lemma print_string_pointer: "print_string_buf al str p = Inr (Some out, p') \<Longrightarrow> out = offset p"
  by (auto simp: print_string_buf_def Let_def bindR_eq_Inr_iff dest: emit_value_pointer split: option.splits if_splits)

lemma outermost_pointer:
  assumes "print_value_buf al c 0 fmt p = Inr (Some out, p')" and "offset p = 0"
  shows "out = 0"
proof (cases c)
  case (Node i cs)
  have composed: "q = x" if "bindR r (\<lambda>(ok, p1). if \<not> ok then Inr (None, p1) else bindR (f p1) (\<lambda>(ok, p2).
      if \<not> ok then Inr (None, p2) else bindR (g p2) (\<lambda>(ok, p3). Inr (if ok then Some x else None, p3)))) =
      Inr (Some q, p')" for r f g x q and p' :: printbuffer
    using that by (auto simp: bindR_eq_Inr_iff split: if_splits prod.splits)
  from assms show ?thesis unfolding Node print_value_buf.simps Let_def
    by (auto split: if_split_asm dest!: emit_value_pointer print_number_pointer print_string_pointer composed)
qed

section \<open>Property\<close>

text \<open>
  C12: \<open>cJSON_PrintBuffered\<close> gives the text of \<open>cJSON_Print\<close>. For a well-formed tree with a text of less than 2 to
  the 30 bytes (and 64 for a number), whatever size the buffer has at first, wherever it has to be replaced by a larger one,
  and whatever is in new objects, no write leaves the buffer, and the result is a null pointer, which is returned
  only when an allocation has failed, or the text that the printer without a buffer gives, terminated.
\<close>

theorem cJSON_PrintBuffered_same:
  assumes "json_ok c" and "numbers_ok c" and "length (json_render fmt 0 c) + 64 \<le> 2 ^ 30"
    and "0 \<le> prebuffer" and "prebuffer < 2 ^ 31"
  shows "\<exists>r. cJSON_PrintBuffered al c prebuffer fmt = Inr r \<and>
    (case r of
       None \<Rightarrow> \<exists>n. \<not> can_malloc al n
     | Some b \<Rightarrow> \<exists>w rest. print_value c 0 fmt = Inr (Some w) \<and> b = w @ rest)"
proof -
  let ?p = "\<lparr>buffer = malloc_bytes al prebuffer, pb_length = prebuffer, offset = 0\<rparr>"
  have "ready al [] ?p"
    using assms(4,5) by (auto simp: ready_def malloc_bytes_def to_size_t_nonneg Let_def)
  then have "value_done al [] (json_render fmt 0 c) (print_value_buf al c 0 fmt ?p)"
    using tree_done [OF assms(1,2)] assms(3) by (simp add: child_done_def)
  then obtain out p where p: "print_value_buf al c 0 fmt ?p = Inr (out, p)" "terminated al [] (json_render fmt 0 c) p"
    "out = None \<longleftrightarrow> buffer p = None" by (auto simp: value_done_def)
  show ?thesis
  proof (cases out)
    case None
    with p show ?thesis by (simp add: cJSON_PrintBuffered_def terminated_def)
  next
    case (Some q)
    with p(1) outermost_pointer have "q = 0" by simp
    moreover obtain b where "buffer p = Some b" using p(3) Some by auto
    ultimately show ?thesis
      using p Some print_renders(1) [OF assms(1,2), of 0 fmt] by (auto simp: cJSON_PrintBuffered_def terminated_def)
  qed
qed

definition sample_allocator :: allocator where
  "sample_allocator = \<lparr>can_malloc = (\<lambda>_. True), junk = (\<lambda>_. 170)\<rparr>"

text \<open>With four bytes at the beginning, so that the buffer has to be replaced.\<close>

theorem cJSON_PrintBuffered_same_witness:
  "\<exists>w rest. cJSON_PrintBuffered sample_allocator sample_tree 4 True = Inr (Some (w @ rest)) \<and>
    print_value sample_tree 0 True = Inr (Some w)"
proof -
  have "length (json_render True 0 sample_tree) \<le> 100" by code_simp
  then have len: "length (json_render True 0 sample_tree) + 64 \<le> 2 ^ 30" by simp
  have can: "can_malloc sample_allocator n" for n by (simp add: sample_allocator_def)
  have "\<exists>r. cJSON_PrintBuffered sample_allocator sample_tree 4 True = Inr r \<and>
    (case r of
       None \<Rightarrow> \<exists>n. \<not> can_malloc sample_allocator n
     | Some b \<Rightarrow> \<exists>w rest. print_value sample_tree 0 True = Inr (Some w) \<and> b = w @ rest)"
    by (rule cJSON_PrintBuffered_same [OF sample_tree_ok len]) simp_all
  then obtain r where r: "cJSON_PrintBuffered sample_allocator sample_tree 4 True = Inr r"
    "case r of
       None \<Rightarrow> \<exists>n. \<not> can_malloc sample_allocator n
     | Some b \<Rightarrow> \<exists>w rest. print_value sample_tree 0 True = Inr (Some w) \<and> b = w @ rest" by (elim exE conjE)
  show ?thesis
  proof (cases r)
    case None
    with r(2) can show ?thesis by simp
  next
    case (Some b)
    with r(2) obtain w rest where "print_value sample_tree 0 True = Inr (Some w)" "b = w @ rest" by (simp only: option.case) (elim exE conjE)
    with r(1) Some show ?thesis by (intro exI conjI) simp_all
  qed
qed

end
