(* ===== verification/Memory.thy ===== *)
theory Memory
  imports Prelude "HOL-Library.Multiset"
begin

text \<open>
  The blocks that the trees of the XML parser and of the JSON library are allocated in, and the ownership of blocks
  from which the theories of their memory prove that nothing is leaked, freed twice or used after it has been freed.
\<close>

section \<open>Blocks\<close>

text \<open>
  An allocated object is a block with an address that is not used again. Allocations succeed. Freeing a block that is
  not allocated is a fault, and so is reading one.
\<close>

record memory =
  live :: "nat set"
  next_block :: nat

definition malloc_block :: "memory \<Rightarrow> nat \<times> memory" where
  "malloc_block m = (next_block m, m\<lparr>live := insert (next_block m) (live m), next_block := Suc (next_block m)\<rparr>)"

definition read_block :: "nat \<Rightarrow> memory \<Rightarrow> unit res" where
  "read_block a m = (if a \<in> live m then Inr () else Inl UseAfterFree)"

definition free_block :: "nat \<Rightarrow> memory \<Rightarrow> memory res" where
  "free_block a m = (if a \<in> live m then Inr (m\<lparr>live := live m - {a}\<rparr>) else Inl UseAfterFree)"

definition realloc_block :: "nat \<Rightarrow> memory \<Rightarrow> (nat \<times> memory) res" where
  "realloc_block a m = (case malloc_block m of (b, m) \<Rightarrow> bindR (free_block a m) (\<lambda>m. Inr (b, m)))"

text \<open>\<open>if (p) free(p)\<close>\<close>

definition free_unless_null :: "nat option \<Rightarrow> memory \<Rightarrow> memory res" where
  "free_unless_null a m = (case a of None \<Rightarrow> Inr m | Some a \<Rightarrow> free_block a m)"

definition memory_ok :: "memory \<Rightarrow> bool" where
  "memory_ok m \<longleftrightarrow> (\<forall>a \<in> live m. a < next_block m)"

section \<open>Ownership\<close>

text \<open>The blocks that are allocated in addition to those of a set are those of \<open>B\<close>, each once.\<close>

definition owned :: "nat set \<Rightarrow> nat multiset \<Rightarrow> memory \<Rightarrow> bool" where
  "owned base B m \<longleftrightarrow> live m = base \<union> set_mset B \<and> (\<forall>a. count B a \<le> 1) \<and> base \<inter> set_mset B = {} \<and>
     (\<forall>a \<in> live m. a < next_block m)"

definition frees :: "nat set \<Rightarrow> nat multiset \<Rightarrow> memory res \<Rightarrow> bool" where
  "frees base B r \<longleftrightarrow> (\<exists>m. r = Inr m \<and> owned base B m)"

lemma owned_read: "owned base B m \<Longrightarrow> a \<in># B \<Longrightarrow> read_block a m = Inr ()"
  by (simp add: owned_def read_block_def)

lemma owned_malloc:
  assumes "owned base B m" and "malloc_block m = (a, m')"
  shows "owned base (add_mset a B) m'"
proof -
  have "a = next_block m" "m' = m\<lparr>live := insert a (live m), next_block := Suc a\<rparr>"
    using assms(2) by (auto simp: malloc_block_def)
  moreover have "next_block m \<notin> live m" using assms(1) by (auto simp: owned_def)
  ultimately show ?thesis using assms(1)
    by (auto simp: owned_def less_Suc_eq not_in_iff)
qed

lemma frees_block:
  assumes "owned base (add_mset a B) m"
  shows "frees base B (free_block a m)"
proof -
  have c: "count (add_mset a B) x \<le> 1" for x using assms by (simp only: owned_def)
  have "count B x \<le> 1" for x using c [of x] by (simp split: if_splits)
  moreover have "a \<notin># B" using c [of a] by (simp add: not_in_iff)
  ultimately show ?thesis using assms by (auto simp: frees_def owned_def free_block_def)
qed

lemma bindR_assoc: "bindR (bindR r f) g = bindR r (\<lambda>x. bindR (f x) g)"
  by (cases r) simp_all

lemma frees_done: "owned base B m \<Longrightarrow> frees base B (Inr m)"
  by (simp add: frees_def)

lemma frees_bind: "frees base B r \<Longrightarrow> (\<And>m. owned base B m \<Longrightarrow> frees base C (f m)) \<Longrightarrow> frees base C (bindR r f)"
  by (auto simp: frees_def)

lemma frees_read: "owned base B m \<Longrightarrow> a \<in># B \<Longrightarrow> frees base C f \<Longrightarrow> frees base C (bindR (read_block a m) (\<lambda>_. f))"
  by (simp add: owned_read)

lemma realloc_owned:
  assumes "owned base (add_mset a B) m"
  shows "\<exists>b m'. realloc_block a m = Inr (b, m') \<and> owned base (add_mset b B) m'"
proof -
  obtain b m1 where m1: "malloc_block m = (b, m1)" by force
  have "owned base (add_mset a (add_mset b B)) m1" using owned_malloc [OF assms m1] by (simp add: add_mset_commute)
  from frees_block [OF this] m1 show ?thesis by (auto simp: realloc_block_def frees_def)
qed

lemma owned_start: "memory_ok m \<Longrightarrow> owned (live m) {#} m"
  by (simp add: owned_def memory_ok_def)

lemma owned_rest: "owned base {#} m \<Longrightarrow> live m = base"
  by (simp add: owned_def)

section \<open>Counting what is left\<close>

text \<open>
  How a function with memory relates to the same function without: it has the same fault or the same result, and
  afterwards \<open>k\<close> blocks of those that it has allocated are still there, in addition to the blocks of \<open>B\<close>.
\<close>

definition leaves :: "nat set \<Rightarrow> nat multiset \<Rightarrow> 'a res \<Rightarrow> nat \<Rightarrow> ('a \<times> memory) res \<Rightarrow> bool" where
  "leaves base B plain k r \<longleftrightarrow>
     (case plain of
        Inl e \<Rightarrow> r = Inl e
      | Inr x \<Rightarrow> \<exists>K m. r = Inr (x, m) \<and> size K = k \<and> owned base (K + B) m)"

lemma leaves_fault [simp]: "leaves base B (Inl e) k r \<longleftrightarrow> r = Inl e"
  by (simp add: leaves_def)

lemma leaves_result: "owned base (K + B) m \<Longrightarrow> size K = k \<Longrightarrow> leaves base B (Inr x) k (Inr (x, m))"
  by (auto simp: leaves_def)

lemma leaves_none: "owned base B m \<Longrightarrow> leaves base B (Inr x) 0 (Inr (x, m))"
  by (rule leaves_result [of _ "{#}"]) simp_all

lemma leavesE:
  assumes "leaves base B plain k r"
  obtains (fault) e where "plain = Inl e" "r = Inl e"
  | (result) x K m where "plain = Inr x" "r = Inr (x, m)" "size K = k" "owned base (K + B) m"
  using assms by (cases plain) (auto simp: leaves_def)

lemma leaves_step: "(\<And>x. p = Inr x \<Longrightarrow> leaves base B (f x) k (g x)) \<Longrightarrow> leaves base B (bindR p f) k (bindR p g)"
  by (cases p) simp_all

text \<open>What the first of two calls leaves stays where it is during the second one.\<close>

lemma leaves_more: "leaves base (K + B) p k r \<Longrightarrow> leaves base B p (size K + k) r"
proof (cases p)
  case (Inr x)
  assume "leaves base (K + B) p k r"
  with Inr obtain L m where "r = Inr (x, m)" "size L = k" "owned base (L + (K + B)) m" by (auto simp: leaves_def)
  with Inr show ?thesis by (auto simp: leaves_def ac_simps intro!: exI [of _ "K + L"])
qed simp

lemma leaves_bind:
  assumes "leaves base C p k r"
    and "\<And>x K m. p = Inr x \<Longrightarrow> size K = k \<Longrightarrow> owned base (K + C) m \<Longrightarrow> leaves base (K + B) (f x) l (g (x, m))"
  shows "leaves base B (bindR p f) (k + l) (bindR r g)"
  using assms(1)
proof (cases rule: leavesE)
  case (result x K m)
  with leaves_more [OF assms(2) [OF result(1,3,4)]] show ?thesis by simp
qed simp

lemma size_one_each: "(\<And>a. count K a \<le> 1) \<Longrightarrow> size K = card (set_mset K)"
proof (induction K)
  case (add x K)
  have "count K a \<le> 1" for a using add.prems [of a] by (simp split: if_splits)
  moreover have "x \<notin># K" using add.prems [of x] by (simp add: not_in_iff)
  ultimately show ?case using add.IH by simp
qed simp

text \<open>Seen from a state of the memory, without ownership\<close>

lemma leaves_live:
  assumes "leaves (live m) {#} p k r"
  shows "case p of
      Inl e \<Rightarrow> r = Inl e
    | Inr x \<Rightarrow> \<exists>m'. r = Inr (x, m') \<and> live m \<subseteq> live m' \<and> finite (live m' - live m) \<and> card (live m' - live m) = k"
  using assms
proof (cases rule: leavesE)
  case (result x K m')
  then have "live m' - live m = set_mset K" "live m \<subseteq> live m'" "\<And>a. count K a \<le> 1" by (auto simp: owned_def)
  moreover from this have "size K = card (set_mset K)" by (simp add: size_one_each)
  ultimately show ?thesis using result(1-3) by simp
qed simp

section \<open>Trees that own their blocks\<close>

text \<open>
  What the users of a library of trees rely on: a tree owns blocks, and the function that frees it frees these and
  nothing else.
\<close>

locale tree_memory =
  fixes tree_blocks :: "'n \<Rightarrow> nat multiset"
    and tree_free :: "'n \<Rightarrow> memory \<Rightarrow> memory res"
  assumes tree_frees: "owned base (tree_blocks n + B) m \<Longrightarrow> frees base B (tree_free n m)"
begin

lemma free_alone: "owned base (tree_blocks n) m \<Longrightarrow> \<exists>m'. tree_free n m = Inr m' \<and> live m' = base"
  using tree_frees [of base n "{#}" m] by (auto simp: frees_def owned_rest)

lemma free_one_of_two:
  "owned base (tree_blocks n + tree_blocks n') m \<Longrightarrow>
     \<exists>m'. tree_free n m = Inr m' \<and> live m' = base \<union> set_mset (tree_blocks n') \<and> owned base (tree_blocks n') m'"
  using tree_frees [of base n "tree_blocks n'" m] by (auto simp: frees_def owned_def)

lemma free_two:
  assumes "owned base (tree_blocks n + tree_blocks n') m"
  shows "\<exists>m' m''. tree_free n m = Inr m' \<and> live m' = base \<union> set_mset (tree_blocks n') \<and>
    tree_free n' m' = Inr m'' \<and> live m'' = base"
  using free_one_of_two [OF assms] free_alone by blast

end

end
