(* ===== verification/XmlMemory.thy ===== *)
theory XmlMemory
  imports Xml Memory
begin

text \<open>
  The memory of the XML parser (\<^verbatim>\<open>proxy_server/xml/xml.c\<close>): what \<open>xml_parse_node\<close> allocates and frees, what
  \<open>xml_document_free\<close> frees, and \<open>xml_open_document\<close>, which reads a file into a growing buffer. The functions that
  scan the text are those of \<open>Xml\<close>.
\<close>

section \<open>Nodes and their freeing\<close>

text \<open>A node with the addresses of its parts: itself, its strings, and the array with its children.\<close>

datatype hnode =
  HNode (node_addr: nat) (name_field: "nat \<times> xml_string") (content_field: "(nat \<times> xml_string) option")
    (array_addr: nat) (array_cells: "hnode list")

fun xml_node_free :: "hnode \<Rightarrow> memory \<Rightarrow> memory res"
  and free_cells :: "nat \<Rightarrow> hnode list \<Rightarrow> memory \<Rightarrow> memory res" where
  "xml_node_free (HNode a name content arr cells) m =
     bindR (read_block a m) (\<lambda>_.
     bindR (free_block (fst name) m) (\<lambda>m.
     bindR (free_unless_null (map_option fst content) m) (\<lambda>m.
     bindR (free_cells arr cells m) (\<lambda>m.
     bindR (free_block arr m) (free_block a)))))"
| "free_cells arr [] m = bindR (read_block arr m) (\<lambda>_. Inr m)"
| "free_cells arr (c # cells) m =
     bindR (read_block arr m) (\<lambda>_. bindR (xml_node_free c m) (free_cells arr cells))"

section \<open>The parser with its allocations\<close>

definition new_string :: "xml_string \<Rightarrow> memory \<Rightarrow> (nat \<times> xml_string) \<times> memory" where
  "new_string s m = (case malloc_block m of (a, m) \<Rightarrow> ((a, s), m))"

text \<open>The labels \<open>node_creation\<close> and \<open>exit_failure\<close>\<close>

definition node_creation ::
    "nat \<times> xml_string \<Rightarrow> (nat \<times> xml_string) option \<Rightarrow> nat \<Rightarrow> hnode list \<Rightarrow> xml_parser \<Rightarrow> memory
      \<Rightarrow> (hnode option \<times> xml_parser \<times> memory) option res" where
  "node_creation tag_open content arr cells p m =
     (case malloc_block m of (a, m) \<Rightarrow> Inr (Some (Some (HNode a tag_open content arr cells), p, m)))"

definition exit_failure ::
    "nat option \<Rightarrow> nat option \<Rightarrow> nat option \<Rightarrow> nat \<Rightarrow> hnode list \<Rightarrow> xml_parser \<Rightarrow> memory
      \<Rightarrow> (hnode option \<times> xml_parser \<times> memory) option res" where
  "exit_failure tag_open tag_close content arr cells p m =
     bindR (free_unless_null tag_open m) (\<lambda>m.
     bindR (free_unless_null tag_close m) (\<lambda>m.
     bindR (free_unless_null content m) (\<lambda>m.
     bindR (free_cells arr cells m) (\<lambda>m.
     bindR (free_block arr m) (\<lambda>m. Inr (Some (None, p, m)))))))"

definition close_node_mem ::
    "nat \<times> xml_string \<Rightarrow> (nat \<times> xml_string) option \<Rightarrow> nat \<Rightarrow> hnode list \<Rightarrow> xml_parser \<Rightarrow> memory
      \<Rightarrow> (hnode option \<times> xml_parser \<times> memory) option res" where
  "close_node_mem tag_open content arr cells p m =
     bindR (xml_parse_tag_close p) (\<lambda>(tag_close, p).
       case tag_close of
         None \<Rightarrow> bindR (xml_parser_error p NO_CHARACTER) (\<lambda>_.
           exit_failure (Some (fst tag_open)) None (map_option fst content) arr cells p m)
       | Some s \<Rightarrow> (case new_string s m of (close, m) \<Rightarrow>
           bindR (xml_string_equals (snd tag_open) (snd close)) (\<lambda>eq.
             if \<not> eq then bindR (xml_parser_error p NO_CHARACTER) (\<lambda>_.
               exit_failure (Some (fst tag_open)) (Some (fst close)) (map_option fst content) arr cells p m)
             else bindR (free_block (fst close) m) (node_creation tag_open content arr cells p))))"

text \<open>
  The loop over the children returns whether it has ended without a failure, the address of the array, which
  is moved for each child, and the children that are in it.
\<close>

fun xml_parse_node_mem :: "nat \<Rightarrow> xml_parser \<Rightarrow> memory \<Rightarrow> (hnode option \<times> xml_parser \<times> memory) option res"
  and parse_children_mem :: "nat \<Rightarrow> xml_parser \<Rightarrow> memory \<Rightarrow> nat \<Rightarrow> hnode list
      \<Rightarrow> (bool \<times> nat \<times> hnode list \<times> xml_parser \<times> memory) option res" where
  "xml_parse_node_mem 0 p m = Inr None"
| "xml_parse_node_mem (Suc fuel) p m =
     (case malloc_block m of (arr, m) \<Rightarrow>
     bindR (xml_parse_tag_open p) (\<lambda>(tag_open, p).
       case tag_open of
         None \<Rightarrow> bindR (xml_parser_error p NO_CHARACTER) (\<lambda>_. exit_failure None None None arr [] p m)
       | Some s \<Rightarrow> (case new_string s m of (t, m) \<Rightarrow>
           bindR (self_closing s) (\<lambda>self.
             if self then node_creation (fst t, s\<lparr>xs_length := xs_length s - 1\<rparr>) None arr [] p m
             else bindR (xml_parser_peek p 0) (\<lambda>c.
               if c \<noteq> LT then
                 bindR (xml_parse_content p) (\<lambda>(content, p).
                   case content of
                     None \<Rightarrow> bindR (xml_parser_error p CURRENT_CHARACTER) (\<lambda>_.
                       exit_failure (Some (fst t)) None None arr [] p m)
                   | Some body \<Rightarrow> (case new_string body m of (b, m) \<Rightarrow> close_node_mem t (Some b) arr [] p m))
               else
                 bindF (parse_children_mem fuel p m arr []) (\<lambda>(ok, arr, cells, p, m).
                   if \<not> ok then exit_failure (Some (fst t)) None None arr cells p m
                   else close_node_mem t None arr cells p m))))))"
| "parse_children_mem 0 p m arr cells = Inr None"
| "parse_children_mem (Suc fuel) p m arr cells =
     bindR (xml_parser_peek p 1) (\<lambda>c.
       if c = SLASH then Inr (Some (True, arr, cells, p, m))
       else bindF (xml_parse_node_mem fuel p m) (\<lambda>(child, p, m).
         case child of
           None \<Rightarrow> bindR (xml_parser_error p NEXT_CHARACTER) (\<lambda>_. Inr (Some (False, arr, cells, p, m)))
         | Some c \<Rightarrow> bindR (realloc_block arr m) (\<lambda>(arr, m). parse_children_mem fuel p m arr (cells @ [c]))))"

section \<open>Documents\<close>

record hdocument =
  document_addr :: nat
  buffer_addr :: nat
  root_node :: hnode

definition xml_parse_document_mem :: "nat \<Rightarrow> byte list \<Rightarrow> nat \<Rightarrow> nat \<Rightarrow> memory
    \<Rightarrow> (hdocument option \<times> memory) option res" where
  "xml_parse_document_mem fuel buffer baddr len m =
     (let p = \<lparr>parser_buffer = buffer, parser_position = 0, parser_length = len\<rparr>
      in if len = 0 then bindR (xml_parser_error p NO_CHARACTER) (\<lambda>_. Inr (Some (None, m)))
         else bindF (xml_parse_node_mem fuel p m) (\<lambda>(root, p, m).
           case root of
             None \<Rightarrow> bindR (xml_parser_error p NO_CHARACTER) (\<lambda>_. Inr (Some (None, m)))
           | Some r \<Rightarrow> (case malloc_block m of (a, m) \<Rightarrow>
               Inr (Some (Some \<lparr>document_addr = a, buffer_addr = baddr, root_node = r\<rparr>, m)))))"

definition xml_document_free :: "hdocument \<Rightarrow> bool \<Rightarrow> memory \<Rightarrow> memory res" where
  "xml_document_free d free_buffer m =
     bindR (read_block (document_addr d) m) (\<lambda>_.
     bindR (xml_node_free (root_node d) m) (\<lambda>m.
     bindR (if free_buffer then free_block (buffer_addr d) m else Inr m) (free_block (document_addr d))))"

text \<open>
  The loop of \<open>xml_open_document\<close> reads a byte in each turn, and finds the end of the file in one more turn, when
  \<open>fread\<close> has nothing to give; what \<open>realloc\<close> adds to the buffer is not known. \<open>source\<close> is what is left of the file.
\<close>

definition grow :: "(nat \<Rightarrow> byte) \<Rightarrow> byte list \<Rightarrow> nat \<Rightarrow> nat \<Rightarrow> memory \<Rightarrow> (byte list \<times> nat \<times> memory) res" where
  "grow added buffer document_length baddr m =
     (if length buffer - document_length < 1
      then bindR (realloc_block baddr m) (\<lambda>(baddr, m). Inr (buffer @ map added [length buffer..<length buffer + 2], baddr, m))
      else Inr (buffer, baddr, m))"

fun read_file :: "(nat \<Rightarrow> byte) \<Rightarrow> byte list \<Rightarrow> byte list \<Rightarrow> nat \<Rightarrow> nat \<Rightarrow> memory
    \<Rightarrow> (byte list \<times> nat \<times> nat \<times> memory) res" where
  "read_file added [] buffer document_length baddr m =
     bindR (grow added buffer document_length baddr m) (\<lambda>(buffer, baddr, m). Inr (buffer, document_length, baddr, m))"
| "read_file added (c # source) buffer document_length baddr m =
     bindR (grow added buffer document_length baddr m) (\<lambda>(buffer, baddr, m).
     bindR (wr buffer document_length c) (\<lambda>buffer.
       read_file added source buffer (document_length + 1) baddr m))"

definition xml_open_document :: "nat \<Rightarrow> (nat \<Rightarrow> byte) \<Rightarrow> byte list \<Rightarrow> memory \<Rightarrow> (hdocument option \<times> memory) option res" where
  "xml_open_document fuel added source m =
     (case malloc_block m of (baddr, m) \<Rightarrow>
      bindR (read_file added source [added 0] 0 baddr m) (\<lambda>(buffer, document_length, baddr, m).
      bindF (xml_parse_document_mem fuel buffer baddr document_length m) (\<lambda>(document, m).
        case document of
          None \<Rightarrow> bindR (free_block baddr m) (\<lambda>m. Inr (Some (None, m)))
        | Some d \<Rightarrow> Inr (Some (Some d, m)))))"

section \<open>Ownership\<close>

text \<open>The blocks of a string that may be missing, those of a node, and its contents without the addresses\<close>

definition held :: "(nat \<times> xml_string) option \<Rightarrow> nat multiset" where
  "held s = (case s of None \<Rightarrow> {#} | Some s \<Rightarrow> {#fst s#})"

lemma held_simps [simp]: "held None = {#}" "held (Some s) = {#fst s#}"
  by (simp_all add: held_def)

fun blocks :: "hnode \<Rightarrow> nat multiset" where
  "blocks (HNode a name content arr cells) =
     add_mset a (add_mset (fst name) (add_mset arr (held content +
       sum_list (map blocks cells))))"

fun erase :: "hnode \<Rightarrow> xml_node" where
  "erase (HNode a name content arr cells) = XmlNode (snd name) (map_option snd content) (map erase cells)"

lemma frees_unless_null:
  "owned base (held c + B) m \<Longrightarrow>
     frees base B (free_unless_null (map_option fst c) m)"
  by (cases c) (simp_all add: free_unless_null_def frees_done frees_block)

lemma cells_free:
  assumes "\<And>n B m. n \<in> set cells \<Longrightarrow> owned base (blocks n + B) m \<Longrightarrow> frees base B (xml_node_free n m)"
    and "owned base (sum_list (map blocks cells) + B) m" and "arr \<in># B"
  shows "frees base B (free_cells arr cells m)"
  using assms
proof (induction cells arbitrary: m)
  case Nil
  then show ?case by (simp add: owned_read frees_done)
next
  case (Cons c cells)
  have "frees base (sum_list (map blocks cells) + B) (xml_node_free c m)"
    by (rule Cons.prems(1)) (use Cons.prems(2) in \<open>simp_all add: add.assoc\<close>)
  then have "frees base B (bindR (xml_node_free c m) (free_cells arr cells))"
    by (rule frees_bind) (use Cons in auto)
  with Cons.prems show ?case by (simp add: owned_read)
qed

lemma node_frees: "owned base (blocks n + B) m \<Longrightarrow> frees base B (xml_node_free n m)"
proof (induction n arbitrary: B m)
  case (HNode a name content arr cells)
  let ?c = "held content" and ?s = "sum_list (map blocks cells)"
  have 0: "owned base (add_mset (fst name) (?c + (?s + add_mset arr (add_mset a B)))) m"
    using HNode.prems by (simp add: ac_simps add_mset_commute)
  have "frees base B (bindR (free_block (fst name) m) (\<lambda>m. bindR (free_unless_null (map_option fst content) m) (\<lambda>m.
    bindR (free_cells arr cells m) (\<lambda>m. bindR (free_block arr m) (free_block a)))))"
  proof (rule frees_bind [OF frees_block [OF 0]], rule frees_bind, erule frees_unless_null, rule frees_bind)
    fix m assume "owned base (?s + add_mset arr (add_mset a B)) m"
    then show "frees base (add_mset arr (add_mset a B)) (free_cells arr cells m)"
      by (intro cells_free HNode.IH) auto
  qed (rule frees_bind, erule frees_block, erule frees_block)
  then show ?case using owned_read [OF HNode.prems, of a] by simp
qed

lemma cells_freed: "owned base (sum_list (map blocks cells) + B) m \<Longrightarrow> arr \<in># B \<Longrightarrow> frees base B (free_cells arr cells m)"
  by (rule cells_free [OF node_frees])

section \<open>The parser owns what it allocates\<close>

definition node_sim :: "nat set \<Rightarrow> nat multiset \<Rightarrow> (xml_node option \<times> xml_parser) option res
    \<Rightarrow> (hnode option \<times> xml_parser \<times> memory) option res \<Rightarrow> bool" where
  "node_sim base B plain r \<longleftrightarrow>
     (case plain of
        Inl e \<Rightarrow> r = Inl e
      | Inr None \<Rightarrow> r = Inr None
      | Inr (Some (n, p)) \<Rightarrow> \<exists>h m. r = Inr (Some (h, p, m)) \<and> map_option erase h = n \<and>
          owned base ((case h of None \<Rightarrow> {#} | Some h \<Rightarrow> blocks h) + B) m)"

definition children_sim :: "nat set \<Rightarrow> nat multiset \<Rightarrow> (xml_node list option \<times> xml_parser) option res
    \<Rightarrow> (bool \<times> nat \<times> hnode list \<times> xml_parser \<times> memory) option res \<Rightarrow> bool" where
  "children_sim base B plain r \<longleftrightarrow>
     (case plain of
        Inl e \<Rightarrow> r = Inl e
      | Inr None \<Rightarrow> r = Inr None
      | Inr (Some (cs, p)) \<Rightarrow> \<exists>ok arr cells m. r = Inr (Some (ok, arr, cells, p, m)) \<and>
          (case cs of None \<Rightarrow> \<not> ok | Some cs \<Rightarrow> ok \<and> map erase cells = cs) \<and>
          owned base (add_mset arr (sum_list (map blocks cells) + B)) m)"

lemma node_sim_bind: "(\<And>x. r = Inr x \<Longrightarrow> node_sim base B (f x) (g x)) \<Longrightarrow> node_sim base B (bindR r f) (bindR r g)"
  by (cases r) (simp_all add: node_sim_def)

lemma children_sim_bind: "(\<And>x. r = Inr x \<Longrightarrow> children_sim base B (f x) (g x)) \<Longrightarrow> children_sim base B (bindR r f) (bindR r g)"
  by (cases r) (simp_all add: children_sim_def)

lemma node_simE:
  assumes "node_sim base B plain r"
  obtains (fault) e where "plain = Inl e" "r = Inl e"
    | (fuel) "plain = Inr None" "r = Inr None"
    | (result) h p m where "plain = Inr (Some (map_option erase h, p))" "r = Inr (Some (h, p, m))"
        "owned base ((case h of None \<Rightarrow> {#} | Some h \<Rightarrow> blocks h) + B) m"
proof (cases plain)
  case (Inl e)
  with assms show ?thesis by (intro fault) (simp_all add: node_sim_def)
next
  case (Inr x)
  show ?thesis
  proof (cases x)
    case None
    with Inr assms show ?thesis by (intro fuel) (simp_all add: node_sim_def)
  next
    case (Some y)
    then obtain n p where "x = Some (n, p)" by (cases y) simp
    with Inr assms obtain h m where "r = Inr (Some (h, p, m))" "map_option erase h = n"
      "owned base ((case h of None \<Rightarrow> {#} | Some h \<Rightarrow> blocks h) + B) m" by (auto simp: node_sim_def)
    with Inr \<open>x = Some (n, p)\<close> show ?thesis by (intro result) simp_all
  qed
qed

lemma sim_creation:
  assumes "owned base (add_mset (fst t) (add_mset arr (held content +
    (sum_list (map blocks cells) + B)))) m"
  shows "node_sim base B (Inr (Some (Some (XmlNode (snd t) (map_option snd content) (map erase cells)), p)))
    (node_creation t content arr cells p m)"
proof -
  obtain a m' where m': "malloc_block m = (a, m')" by force
  from owned_malloc [OF assms m'] m' show ?thesis by (simp add: node_sim_def node_creation_def add.assoc)
qed

lemma sim_failure:
  assumes "owned base (held t +
    (held close +
    (held content + (sum_list (map blocks cells) + add_mset arr B)))) m"
  shows "node_sim base B (Inr (Some (None, p)))
    (exit_failure (map_option fst t) (map_option fst close) (map_option fst content) arr cells p m)"
proof -
  have "frees base B (bindR (free_unless_null (map_option fst t) m) (\<lambda>m.
     bindR (free_unless_null (map_option fst close) m) (\<lambda>m.
     bindR (free_unless_null (map_option fst content) m) (\<lambda>m.
     bindR (free_cells arr cells m) (free_block arr)))))"
  proof (rule frees_bind [OF frees_unless_null [OF assms]], rule frees_bind, erule frees_unless_null,
      rule frees_bind, erule frees_unless_null, rule frees_bind)
    fix m assume "owned base (sum_list (map blocks cells) + add_mset arr B) m"
    then show "frees base (add_mset arr B) (free_cells arr cells m)" by (rule cells_freed) simp
  qed (erule frees_block)
  moreover have "exit_failure (map_option fst t) (map_option fst close) (map_option fst content) arr cells p m =
    bindR (bindR (free_unless_null (map_option fst t) m) (\<lambda>m.
     bindR (free_unless_null (map_option fst close) m) (\<lambda>m.
     bindR (free_unless_null (map_option fst content) m) (\<lambda>m.
     bindR (free_cells arr cells m) (free_block arr))))) (\<lambda>m. Inr (Some (None, p, m)))"
    by (simp only: exit_failure_def bindR_assoc)
  ultimately show ?thesis by (auto simp only: frees_def) (simp add: node_sim_def)
qed

lemma liftF_simps: "liftF (Inr x) = Inr (Some x)" "liftF (bindR r f) = bindR r (\<lambda>x. liftF (f x))"
  by (simp_all add: liftF_def bindR_assoc)

lemma close_sim:
  assumes "owned base (add_mset (fst t) (held content + (sum_list (map blocks cells) + add_mset arr B))) m"
  shows "node_sim base B (liftF (close_node (snd t) (map_option snd content) (map erase cells) p))
    (close_node_mem t content arr cells p m)"
  unfolding close_node_def close_node_mem_def liftF_simps
proof (rule node_sim_bind)
  fix x assume "xml_parse_tag_close p = Inr x"
  obtain tag_close p' where x: "x = (tag_close, p')" by (cases x)
  show "node_sim base B
    (liftF (case x of (tag_close, p) \<Rightarrow> case tag_close of
         None \<Rightarrow> bindR (xml_parser_error p NO_CHARACTER) (\<lambda>_. Inr (None, p))
       | Some close \<Rightarrow> bindR (xml_string_equals (snd t) close) (\<lambda>eq.
           if \<not> eq then bindR (xml_parser_error p NO_CHARACTER) (\<lambda>_. Inr (None, p))
           else Inr (Some (XmlNode (snd t) (map_option snd content) (map erase cells)), p))))
    (case x of (tag_close, p) \<Rightarrow> case tag_close of
         None \<Rightarrow> bindR (xml_parser_error p NO_CHARACTER) (\<lambda>_.
           exit_failure (Some (fst t)) None (map_option fst content) arr cells p m)
       | Some s \<Rightarrow> (case new_string s m of (close, m) \<Rightarrow>
           bindR (xml_string_equals (snd t) (snd close)) (\<lambda>eq.
             if \<not> eq then bindR (xml_parser_error p NO_CHARACTER) (\<lambda>_.
               exit_failure (Some (fst t)) (Some (fst close)) (map_option fst content) arr cells p m)
             else bindR (free_block (fst close) m) (node_creation t content arr cells p))))"
  proof (cases tag_close)
    case None
    have "node_sim base B (Inr (Some (None, p'))) (exit_failure (Some (fst t)) None (map_option fst content) arr cells p' m)"
      using sim_failure [where t = "Some t" and close = None and content = content and base = base and B = B
          and cells = cells and arr = arr and m = m and p = p'] assms by (simp add: add_mset_commute)
    with None x show ?thesis by (auto simp: liftF_simps intro!: node_sim_bind)
  next
    case (Some s)
    obtain a m1 where m1: "malloc_block m = (a, m1)" by force
    have o1: "owned base (add_mset a (add_mset (fst t) (held content + (sum_list (map blocks cells) + add_mset arr B)))) m1"
      by (rule owned_malloc [OF assms m1])
    have fail: "node_sim base B (Inr (Some (None, p')))
        (exit_failure (map_option fst (Some t)) (map_option fst (Some (a, s))) (map_option fst content) arr cells p' m1)"
      by (rule sim_failure) (use o1 in \<open>simp add: add_mset_commute\<close>)
    from frees_block [OF o1] obtain m2 where m2: "free_block a m1 = Inr m2"
      "owned base (add_mset (fst t) (held content + (sum_list (map blocks cells) + add_mset arr B))) m2"
      by (auto simp: frees_def)
    have ok: "node_sim base B (Inr (Some (Some (XmlNode (snd t) (map_option snd content) (map erase cells)), p')))
        (node_creation t content arr cells p' m2)"
      by (rule sim_creation) (use m2(2) in \<open>simp add: ac_simps\<close>)
    show ?thesis
      unfolding x Some prod.case option.case new_string_def m1 liftF_simps fst_conv snd_conv
    proof (rule node_sim_bind)
      fix eq
      show "node_sim base B (liftF (if \<not> eq then bindR (xml_parser_error p' NO_CHARACTER) (\<lambda>_. Inr (None, p'))
           else Inr (Some (XmlNode (snd t) (map_option snd content) (map erase cells)), p')))
        (if \<not> eq then bindR (xml_parser_error p' NO_CHARACTER) (\<lambda>_.
               exit_failure (Some (fst t)) (Some a) (map_option fst content) arr cells p' m1)
             else bindR (free_block a m1) (node_creation t content arr cells p'))"
        using fail ok m2(1) by (cases eq) (auto simp: liftF_simps intro: node_sim_bind)
    qed
  qed
qed

lemma xml_parser_sim:
  "(owned base B m \<longrightarrow> node_sim base B (xml_parse_node fuel p) (xml_parse_node_mem fuel p m)) \<and>
   (owned base (add_mset arr (sum_list (map blocks cells) + B)) m \<longrightarrow>
      children_sim base B (parse_children fuel p (map erase cells)) (parse_children_mem fuel p m arr cells))"
proof (induction fuel arbitrary: B m p arr cells)
  case 0
  show ?case by (simp add: node_sim_def children_sim_def)
next
  case (Suc fuel)
  have node: "node_sim base B (xml_parse_node (Suc fuel) p) (xml_parse_node_mem (Suc fuel) p m)" if o: "owned base B m"
  proof -
    obtain arr m1 where m1: "malloc_block m = (arr, m1)" by force
    have o1: "owned base (add_mset arr B) m1" by (rule owned_malloc [OF o m1])
    have fail: "node_sim base B (Inr (Some (None, p'))) (exit_failure None None None arr [] p' m1)" for p'
      using sim_failure [where t = None and close = None and content = None and cells = "[]" and m = m1 and p = p'] o1 by simp
    have rest: "node_sim base B
       (bindR (self_closing s) (\<lambda>self.
             if self then Inr (Some (Some (XmlNode (s\<lparr>xs_length := xs_length s - 1\<rparr>) None []), p))
             else bindR (xml_parser_peek p 0) (\<lambda>c.
               if c \<noteq> LT then
                 bindR (xml_parse_content p) (\<lambda>(content, p).
                   case content of
                     None \<Rightarrow> bindR (xml_parser_error p CURRENT_CHARACTER) (\<lambda>_. Inr (Some (None, p)))
                   | Some body \<Rightarrow> liftF (close_node s (Some body) [] p))
               else
                 bindF (parse_children fuel p []) (\<lambda>(children, p).
                   case children of
                     None \<Rightarrow> Inr (Some (None, p))
                   | Some cs \<Rightarrow> liftF (close_node s None cs p)))))
       (bindR (self_closing s) (\<lambda>self.
             if self then node_creation (t, s\<lparr>xs_length := xs_length s - 1\<rparr>) None arr [] p m2
             else bindR (xml_parser_peek p 0) (\<lambda>c.
               if c \<noteq> LT then
                 bindR (xml_parse_content p) (\<lambda>(content, p).
                   case content of
                     None \<Rightarrow> bindR (xml_parser_error p CURRENT_CHARACTER) (\<lambda>_.
                       exit_failure (Some t) None None arr [] p m2)
                   | Some body \<Rightarrow> (case new_string body m2 of (b, m) \<Rightarrow> close_node_mem (t, s) (Some b) arr [] p m))
               else
                 bindF (parse_children_mem fuel p m2 arr []) (\<lambda>(ok, arr, cells, p, m).
                   if \<not> ok then exit_failure (Some t) None None arr cells p m
                   else close_node_mem (t, s) None arr cells p m))))"
      if m2: "malloc_block m1 = (t, m2)" for s t m2 p
    proof -
      have o2: "owned base (add_mset t (add_mset arr B)) m2" by (rule owned_malloc [OF o1 m2])
      have failure: "node_sim base B (Inr (Some (None, p'))) (exit_failure (Some t) None None arr' cells p' m')"
        if "owned base (add_mset t (sum_list (map blocks cells) + add_mset arr' B)) m'" for p' arr' cells m'
        using sim_failure [where t = "Some (t, s)" and close = None and content = None and cells = cells and m = m'
            and p = p' and arr = arr' and base = base and B = B] that by (simp add: add_mset_commute)
      have self: "node_sim base B (Inr (Some (Some (XmlNode (s\<lparr>xs_length := xs_length s - 1\<rparr>) None []), p)))
         (node_creation (t, s\<lparr>xs_length := xs_length s - 1\<rparr>) None arr [] p m2)"
        using sim_creation [where t = "(t, s\<lparr>xs_length := xs_length s - 1\<rparr>)" and content = None and cells = "[]"] o2 by simp
      have text_content: "node_sim base B (liftF (close_node s (Some body) [] p'))
          (case new_string body m2 of (b, m) \<Rightarrow> close_node_mem (t, s) (Some b) arr [] p' m)" for body p'
      proof -
        obtain b m3 where m3: "malloc_block m2 = (b, m3)" by force
        have "owned base (add_mset t (add_mset b (add_mset arr B))) m3"
          using owned_malloc [OF o2 m3] by (simp add: add_mset_commute)
        with close_sim [where t = "(t, s)" and content = "Some (b, body)" and cells = "[]" and m = m3 and p = p'
            and base = base and B = B and arr = arr]
        show ?thesis by (simp add: new_string_def m3 add_mset_commute)
      qed
      have children: "node_sim base B
         (bindF (parse_children fuel p []) (\<lambda>(children, p).
            case children of None \<Rightarrow> Inr (Some (None, p)) | Some cs \<Rightarrow> liftF (close_node s None cs p)))
         (bindF (parse_children_mem fuel p m2 arr []) (\<lambda>(ok, arr, cells, p, m).
            if \<not> ok then exit_failure (Some t) None None arr cells p m else close_node_mem (t, s) None arr cells p m))"
      proof -
        have "children_sim base (add_mset t B) (parse_children fuel p []) (parse_children_mem fuel p m2 arr [])"
          using Suc.IH [of "add_mset t B" m2 p arr "[]"] o2 by (simp add: add_mset_commute)
        then consider e where "parse_children fuel p [] = Inl e" "parse_children_mem fuel p m2 arr [] = Inl e"
          | "parse_children fuel p [] = Inr None" "parse_children_mem fuel p m2 arr [] = Inr None"
          | cs p' ok arr' cells m' where "parse_children fuel p [] = Inr (Some (cs, p'))"
            "parse_children_mem fuel p m2 arr [] = Inr (Some (ok, arr', cells, p', m'))"
            "case cs of None \<Rightarrow> \<not> ok | Some cs \<Rightarrow> ok \<and> map erase cells = cs"
            "owned base (add_mset arr' (sum_list (map blocks cells) + add_mset t B)) m'"
          unfolding children_sim_def by (auto split: sum.splits option.splits)
        then show ?thesis
        proof cases
          case 3
          then have "owned base (add_mset t (sum_list (map blocks cells) + add_mset arr' B)) m'" by (simp add: add_mset_commute)
          with 3 failure close_sim [where t = "(t, s)" and content = None and cells = cells and m = m' and p = p' and arr = arr']
          show ?thesis by (cases cs) (auto simp: bindF_def)
        qed (simp_all add: node_sim_def bindF_def)
      qed
      show ?thesis
        by (intro node_sim_bind) (auto intro!: node_sim_bind self [unfolded One_nat_def] text_content children failure split: option.split simp: o2)
    qed
    show ?thesis
      unfolding xml_parse_node.simps xml_parse_node_mem.simps m1 prod.case
    proof (rule node_sim_bind)
      fix x assume "xml_parse_tag_open p = Inr x"
      obtain tag_open p' where x: "x = (tag_open, p')" by (cases x)
      show "node_sim base B
        (case x of (tag_open, p) \<Rightarrow> case tag_open of
           None \<Rightarrow> bindR (xml_parser_error p NO_CHARACTER) (\<lambda>_. Inr (Some (None, p)))
         | Some t \<Rightarrow> bindR (self_closing t) (\<lambda>self.
             if self then Inr (Some (Some (XmlNode (t\<lparr>xs_length := xs_length t - 1\<rparr>) None []), p))
             else bindR (xml_parser_peek p 0) (\<lambda>c.
               if c \<noteq> LT then
                 bindR (xml_parse_content p) (\<lambda>(content, p).
                   case content of
                     None \<Rightarrow> bindR (xml_parser_error p CURRENT_CHARACTER) (\<lambda>_. Inr (Some (None, p)))
                   | Some body \<Rightarrow> liftF (close_node t (Some body) [] p))
               else
                 bindF (parse_children fuel p []) (\<lambda>(children, p).
                   case children of
                     None \<Rightarrow> Inr (Some (None, p))
                   | Some cs \<Rightarrow> liftF (close_node t None cs p)))))
        (case x of (tag_open, p) \<Rightarrow> case tag_open of
           None \<Rightarrow> bindR (xml_parser_error p NO_CHARACTER) (\<lambda>_. exit_failure None None None arr [] p m1)
         | Some s \<Rightarrow> (case new_string s m1 of (t, m) \<Rightarrow>
           bindR (self_closing s) (\<lambda>self.
             if self then node_creation (fst t, s\<lparr>xs_length := xs_length s - 1\<rparr>) None arr [] p m
             else bindR (xml_parser_peek p 0) (\<lambda>c.
               if c \<noteq> LT then
                 bindR (xml_parse_content p) (\<lambda>(content, p).
                   case content of
                     None \<Rightarrow> bindR (xml_parser_error p CURRENT_CHARACTER) (\<lambda>_.
                       exit_failure (Some (fst t)) None None arr [] p m)
                   | Some body \<Rightarrow> (case new_string body m of (b, m) \<Rightarrow> close_node_mem t (Some b) arr [] p m))
               else
                 bindF (parse_children_mem fuel p m arr []) (\<lambda>(ok, arr, cells, p, m).
                   if \<not> ok then exit_failure (Some (fst t)) None None arr cells p m
                   else close_node_mem t None arr cells p m)))))"
      proof (cases tag_open)
        case None
        with x show ?thesis by (auto intro!: node_sim_bind fail)
      next
        case (Some s)
        obtain t m2 where m2: "malloc_block m1 = (t, m2)" by force
        have new: "new_string s m1 = ((t, s), m2)" by (simp add: new_string_def m2)
        from rest [OF m2, of s p'] show ?thesis unfolding x Some prod.case option.case new fst_conv .
      qed
    qed
  qed
  have loop: "children_sim base B (parse_children (Suc fuel) p (map erase cells)) (parse_children_mem (Suc fuel) p m arr cells)"
    if o: "owned base (add_mset arr (sum_list (map blocks cells) + B)) m"
    unfolding parse_children.simps parse_children_mem.simps
  proof (rule children_sim_bind)
    fix c assume "xml_parser_peek p 1 = Inr c"
    have "node_sim base (add_mset arr (sum_list (map blocks cells) + B)) (xml_parse_node fuel p) (xml_parse_node_mem fuel p m)"
      using Suc.IH o by blast
    then have "children_sim base B
       (bindF (xml_parse_node fuel p) (\<lambda>(child, p).
         case child of
           None \<Rightarrow> bindR (xml_parser_error p NEXT_CHARACTER) (\<lambda>_. Inr (Some (None, p)))
         | Some c \<Rightarrow> parse_children fuel p (map erase cells @ [c])))
       (bindF (xml_parse_node_mem fuel p m) (\<lambda>(child, p, m).
         case child of
           None \<Rightarrow> bindR (xml_parser_error p NEXT_CHARACTER) (\<lambda>_. Inr (Some (False, arr, cells, p, m)))
         | Some c \<Rightarrow> bindR (realloc_block arr m) (\<lambda>(arr, m). parse_children_mem fuel p m arr (cells @ [c]))))"
    proof (cases rule: node_simE)
      case (result h p' m')
      show ?thesis
      proof (cases h)
        case None
        with result show ?thesis by (auto simp: bindF_def intro!: children_sim_bind) (auto simp: children_sim_def)
      next
        case (Some n)
        with result(3) realloc_owned [where a = arr and B = "blocks n + (sum_list (map blocks cells) + B)" and base = base and m = m']
        obtain b m2 where m2: "realloc_block arr m' = Inr (b, m2)"
          "owned base (add_mset b (blocks n + (sum_list (map blocks cells) + B))) m2" by auto
        have "owned base (add_mset b (sum_list (map blocks (cells @ [n])) + B)) m2" using m2(2) by (simp add: ac_simps)
        with Suc.IH [of B m2 p' b "cells @ [n]"] result Some m2(1) show ?thesis by (simp add: bindF_def)
      qed
    qed (simp_all add: bindF_def children_sim_def)
    then show "children_sim base B
       (if c = SLASH then Inr (Some (Some (map erase cells), p))
        else bindF (xml_parse_node fuel p) (\<lambda>(child, p).
         case child of
           None \<Rightarrow> bindR (xml_parser_error p NEXT_CHARACTER) (\<lambda>_. Inr (Some (None, p)))
         | Some c \<Rightarrow> parse_children fuel p (map erase cells @ [c])))
       (if c = SLASH then Inr (Some (True, arr, cells, p, m))
        else bindF (xml_parse_node_mem fuel p m) (\<lambda>(child, p, m).
         case child of
           None \<Rightarrow> bindR (xml_parser_error p NEXT_CHARACTER) (\<lambda>_. Inr (Some (False, arr, cells, p, m)))
         | Some c \<Rightarrow> bindR (realloc_block arr m) (\<lambda>(arr, m). parse_children_mem fuel p m arr (cells @ [c]))))"
    proof (cases "c = SLASH")
      case True
      with o show ?thesis by (auto simp: children_sim_def)
    qed simp
  qed
  show ?case using node loop by blast
qed

section \<open>Documents and files\<close>

definition document_of :: "byte list \<Rightarrow> nat \<Rightarrow> hdocument \<Rightarrow> xml_document" where
  "document_of buffer len d = \<lparr>doc_buffer = buffer, doc_length = len, doc_root = erase (root_node d)\<rparr>"

lemma parse_document_owns:
  assumes "owned base B m" and "len < length buffer" and "2 * len \<le> fuel"
  shows "\<exists>d m'. xml_parse_document_mem fuel buffer baddr len m = Inr (Some (d, m')) \<and>
    xml_parse_document fuel buffer len = Inr (Some (map_option (document_of buffer len) d)) \<and>
    (case d of
       None \<Rightarrow> owned base B m'
     | Some d \<Rightarrow> buffer_addr d = baddr \<and> owned base (add_mset (document_addr d) (blocks (root_node d) + B)) m')"
proof -
  let ?p = "\<lparr>parser_buffer = buffer, parser_position = 0, parser_length = len\<rparr>"
  obtain r where plain: "xml_parse_document fuel buffer len = Inr (Some r)"
    using xml_document_ok [OF assms(2,3)] by blast
  have sim: "node_sim base B (xml_parse_node fuel ?p) (xml_parse_node_mem fuel ?p m)"
    using xml_parser_sim assms(1) by blast
  show ?thesis
  proof (cases "len = 0")
    case True
    with plain assms(1) show ?thesis
      by (auto simp: xml_parse_document_def xml_parse_document_mem_def bindR_eq_Inr_iff intro!: exI [of _ None])
  next
    case False
    from sim show ?thesis
    proof (cases rule: node_simE)
      case (result h p m1)
      show ?thesis
      proof (cases h)
        case None
        with result False plain show ?thesis
          by (auto simp: xml_parse_document_def xml_parse_document_mem_def bindF_def bindR_eq_Inr_iff intro!: exI [of _ None])
      next
        case (Some n)
        obtain a m2 where m2: "malloc_block m1 = (a, m2)" by force
        have "owned base (blocks n + B) m1" using result(3) Some by simp
        from owned_malloc [OF this m2] m2 result Some False show ?thesis
          by (intro exI [of _ "Some \<lparr>document_addr = a, buffer_addr = baddr, root_node = n\<rparr>"] exI [of _ m2])
            (simp add: xml_parse_document_def xml_parse_document_mem_def bindF_def document_of_def)
      qed
    qed (use plain False in \<open>simp_all add: xml_parse_document_def bindF_def\<close>)
  qed
qed

lemma document_frees:
  assumes "owned base (add_mset (document_addr d) (blocks (root_node d) + (if free_buffer then add_mset (buffer_addr d) B else B))) m"
  shows "frees base B (xml_document_free d free_buffer m)"
proof -
  let ?B = "if free_buffer then add_mset (buffer_addr d) B else B"
  have "owned base (blocks (root_node d) + add_mset (document_addr d) ?B) m" using assms by simp
  from node_frees [OF this] have "frees base B (bindR (xml_node_free (root_node d) m) (\<lambda>m.
     bindR (if free_buffer then free_block (buffer_addr d) m else Inr m) (free_block (document_addr d))))"
  proof (rule frees_bind)
    fix m assume o: "owned base (add_mset (document_addr d) ?B) m"
    have "frees base (add_mset (document_addr d) B) (if free_buffer then free_block (buffer_addr d) m else Inr m)"
      using o by (cases free_buffer) (simp_all add: frees_done frees_block add_mset_commute)
    then show "frees base B (bindR (if free_buffer then free_block (buffer_addr d) m else Inr m) (free_block (document_addr d)))"
      by (rule frees_bind) (rule frees_block)
  qed
  with owned_read [OF assms] show ?thesis by (simp add: xml_document_free_def)
qed

text \<open>A document whose buffer belongs to the caller, and one that owns its buffer\<close>

interpretation xd: tree_memory "\<lambda>d. add_mset (document_addr d) (blocks (root_node d))" "\<lambda>d. xml_document_free d False"
  by unfold_locales (rule document_frees, simp)

interpretation xf: tree_memory "\<lambda>d. add_mset (document_addr d) (add_mset (buffer_addr d) (blocks (root_node d)))" "\<lambda>d. xml_document_free d True"
  by unfold_locales (rule document_frees, simp add: ac_simps)

lemma grow_room:
  assumes "owned base (add_mset baddr B) m" and "len \<le> length buffer"
  shows "\<exists>r a m'. grow added buffer len baddr m = Inr (buffer @ r, a, m') \<and> owned base (add_mset a B) m' \<and> len < length (buffer @ r)"
proof (cases "len = length buffer")
  case True
  from realloc_owned [OF assms(1)] obtain a m' where "realloc_block baddr m = Inr (a, m')" "owned base (add_mset a B) m'" by blast
  with True show ?thesis by (auto simp: grow_def)
next
  case False
  with assms show ?thesis by (intro exI [of _ "[]"]) (simp add: grow_def)
qed

lemma read_file_reads:
  assumes "owned base (add_mset baddr B) m"
  shows "\<exists>rest a m'. read_file added source (pre @ r) (length pre) baddr m =
      Inr (pre @ source @ rest, length pre + length source, a, m') \<and> rest \<noteq> [] \<and> owned base (add_mset a B) m'"
  using assms
proof (induction source arbitrary: pre r baddr m)
  case Nil
  from grow_room [OF Nil, of "length pre" "pre @ r" added] show ?case by auto
next
  case (Cons c source)
  from grow_room [OF Cons.prems, of "length pre" "pre @ r" added] obtain q a m' where
    g: "grow added (pre @ r) (length pre) baddr m = Inr (pre @ r @ q, a, m')" "owned base (add_mset a B) m'" "r @ q \<noteq> []" by auto
  then obtain x rest where x: "r @ q = x # rest" by (cases "r @ q") auto
  have "wr (pre @ r @ q) (length pre) c = Inr ((pre @ [c]) @ rest)" by (simp add: x wr_def list_update_append)
  with Cons.IH [OF g(2), of "pre @ [c]" rest] g(1) show ?case by simp
qed

section \<open>Properties\<close>

text \<open>
  C14: The XML parser owns what it allocates. Let the object hold a byte after the text to parse. Whatever
  the text is, at whatever place the parser fails, every block that has been allocated is freed again when there is no document;
  when there is one, \<open>xml_document_free\<close> leaves exactly the blocks that were allocated before. Nothing
  is freed twice or used after it has been freed, and the document is that of \<open>xml_parse_document\<close>.
\<close>

theorem xml_parser_memory:
  assumes "len < length buffer" and "2 * len \<le> fuel" and "memory_ok m"
  shows "\<exists>d m'. xml_parse_document_mem fuel buffer baddr len m = Inr (Some (d, m')) \<and>
    xml_parse_document fuel buffer len = Inr (Some (map_option (document_of buffer len) d)) \<and>
    (case d of
       None \<Rightarrow> live m' = live m
     | Some d \<Rightarrow> \<exists>m''. xml_document_free d False m' = Inr m'' \<and> live m'' = live m)"
proof -
  have "owned (live m) {#} m" using assms(3) by (rule owned_start)
  from parse_document_owns [OF this assms(1,2), of baddr] obtain d m' where
    d: "xml_parse_document_mem fuel buffer baddr len m = Inr (Some (d, m'))"
      "xml_parse_document fuel buffer len = Inr (Some (map_option (document_of buffer len) d))"
      "case d of None \<Rightarrow> owned (live m) {#} m'
       | Some d \<Rightarrow> buffer_addr d = baddr \<and> owned (live m) (add_mset (document_addr d) (blocks (root_node d) + {#})) m'" by blast
  show ?thesis
  proof (cases d)
    case None
    with d show ?thesis by (simp add: owned_def)
  next
    case (Some x)
    with d(3) xd.free_alone [of "live m" x m'] have "\<exists>m''. xml_document_free x False m' = Inr m'' \<and> live m'' = live m" by simp
    with Some d(1,2) show ?thesis by simp
  qed
qed

definition sample_text :: "byte list" where
  "sample_text = bytes_of ''<a><b>x</b><b/></a>''"

theorem xml_parser_memory_witness:
  "\<exists>d m' m''. xml_parse_document_mem 40 (sample_text @ [0]) 7 19 \<lparr>live = {7}, next_block = 8\<rparr> = Inr (Some (Some d, m')) \<and>
    xml_document_free d False m' = Inr m'' \<and> live m'' = {7}"
proof -
  have "case xml_parse_document_mem 40 (sample_text @ [0]) 7 19 \<lparr>live = {7}, next_block = 8\<rparr> of
    Inr (Some (Some d, m)) \<Rightarrow> True | _ \<Rightarrow> False" by code_simp
  moreover have "length sample_text = 19" by code_simp
  then have "(19 :: nat) < length (sample_text @ [0])" "2 * 19 \<le> (40 :: nat)" "memory_ok \<lparr>live = {7}, next_block = 8\<rparr>"
    by (simp_all add: memory_ok_def)
  from xml_parser_memory [OF this, of 7] obtain d m' where
    "xml_parse_document_mem 40 (sample_text @ [0]) 7 19 \<lparr>live = {7}, next_block = 8\<rparr> = Inr (Some (d, m'))"
    "case d of None \<Rightarrow> live m' = live \<lparr>live = {7}, next_block = 8\<rparr>
     | Some d \<Rightarrow> \<exists>m''. xml_document_free d False m' = Inr m'' \<and> live m'' = live \<lparr>live = {7}, next_block = 8\<rparr>" by blast
  ultimately show ?thesis by (cases d) auto
qed

text \<open>
  A file is read and parsed. For every file \<open>xml_open_document\<close> returns; the parser gets the bytes of the file in a
  buffer with at least one byte after them, so that it never reads outside of it; without a document all memory is free again, and
  with one \<open>xml_document_free\<close>, told to free the buffer, leaves exactly what was allocated before.
\<close>

theorem xml_open_document_spec:
  assumes "2 * length source \<le> fuel" and "memory_ok m"
  shows "\<exists>d m' rest. xml_open_document fuel added source m = Inr (Some (d, m')) \<and> rest \<noteq> [] \<and>
    xml_parse_document fuel (source @ rest) (length source) =
      Inr (Some (map_option (document_of (source @ rest) (length source)) d)) \<and>
    (case d of
       None \<Rightarrow> live m' = live m
     | Some d \<Rightarrow> \<exists>m''. xml_document_free d True m' = Inr m'' \<and> live m'' = live m)"
proof -
  obtain b0 m0 where m0: "malloc_block m = (b0, m0)" by force
  have "owned (live m) {#} m" using assms(2) by (rule owned_start)
  from read_file_reads [OF owned_malloc [OF this m0], of added source "[]" "[added 0]"] obtain rest a m1 where
    m1: "read_file added source [added 0] 0 b0 m0 = Inr (source @ rest, length source, a, m1)" "rest \<noteq> []"
      "owned (live m) {#a#} m1" by auto
  have "length source < length (source @ rest)" using m1(2) by simp
  from parse_document_owns [OF m1(3) this assms(1), of a] obtain d m2 where
    d: "xml_parse_document_mem fuel (source @ rest) a (length source) m1 = Inr (Some (d, m2))"
      "xml_parse_document fuel (source @ rest) (length source) = Inr (Some (map_option (document_of (source @ rest) (length source)) d))"
      "case d of None \<Rightarrow> owned (live m) {#a#} m2
       | Some d \<Rightarrow> buffer_addr d = a \<and> owned (live m) (add_mset (document_addr d) (blocks (root_node d) + {#a#})) m2" by blast
  show ?thesis
  proof (cases d)
    case None
    with d(3) frees_block [of "live m" a "{#}" m2] obtain m3 where "free_block a m2 = Inr m3" "owned (live m) {#} m3"
      by (auto simp: frees_def)
    with None d(1,2) m0 m1(1,2) show ?thesis
      by (intro exI [of _ None] exI [of _ m3] exI [of _ rest]) (simp add: xml_open_document_def bindF_def owned_def)
  next
    case (Some x)
    with d(3) xf.free_alone [of "live m" x m2] obtain m3 where "xml_document_free x True m2 = Inr m3" "live m3 = live m"
      by (auto simp: add_mset_commute)
    with Some d(1,2) m0 m1(1,2) show ?thesis
      by (intro exI [of _ "Some x"] exI [of _ m2] exI [of _ rest]) (simp add: xml_open_document_def bindF_def)
  qed
qed

theorem xml_open_document_spec_witness:
  "\<exists>d m' m''. xml_open_document 40 (\<lambda>_. 170) sample_text \<lparr>live = {}, next_block = 0\<rparr> = Inr (Some (Some d, m')) \<and>
    xml_document_free d True m' = Inr m'' \<and> live m'' = {}"
proof -
  have "case xml_open_document 40 (\<lambda>_. 170) sample_text \<lparr>live = {}, next_block = 0\<rparr> of
    Inr (Some (Some d, m)) \<Rightarrow> True | _ \<Rightarrow> False" by code_simp
  moreover have "length sample_text = 19" by code_simp
  then have "2 * length sample_text \<le> 40" "memory_ok \<lparr>live = {}, next_block = 0\<rparr>" by (simp_all add: memory_ok_def)
  from xml_open_document_spec [OF this, of "\<lambda>_. 170"] obtain d m' where
    "xml_open_document 40 (\<lambda>_. 170) sample_text \<lparr>live = {}, next_block = 0\<rparr> = Inr (Some (d, m'))"
    "case d of None \<Rightarrow> live m' = live \<lparr>live = {}, next_block = 0\<rparr>
     | Some d \<Rightarrow> \<exists>m''. xml_document_free d True m' = Inr m'' \<and> live m'' = live \<lparr>live = {}, next_block = 0\<rparr>" by blast
  ultimately show ?thesis by (cases d) auto
qed

end
