(* ===== verification/CJsonMemory.thy ===== *)
theory CJsonMemory
  imports CJsonTree Memory
begin

text \<open>
  The memory of \<^verbatim>\<open>common/cJSON.c\<close>: the nodes and strings that the parser allocates, \<open>cJSON_Delete\<close>, and the operations
  that add an item by reference or with a constant name, with the blocks that they allocate and free. What is parsed is as in
  \<open>CJson\<close>.
\<close>

unbundle bit_operations_syntax

section \<open>The choice of the allocator\<close>

text \<open>The functions of the library, and what \<open>cJSON_malloc\<close> and \<open>cJSON_free\<close> are after the call\<close>

record ('m, 'f) cJSON_Hooks =
  malloc_fn :: "'m option"
  free_fn :: "'f option"

definition cJSON_InitHooks :: "'m \<Rightarrow> 'f \<Rightarrow> ('m, 'f) cJSON_Hooks option \<Rightarrow> 'm \<times> 'f" where
  "cJSON_InitHooks libc_malloc libc_free hooks =
     (case hooks of
        None \<Rightarrow> (libc_malloc, libc_free)
      | Some h \<Rightarrow> (case malloc_fn h of None \<Rightarrow> libc_malloc | Some f \<Rightarrow> f, case free_fn h of None \<Rightarrow> libc_free | Some f \<Rightarrow> f))"

section \<open>Nodes and their freeing\<close>

text \<open>
  A node: its address, its fields, the addresses of \<open>valuestring\<close> and \<open>string\<close>, and the children. A
  reference has the address of \<open>valuestring\<close> and the children of the node that it refers to.
\<close>

datatype jnode =
  JNode (j_addr: nat) (j_item: item) (j_value: "nat option") (j_name: "nat option") (j_children: "jnode list")

definition is_reference :: "item \<Rightarrow> bool" where
  "is_reference i \<longleftrightarrow> item_type i AND cJSON_IsReference \<noteq> 0"

definition is_const_name :: "item \<Rightarrow> bool" where
  "is_const_name i \<longleftrightarrow> item_type i AND cJSON_StringIsConst \<noteq> 0"

text \<open>The argument is the list of the nodes that are linked by \<open>next\<close>.\<close>

fun cJSON_Delete :: "jnode list \<Rightarrow> memory \<Rightarrow> memory res" where
  "cJSON_Delete [] m = Inr m"
| "cJSON_Delete (JNode a i v n cs # next_items) m =
     bindR (read_block a m) (\<lambda>_.
     bindR (if is_reference i then Inr m else bindR (cJSON_Delete cs m) (free_unless_null v)) (\<lambda>m.
     bindR (if is_const_name i then Inr m else free_unless_null n m) (\<lambda>m.
     bindR (free_block a m) (cJSON_Delete next_items))))"

section \<open>The parser with its allocations\<close>

text \<open>
  A parsing function gets the node to fill and returns whether it has succeeded, the node as far as it is filled, and the
  pointer where it stopped or \<open>ep\<close>; \<open>None\<close> when the nesting was deeper than the fuel.
\<close>

type_synonym mem_parsed = "(bool \<times> jnode \<times> byte list \<times> memory) option res"

definition new_item :: "memory \<Rightarrow> jnode \<times> memory" where
  "new_item m = (case malloc_block m of (a, m) \<Rightarrow> (JNode a cJSON_New_Item None None [], m))"

definition set_item :: "jnode \<Rightarrow> item \<Rightarrow> jnode" where
  "set_item n i = JNode (j_addr n) i (j_value n) (j_name n) (j_children n)"

definition add_child :: "jnode \<Rightarrow> jnode \<Rightarrow> jnode" where
  "add_child n c = JNode (j_addr n) (j_item n) (j_value n) (j_name n) (j_children n @ [c])"

text \<open>\<open>parse_string\<close> allocates when it has seen the quotation mark, and cannot fail after that.\<close>

definition parse_string_mem :: "jnode \<Rightarrow> byte list \<Rightarrow> memory \<Rightarrow> mem_parsed" where
  "parse_string_mem n str m =
     bindR (parse_string (j_item n) str) (\<lambda>r. case r of
       Failed ep \<Rightarrow> Inr (Some (False, n, ep, m))
     | NoFuel \<Rightarrow> Inr None
     | Parsed i ptr \<Rightarrow> (case malloc_block m of (a, m) \<Rightarrow>
         Inr (Some (True, JNode (j_addr n) i (Some a) (j_name n) (j_children n), ptr, m))))"

definition parse_number_mem :: "jnode \<Rightarrow> byte list \<Rightarrow> memory \<Rightarrow> mem_parsed" where
  "parse_number_mem n num m =
     bindR (parse_number (j_item n) num) (\<lambda>r. case r of
       Failed ep \<Rightarrow> Inr (Some (False, n, ep, m))
     | NoFuel \<Rightarrow> Inr None
     | Parsed i ptr \<Rightarrow> Inr (Some (True, set_item n i, ptr, m)))"

type_synonym mem_parser = "jnode \<Rightarrow> byte list \<Rightarrow> memory \<Rightarrow> mem_parsed"

text \<open>
  The loops over the children: \<open>next_child_mem\<close> is what follows a child, a comma and the next turn of the
  loop, or the closing bracket. A child is linked to its array before it is parsed.
\<close>

definition next_child_mem :: "byte \<Rightarrow> mem_parser \<Rightarrow> jnode \<Rightarrow> byte list \<Rightarrow> memory \<Rightarrow> mem_parsed" where
  "next_child_mem close loop n value m =
     bindR (skip value) (\<lambda>value.
     bindR (rd value 0) (\<lambda>d.
     if d = 44 then loop n (drop 1 value) m
     else if d = close then Inr (Some (True, n, drop 1 value, m))
     else Inr (Some (False, n, value, m))))"

primrec parse_elements_mem :: "mem_parser \<Rightarrow> nat \<Rightarrow> jnode \<Rightarrow> byte list \<Rightarrow> memory \<Rightarrow> mem_parsed" where
  "parse_elements_mem pv 0 n value m = Inr None"
| "parse_elements_mem pv (Suc fuel) n value m =
     (case new_item m of (c, m) \<Rightarrow>
      bindR (skip value) (\<lambda>value.
      bindF (pv c value m) (\<lambda>(ok, c, value, m).
      if \<not> ok then Inr (Some (False, add_child n c, value, m))
      else next_child_mem 93 (parse_elements_mem pv fuel) (add_child n c) value m)))"

definition parse_array_mem :: "mem_parser \<Rightarrow> nat \<Rightarrow> jnode \<Rightarrow> byte list \<Rightarrow> memory \<Rightarrow> mem_parsed" where
  "parse_array_mem pv fuel n value m =
     bindR (rd value 0) (\<lambda>c.
     if c \<noteq> 91 then Inr (Some (False, n, value, m)) else
     let n = set_item n ((j_item n)\<lparr>item_type := cJSON_Array\<rparr>) in
     bindR (skip (drop 1 value)) (\<lambda>value.
     bindR (rd value 0) (\<lambda>c.
     if c = 93 then Inr (Some (True, n, drop 1 value, m))
     else parse_elements_mem pv fuel n value m)))"

text \<open>The string that has been parsed becomes the name of the member.\<close>

definition value_to_name :: "jnode \<Rightarrow> jnode" where
  "value_to_name c =
     JNode (j_addr c) ((j_item c)\<lparr>item_string := valuestring (j_item c), valuestring := None\<rparr>) None (j_value c) (j_children c)"

primrec parse_members_mem :: "mem_parser \<Rightarrow> nat \<Rightarrow> jnode \<Rightarrow> byte list \<Rightarrow> memory \<Rightarrow> mem_parsed" where
  "parse_members_mem pv 0 n value m = Inr None"
| "parse_members_mem pv (Suc fuel) n value m =
     (case new_item m of (c, m) \<Rightarrow>
      bindR (skip value) (\<lambda>value.
      bindF (parse_string_mem c value m) (\<lambda>(ok, c, value, m).
      if \<not> ok then Inr (Some (False, add_child n c, value, m)) else
      bindR (skip value) (\<lambda>value.
      let c = value_to_name c in
      bindR (rd value 0) (\<lambda>d.
      if d \<noteq> 58 then Inr (Some (False, add_child n c, value, m)) else
      bindR (skip (drop 1 value)) (\<lambda>value.
      bindF (pv c value m) (\<lambda>(ok, c, value, m).
      if \<not> ok then Inr (Some (False, add_child n c, value, m))
      else next_child_mem 125 (parse_members_mem pv fuel) (add_child n c) value m)))))))"

definition parse_object_mem :: "mem_parser \<Rightarrow> nat \<Rightarrow> jnode \<Rightarrow> byte list \<Rightarrow> memory \<Rightarrow> mem_parsed" where
  "parse_object_mem pv fuel n value m =
     bindR (rd value 0) (\<lambda>c.
     if c \<noteq> 123 then Inr (Some (False, n, value, m)) else
     let n = set_item n ((j_item n)\<lparr>item_type := cJSON_Object\<rparr>) in
     bindR (skip (drop 1 value)) (\<lambda>value.
     bindR (rd value 0) (\<lambda>c.
     if c = 125 then Inr (Some (True, n, drop 1 value, m))
     else parse_members_mem pv fuel n value m)))"

primrec parse_value_mem :: "nat \<Rightarrow> jnode \<Rightarrow> byte list \<Rightarrow> memory \<Rightarrow> mem_parsed" where
  "parse_value_mem 0 n value m = Inr None"
| "parse_value_mem (Suc fuel) n value m =
     bindR (strncmp_eq value (lit (bytes_of ''null'')) 4) (\<lambda>is_null.
     if is_null then Inr (Some (True, set_item n ((j_item n)\<lparr>item_type := cJSON_NULL\<rparr>), drop 4 value, m)) else
     bindR (strncmp_eq value (lit (bytes_of ''false'')) 5) (\<lambda>is_false.
     if is_false then Inr (Some (True, set_item n ((j_item n)\<lparr>item_type := cJSON_False\<rparr>), drop 5 value, m)) else
     bindR (strncmp_eq value (lit (bytes_of ''true'')) 4) (\<lambda>is_true.
     if is_true then Inr (Some (True, set_item n ((j_item n)\<lparr>item_type := cJSON_True, valueint := 1\<rparr>), drop 4 value, m)) else
     bindR (rd value 0) (\<lambda>c.
     if c = 34 then parse_string_mem n value m
     else if c = 45 \<or> is_digit c then parse_number_mem n value m
     else if c = 91 then parse_array_mem (parse_value_mem fuel) fuel n value m
     else if c = 123 then parse_object_mem (parse_value_mem fuel) fuel n value m
     else Inr (Some (False, n, value, m))))))"

definition cJSON_ParseWithOpts_mem :: "nat \<Rightarrow> byte list \<Rightarrow> bool \<Rightarrow> memory \<Rightarrow> (jnode option \<times> memory) option res" where
  "cJSON_ParseWithOpts_mem fuel value require_null_terminated m =
     (case new_item m of (c, m) \<Rightarrow>
      bindR (skip value) (\<lambda>value.
      bindF (parse_value_mem fuel c value m) (\<lambda>(ok, c, fin, m).
      if \<not> ok then bindR (cJSON_Delete [c] m) (\<lambda>m. Inr (Some (None, m)))
      else if require_null_terminated
      then bindR (skip fin) (\<lambda>fin. bindR (rd fin 0) (\<lambda>d.
             if d \<noteq> 0 then bindR (cJSON_Delete [c] m) (\<lambda>m. Inr (Some (None, m)))
             else Inr (Some (Some c, m))))
      else Inr (Some (Some c, m)))))"

section \<open>Adding by reference and with a constant name\<close>

definition create_reference :: "jnode \<Rightarrow> memory \<Rightarrow> jnode \<times> memory" where
  "create_reference n m =
     (case malloc_block m of (a, m) \<Rightarrow>
       (JNode a ((j_item n)\<lparr>item_string := None, item_type := item_type (j_item n) OR cJSON_IsReference\<rparr>)
          (j_value n) None (j_children n), m))"

definition cJSON_AddItemReferenceToArray :: "jnode \<Rightarrow> jnode \<Rightarrow> memory \<Rightarrow> jnode \<times> memory" where
  "cJSON_AddItemReferenceToArray arr n m = (case create_reference n m of (r, m) \<Rightarrow> (add_child arr r, m))"

text \<open>
  \<open>cJSON_AddItemToObject\<close>: the name is a copy of a string, in a new block; the old name is freed, constant or not.
  The address of a constant name is that of an object of the caller.
\<close>

definition add_item_to_object :: "jnode \<Rightarrow> byte list \<Rightarrow> jnode \<Rightarrow> memory \<Rightarrow> (jnode \<times> memory) res" where
  "add_item_to_object ob string n m =
     bindR (free_unless_null (j_name n) m) (\<lambda>m.
     bindR (cJSON_strdup (Some string)) (\<lambda>s.
       case malloc_block m of (a, m) \<Rightarrow>
         Inr (add_child ob (JNode (j_addr n) ((j_item n)\<lparr>item_string := Some s\<rparr>) (j_value n) (Some a) (j_children n)), m)))"

definition cJSON_AddItemReferenceToObject :: "jnode \<Rightarrow> byte list \<Rightarrow> jnode \<Rightarrow> memory \<Rightarrow> (jnode \<times> memory) res" where
  "cJSON_AddItemReferenceToObject ob string n m =
     (case create_reference n m of (r, m) \<Rightarrow> add_item_to_object ob string r m)"

definition add_item_to_object_cs :: "jnode \<Rightarrow> nat \<Rightarrow> byte list \<Rightarrow> jnode \<Rightarrow> memory \<Rightarrow> (jnode \<times> memory) res" where
  "add_item_to_object_cs ob addr string n m =
     bindR (if is_const_name (j_item n) then Inr m else free_unless_null (j_name n) m) (\<lambda>m.
       Inr (add_child ob (JNode (j_addr n)
         ((j_item n)\<lparr>item_string := Some string, item_type := item_type (j_item n) OR cJSON_StringIsConst\<rparr>)
         (j_value n) (Some addr) (j_children n)), m))"

section \<open>The blocks of a tree\<close>

definition at_addr :: "nat option \<Rightarrow> nat multiset" where
  "at_addr a = (case a of None \<Rightarrow> {#} | Some a \<Rightarrow> {#a#})"

lemma at_addr_simps [simp]: "at_addr None = {#}" "at_addr (Some a) = {#a#}"
  by (simp_all add: at_addr_def)

text \<open>A reference does not own what it refers to, and a node does not own a constant name.\<close>

fun owns :: "jnode \<Rightarrow> nat multiset" where
  "owns (JNode a i v n cs) =
     add_mset a ((if is_const_name i then {#} else at_addr n) +
       (if is_reference i then {#} else at_addr v + sum_list (map owns cs)))"

fun tree_of :: "jnode \<Rightarrow> cJSON" where
  "tree_of (JNode a i v n cs) = Node i (map tree_of cs)"

lemma frees_at_addr: "owned base (at_addr a + B) m \<Longrightarrow> frees base B (free_unless_null a m)"
  by (cases a) (simp_all add: free_unless_null_def frees_done frees_block)

lemma delete_frees: "owned base (sum_list (map owns ns) + B) m \<Longrightarrow> frees base B (cJSON_Delete ns m)"
proof (induction "size_list size ns" arbitrary: ns B m rule: less_induct)
  case less
  show ?case
  proof (cases ns)
    case Nil
    with less.prems show ?thesis by (simp add: frees_done)
  next
    case (Cons x xs)
    obtain a i v n cs where x: "x = JNode a i v n cs" by (cases x)
    let ?xs = "sum_list (map owns xs)"
    let ?n = "if is_const_name i then {#} else at_addr n"
    let ?v = "if is_reference i then {#} else at_addr v + sum_list (map owns cs)"
    have 0: "owned base (?v + (?n + add_mset a (?xs + B))) m"
      using less.prems by (simp add: Cons x ac_simps)
    have smaller: "size_list size cs < size_list size ns" "size_list size xs < size_list size ns"
      by (simp_all add: Cons x)
    have "frees base B (bindR (if is_reference i then Inr m else bindR (cJSON_Delete cs m) (free_unless_null v)) (\<lambda>m.
        bindR (if is_const_name i then Inr m else free_unless_null n m) (\<lambda>m.
        bindR (free_block a m) (cJSON_Delete xs))))"
    proof (rule frees_bind)
      show "frees base (?n + add_mset a (?xs + B)) (if is_reference i then Inr m else bindR (cJSON_Delete cs m) (free_unless_null v))"
      proof (cases "is_reference i")
        case True
        with 0 show ?thesis by (simp add: frees_done)
      next
        case False
        then have "owned base (sum_list (map owns cs) + (at_addr v + (?n + add_mset a (?xs + B)))) m"
          using 0 by (simp add: ac_simps)
        from less.hyps [OF smaller(1) this]
        have "frees base (?n + add_mset a (?xs + B)) (bindR (cJSON_Delete cs m) (free_unless_null v))"
          by (rule frees_bind) (rule frees_at_addr)
        with False show ?thesis by (simp only: if_False)
      qed
    next
      fix m assume o: "owned base (?n + add_mset a (?xs + B)) m"
      show "frees base B (bindR (if is_const_name i then Inr m else free_unless_null n m) (\<lambda>m. bindR (free_block a m) (cJSON_Delete xs)))"
      proof (rule frees_bind)
        show "frees base (add_mset a (?xs + B)) (if is_const_name i then Inr m else free_unless_null n m)"
          using o by (cases "is_const_name i") (simp_all add: frees_done frees_at_addr)
      next
        fix m assume "owned base (add_mset a (?xs + B)) m"
        then show "frees base B (bindR (free_block a m) (cJSON_Delete xs))"
          by (rule frees_bind [OF frees_block]) (rule less.hyps [OF smaller(2)])
      qed
    qed
    then show ?thesis using owned_read [OF 0, of a] by (simp add: Cons x)
  qed
qed

section \<open>The parser owns what it allocates\<close>

definition parse_sim :: "nat set \<Rightarrow> nat multiset \<Rightarrow> (jnode \<Rightarrow> 'a \<Rightarrow> bool) \<Rightarrow> 'a parsed res \<Rightarrow> mem_parsed \<Rightarrow> bool" where
  "parse_sim base B R ps r \<longleftrightarrow>
     (case ps of
        Inl e \<Rightarrow> r = Inl e
      | Inr NoFuel \<Rightarrow> r = Inr None
      | Inr (Failed ep) \<Rightarrow> \<exists>n m. r = Inr (Some (False, n, ep, m)) \<and> owned base (owns n + B) m
      | Inr (Parsed x ptr) \<Rightarrow> \<exists>n m. r = Inr (Some (True, n, ptr, m)) \<and> R n x \<and> owned base (owns n + B) m)"

lemma sim_fault [simp]: "parse_sim base B R (Inl e) (Inl e)"
  by (simp add: parse_sim_def)

lemma sim_no_fuel [simp]: "parse_sim base B R (Inr NoFuel) (Inr None)"
  by (simp add: parse_sim_def)

lemma sim_failed: "owned base (owns n + B) m \<Longrightarrow> parse_sim base B R (Inr (Failed ep)) (Inr (Some (False, n, ep, m)))"
  by (simp add: parse_sim_def)

lemma sim_parsed: "owned base (owns n + B) m \<Longrightarrow> R n x \<Longrightarrow> parse_sim base B R (Inr (Parsed x ptr)) (Inr (Some (True, n, ptr, m)))"
  by (simp add: parse_sim_def)

lemma sim_bind: "(\<And>x. r = Inr x \<Longrightarrow> parse_sim base B R (f x) (g x)) \<Longrightarrow> parse_sim base B R (bindR r f) (bindR r g)"
  by (cases r) simp_all

lemma sim_bindP:
  assumes "parse_sim base C Q ps r"
    and "\<And>n ep m. owned base (owns n + C) m \<Longrightarrow> parse_sim base B R (Inr (Failed ep)) (g (False, n, ep, m))"
    and "\<And>n x ptr m. Q n x \<Longrightarrow> owned base (owns n + C) m \<Longrightarrow> parse_sim base B R (f x ptr) (g (True, n, ptr, m))"
  shows "parse_sim base B R (bindP ps f) (bindF r g)"
proof (cases ps)
  case (Inl e)
  with assms(1) show ?thesis by (simp add: parse_sim_def bindF_def)
next
  case (Inr p)
  with assms show ?thesis by (cases p) (auto simp: parse_sim_def [of base C] bindF_def)
qed

text \<open>A node that is about to be filled: its flags are not set, and it has no value and no children.\<close>

definition fresh :: "jnode \<Rightarrow> bool" where
  "fresh n \<longleftrightarrow> \<not> is_reference (j_item n) \<and> \<not> is_const_name (j_item n) \<and> j_value n = None \<and> j_children n = []"

lemma no_flags: "t \<le> 6 \<Longrightarrow> \<not> is_reference (i\<lparr>item_type := t\<rparr>) \<and> \<not> is_const_name (i\<lparr>item_type := t\<rparr>)"
proof -
  assume "t \<le> 6"
  then have "t = 0 \<or> t = 1 \<or> t = 2 \<or> t = 3 \<or> t = 4 \<or> t = 5 \<or> t = 6" by arith
  then show ?thesis
    unfolding is_reference_def is_const_name_def cJSON_IsReference_def cJSON_StringIsConst_def
    by (elim disjE) simp_all
qed

lemma no_flags_type:
  "item_type i \<le> 6 \<Longrightarrow> \<not> is_reference i" "item_type i \<le> 6 \<Longrightarrow> \<not> is_const_name i"
  using no_flags [of "item_type i" i] by simp_all

lemma fresh_new: "new_item m = (c, m') \<Longrightarrow> fresh c \<and> j_item c = cJSON_New_Item"
  by (auto simp: new_item_def fresh_def cJSON_New_Item_def intro!: no_flags_type split: prod.splits)

lemma owned_new:
  assumes "owned base B m" and "new_item m = (c, m')"
  shows "owned base (owns c + B) m'"
  using owned_malloc [OF assms(1), of "j_addr c" m'] fresh_new [OF assms(2)] assms(2)
  by (auto simp: new_item_def fresh_def split: prod.splits)

lemma owns_add_child: "\<not> is_reference (j_item n) \<Longrightarrow> owns (add_child n c) = owns n + owns c"
  by (cases n) (simp add: add_child_def ac_simps)

lemma string_sim:
  assumes "fresh n" and "owned base (owns n + B) m"
  shows "parse_sim base B (\<lambda>n' i. item_type i = cJSON_String \<and> (\<exists>a. n' = JNode (j_addr n) i (Some a) (j_name n) []))
    (parse_string (j_item n) str) (parse_string_mem n str m)"
proof -
  obtain a i v nm cs where n: "n = JNode a i v nm cs" by (cases n)
  obtain b m' where m': "malloc_block m = (b, m')" by force
  show ?thesis
  proof (cases "parse_string (j_item n) str")
    case (Inl e)
    then show ?thesis by (simp add: parse_string_mem_def)
  next
    case (Inr r)
    show ?thesis
    proof (cases r)
      case (Failed ep)
      with Inr assms(2) show ?thesis by (simp add: parse_string_mem_def sim_failed)
    next
      case NoFuel
      with Inr show ?thesis by (simp add: parse_string_mem_def)
    next
      case (Parsed j ptr)
      with Inr have j: "item_type j = cJSON_String"
        by (auto simp: parse_string_def bindR_eq_Inr_iff split: if_splits prod.splits)
      then have "\<not> is_reference j" "\<not> is_const_name j" by (auto intro!: no_flags_type simp: cJSON_String_def)
      with owned_malloc [OF assms(2) m'] assms(1) have "owned base (owns (JNode a j (Some b) nm []) + B) m'"
        by (simp add: n fresh_def add_mset_commute)
      with Inr Parsed j m' assms(1) show ?thesis
        by (simp add: parse_string_mem_def n fresh_def parse_sim_def)
    qed
  qed
qed

lemma owns_set_item:
  "fresh n \<Longrightarrow> item_type i \<le> 6 \<Longrightarrow> owns (set_item n i) = owns n"
  by (cases n) (simp add: set_item_def fresh_def no_flags_type)

lemma number_sim:
  assumes "fresh n" and "owned base (owns n + B) m"
  shows "parse_sim base B (\<lambda>n' i. n' = set_item n i) (parse_number (j_item n) num) (parse_number_mem n num m)"
proof (cases "parse_number (j_item n) num")
  case (Inl e)
  then show ?thesis by (simp add: parse_number_mem_def)
next
  case (Inr r)
  show ?thesis
  proof (cases r)
    case (Parsed j ptr)
    with Inr have "item_type j = cJSON_Number"
      by (auto simp: parse_number_def bindR_eq_Inr_iff Let_def split: if_splits prod.splits)
    with Inr Parsed assms show ?thesis
      by (simp add: parse_number_mem_def sim_parsed owns_set_item cJSON_Number_def)
  qed (use Inr assms(2) in \<open>simp_all add: parse_number_mem_def sim_failed\<close>)
qed

text \<open>What is required of the parser of values, and what is shown of it\<close>

definition value_sim :: "nat set \<Rightarrow> value_parser \<Rightarrow> mem_parser \<Rightarrow> bool" where
  "value_sim base pv pvm \<longleftrightarrow>
     (\<forall>n value m B. fresh n \<longrightarrow> owned base (owns n + B) m \<longrightarrow>
        parse_sim base B (\<lambda>n' c. tree_of n' = c) (pv (j_item n) value) (pvm n value m))"

abbreviation children_sim :: "jnode \<Rightarrow> jnode \<Rightarrow> cJSON list \<Rightarrow> bool" where
  "children_sim n n' cs \<equiv>
     n' = JNode (j_addr n) (j_item n) (j_value n) (j_name n) (j_children n') \<and> map tree_of (j_children n') = cs"

lemma next_child_sim:
  assumes "\<not> is_reference (j_item n)" and "owned base (owns c + (owns n + B)) m"
    and "\<And>str. parse_sim base B (children_sim (add_child n c))
      (loop (map tree_of (j_children (add_child n c))) str) (loop_mem (add_child n c) str m)"
  shows "parse_sim base B (children_sim n)
    (bindR (skip ptr) (\<lambda>value. bindR (rd value 0) (\<lambda>d.
       if d = 44 then loop (map tree_of (j_children n) @ [tree_of c]) (drop 1 value)
       else if d = close then Inr (Parsed (map tree_of (j_children n) @ [tree_of c]) (drop 1 value))
       else Inr (Failed value))))
    (next_child_mem close loop_mem (add_child n c) ptr m)"
proof -
  have "owned base (owns (add_child n c) + B) m" using assms(1,2) by (simp add: owns_add_child ac_simps)
  with assms(3) show ?thesis
    unfolding next_child_mem_def
    by (intro sim_bind) (auto simp: add_child_def intro!: sim_failed sim_parsed)
qed

lemma elements_sim:
  assumes "value_sim base pv pvm" and "\<not> is_reference (j_item n)" and "owned base (owns n + B) m"
  shows "parse_sim base B (children_sim n) (parse_elements pv fuel (map tree_of (j_children n)) str)
    (parse_elements_mem pvm fuel n str m)"
  using assms(2,3)
proof (induction fuel arbitrary: n str m)
  case 0
  show ?case by simp
next
  case (Suc fuel)
  obtain c m1 where new: "new_item m = (c, m1)" by force
  have c: "fresh c" "j_item c = cJSON_New_Item" "owned base (owns c + (owns n + B)) m1"
    using fresh_new [OF new] owned_new [OF Suc.prems(2) new] by simp_all
  have added: "owned base (owns (add_child n c') + B) m'" "\<not> is_reference (j_item (add_child n c'))"
    if "owned base (owns c' + (owns n + B)) m'" for c' m'
    using that Suc.prems(1) by (simp_all add: owns_add_child ac_simps) (simp add: add_child_def)
  have sim: "parse_sim base (owns n + B) (\<lambda>n' c. tree_of n' = c) (pv cJSON_New_Item str) (pvm c str m1)" for str
    using assms(1) c unfolding value_sim_def by metis
  show ?case
    unfolding parse_elements.simps parse_elements_mem.simps new prod.case skipped_def
  proof (rule sim_bind, rule sim_bindP [OF sim], goal_cases)
    case (1 _ c' _ m')
    then show ?case by (simp add: sim_failed added)
  next
    case (2 _ c' _ _ m')
    then show ?case
      unfolding prod.case not_True_eq_False if_False
      by (simp only: 2(2) [symmetric]) (intro next_child_sim Suc.prems(1) Suc.IH added)
  qed
qed

lemma fresh_value_to_name:
  assumes "item_type j = cJSON_String" and "c' = JNode a j (Some b) None []"
  shows "fresh (value_to_name c')" "owns (value_to_name c') = owns c'"
    "j_item (value_to_name c') = j\<lparr>item_string := valuestring j, valuestring := None\<rparr>"
proof -
  have "item_type j \<le> 6" using assms(1) by (simp add: cJSON_String_def)
  moreover have "item_type (j\<lparr>item_string := valuestring j, valuestring := None\<rparr>) \<le> 6" using calculation by simp
  ultimately show "fresh (value_to_name c')" "owns (value_to_name c') = owns c'"
    "j_item (value_to_name c') = j\<lparr>item_string := valuestring j, valuestring := None\<rparr>"
    by (simp_all add: assms(2) value_to_name_def fresh_def no_flags_type)
qed

lemma members_sim:
  assumes "value_sim base pv pvm" and "\<not> is_reference (j_item n)" and "owned base (owns n + B) m"
  shows "parse_sim base B (children_sim n) (parse_members pv fuel (map tree_of (j_children n)) str)
    (parse_members_mem pvm fuel n str m)"
  using assms(2,3)
proof (induction fuel arbitrary: n str m)
  case 0
  show ?case by simp
next
  case (Suc fuel)
  obtain c m1 where new: "new_item m = (c, m1)" by force
  have c: "fresh c" "j_item c = cJSON_New_Item" "owned base (owns c + (owns n + B)) m1" "j_name c = None"
    using fresh_new [OF new] owned_new [OF Suc.prems(2) new] new by (auto simp: new_item_def split: prod.splits)
  have added: "owned base (owns (add_child n c') + B) m'" "\<not> is_reference (j_item (add_child n c'))"
    if "owned base (owns c' + (owns n + B)) m'" for c' m'
    using that Suc.prems(1) by (simp_all add: owns_add_child ac_simps) (simp add: add_child_def)
  show ?case
    unfolding parse_members.simps parse_members_mem.simps new prod.case skipped_def
  proof (rule sim_bind, rule sim_bindP [OF string_sim [OF c(1,3), unfolded c(2)]], goal_cases)
    case (1 _ c' _ m')
    then show ?case by (simp add: sim_failed added)
  next
    case (2 _ c' j _ m')
    then obtain a where "item_type j = cJSON_String" "c' = JNode (j_addr c) j (Some a) None []" using c(4) by auto
    note named = fresh_value_to_name [OF this]
    have o: "owned base (owns (value_to_name c') + (owns n + B)) m'" using 2(3) by (simp add: named(2))
    have sim: "parse_sim base (owns n + B) (\<lambda>n' c. tree_of n' = c)
        (pv (j\<lparr>item_string := valuestring j, valuestring := None\<rparr>) str) (pvm (value_to_name c') str m')" for str
      using assms(1) named(1,3) o unfolding value_sim_def by metis
    show ?case
      unfolding prod.case not_True_eq_False if_False Let_def
    proof (rule sim_bind, rule sim_bind, goal_cases)
      case (1 s d)
      show ?case
      proof (cases "d = 58")
        case False
        with added [OF o] show ?thesis by (simp add: sim_failed)
      next
        case True
        then have colon: "\<not> d \<noteq> 58" by simp
        show ?thesis unfolding if_not_P [OF colon]
        proof (rule sim_bind, rule sim_bindP [OF sim], goal_cases)
          case (1 _ c2 _ m2)
          then show ?case by (simp add: sim_failed added)
        next
          case (2 _ c2 _ _ m2)
          then show ?case
            unfolding prod.case not_True_eq_False if_False
            by (simp only: 2(2) [symmetric]) (intro next_child_sim Suc.prems(1) Suc.IH added)
        qed
      qed
    qed
  qed
qed

lemma bindP_Parsed: "bindP r (\<lambda>x rest. Inr (Parsed (f x) rest)) =
    bindR r (\<lambda>p. Inr (case p of Failed ep \<Rightarrow> Failed ep | NoFuel \<Rightarrow> NoFuel | Parsed x rest \<Rightarrow> Parsed (f x) rest))"
  by (cases r) (auto simp: bindP_def split: parsed.splits)

lemma sim_map:
  assumes "parse_sim base B Q ps r" and "\<And>n x. Q n x \<Longrightarrow> R n (f x)"
  shows "parse_sim base B R (bindP ps (\<lambda>x rest. Inr (Parsed (f x) rest))) r"
proof (cases ps)
  case (Inr p)
  with assms show ?thesis by (cases p) (auto simp: parse_sim_def)
qed (use assms(1) in \<open>simp add: parse_sim_def\<close>)

text \<open>An array or an object: the node gets its type, and then its children.\<close>

lemma set_type:
  assumes "fresh n" and "owned base (owns n + B) m" and "t \<le> 6"
  shows "owned base (owns (set_item n ((j_item n)\<lparr>item_type := t\<rparr>)) + B) m"
    "\<not> is_reference (j_item (set_item n ((j_item n)\<lparr>item_type := t\<rparr>)))"
    "j_children (set_item n ((j_item n)\<lparr>item_type := t\<rparr>)) = []"
proof -
  have "item_type ((j_item n)\<lparr>item_type := t\<rparr>) \<le> 6" using assms(3) by simp
  from owns_set_item [OF assms(1) this] assms(2)
  show "owned base (owns (set_item n ((j_item n)\<lparr>item_type := t\<rparr>)) + B) m" by (simp only:)
qed (use assms in \<open>simp_all add: no_flags set_item_def fresh_def\<close>)

lemma array_sim:
  assumes "value_sim base pv pvm" and "fresh n" and "owned base (owns n + B) m"
  shows "parse_sim base B (\<lambda>n' c. tree_of n' = c) (parse_array pv fuel (j_item n) str) (parse_array_mem pvm fuel n str m)"
proof -
  let ?i = "(j_item n)\<lparr>item_type := cJSON_Array\<rparr>"
  have n: "owned base (owns (set_item n ?i) + B) m" "\<not> is_reference (j_item (set_item n ?i))" "j_children (set_item n ?i) = []"
    using set_type [OF assms(2,3), of cJSON_Array] by (simp_all add: cJSON_Array_def)
  have tree: "tree_of n' = Node ?i cs" if "children_sim (set_item n ?i) n' cs" for n' cs
    using that by (cases n') (auto simp: set_item_def)
  have empty: "tree_of (set_item n ?i) = Node ?i []" using assms(2) by (cases n) (simp add: set_item_def fresh_def)
  have els: "parse_sim base B (\<lambda>n' c. tree_of n' = c)
      (bindP (parse_elements pv fuel [] str) (\<lambda>children value. Inr (Parsed (Node ?i children) value)))
      (parse_elements_mem pvm fuel (set_item n ?i) str m)" for str
    by (rule sim_map [OF elements_sim [OF assms(1) n(2,1), where fuel = fuel and str = str, unfolded n(3) list.map]]) (rule tree)
  show ?thesis
    unfolding parse_array_def parse_array_mem_def Let_def skipped_def
    by (rule sim_bind) (auto intro!: sim_bind sim_failed sim_parsed els n(1) assms(3) empty)
qed

lemma object_sim:
  assumes "value_sim base pv pvm" and "fresh n" and "owned base (owns n + B) m"
  shows "parse_sim base B (\<lambda>n' c. tree_of n' = c) (parse_object pv fuel (j_item n) str) (parse_object_mem pvm fuel n str m)"
proof -
  let ?i = "(j_item n)\<lparr>item_type := cJSON_Object\<rparr>"
  have n: "owned base (owns (set_item n ?i) + B) m" "\<not> is_reference (j_item (set_item n ?i))" "j_children (set_item n ?i) = []"
    using set_type [OF assms(2,3), of cJSON_Object] by (simp_all add: cJSON_Object_def)
  have tree: "tree_of n' = Node ?i cs" if "children_sim (set_item n ?i) n' cs" for n' cs
    using that by (cases n') (auto simp: set_item_def)
  have empty: "tree_of (set_item n ?i) = Node ?i []" using assms(2) by (cases n) (simp add: set_item_def fresh_def)
  have members: "parse_sim base B (\<lambda>n' c. tree_of n' = c)
      (bindP (parse_members pv fuel [] str) (\<lambda>children value. Inr (Parsed (Node ?i children) value)))
      (parse_members_mem pvm fuel (set_item n ?i) str m)" for str
    by (rule sim_map [OF members_sim [OF assms(1) n(2,1), where fuel = fuel and str = str, unfolded n(3) list.map]]) (rule tree)
  show ?thesis
    unfolding parse_object_def parse_object_mem_def Let_def skipped_def
    by (rule sim_bind) (auto intro!: sim_bind sim_failed sim_parsed members n(1) assms(3) empty)
qed

lemma parser_sim: "value_sim base (parse_value fuel) (parse_value_mem fuel)"
proof (induction fuel)
  case 0
  show ?case by (simp add: value_sim_def)
next
  case (Suc fuel)
  show ?case unfolding value_sim_def
  proof (intro allI impI)
    fix n str m B assume n: "fresh n" "owned base (owns n + B) m"
    have plain_value: "parse_sim base B (\<lambda>n' c. tree_of n' = c) (Inr (Parsed (Node i []) ptr)) (Inr (Some (True, set_item n i, ptr, m)))"
      if "item_type i \<le> 6" for i ptr
      using n that by (intro sim_parsed) (simp_all add: owns_set_item, cases n, simp add: set_item_def fresh_def)
    have string: "parse_sim base B (\<lambda>n' c. tree_of n' = c)
        (bindP (parse_string (j_item n) str) (\<lambda>item value. Inr (Parsed (Node item []) value))) (parse_string_mem n str m)"
      by (rule sim_map [OF string_sim [OF n]]) auto
    have number: "parse_sim base B (\<lambda>n' c. tree_of n' = c)
        (bindP (parse_number (j_item n) str) (\<lambda>item value. Inr (Parsed (Node item []) value))) (parse_number_mem n str m)"
      by (rule sim_map [OF number_sim [OF n]]) (use n(1) in \<open>cases n, simp add: set_item_def fresh_def\<close>)
    note parts = plain_value string number array_sim [OF Suc.IH n] object_sim [OF Suc.IH n] sim_failed [OF n(2)]
    show "parse_sim base B (\<lambda>n' c. tree_of n' = c) (parse_value (Suc fuel) (j_item n) str) (parse_value_mem (Suc fuel) n str m)"
      unfolding parse_value.simps parse_value_mem.simps
    proof (rule sim_bind, goal_cases)
      case (1 b)
      then show ?case
        by (cases b) (auto simp: type_codes intro!: sim_bind parts)
    qed
  qed
qed

interpretation jt: tree_memory owns "\<lambda>n. cJSON_Delete [n]"
  by unfold_locales (simp add: delete_frees)

section \<open>References and constant names\<close>

lemma is_reference_flag: "is_reference (i\<lparr>item_string := s, item_type := item_type i OR cJSON_IsReference\<rparr>)"
proof -
  have "bit ((item_type i OR cJSON_IsReference) AND cJSON_IsReference) 8"
    by (simp add: bit_simps cJSON_IsReference_def)
  then have "(item_type i OR cJSON_IsReference) AND cJSON_IsReference \<noteq> 0" by (metis bit_0_eq bot_apply bot_bool_def)
  then show ?thesis by (simp add: is_reference_def)
qed

lemma owns_reference:
  assumes "create_reference n m = (r, m')" and "owned base B m"
  shows "owned base (owns r + B) m'" "owns r = {#j_addr r#}"
proof -
  obtain a where "malloc_block m = (a, m')" "r = JNode a ((j_item n)\<lparr>item_string := None, item_type := item_type (j_item n) OR cJSON_IsReference\<rparr>)
      (j_value n) None (j_children n)"
    using assms(1) by (auto simp: create_reference_def split: prod.splits)
  with owned_malloc [OF assms(2)] is_reference_flag [of "j_item n" None]
  show "owned base (owns r + B) m'" "owns r = {#j_addr r#}" by auto
qed

text \<open>
  The name that \<open>cJSON_AddItemToObjectCS\<close> sets is freed when the item is added again with
  \<open>cJSON_AddItemToObject\<close>, although it is not a block.
\<close>

lemma constant_name_is_freed:
  assumes "add_item_to_object_cs ob addr string n m = Inr (ob', m')" and "addr \<notin> live m"
  shows "add_item_to_object ob2 string2 (last (j_children ob')) m' = Inl UseAfterFree"
proof -
  have "live m' \<subseteq> live m"
    using assms(1) by (auto simp: add_item_to_object_cs_def bindR_eq_Inr_iff free_unless_null_def free_block_def
      split: if_splits option.splits)
  then have "addr \<notin> live m'" using assms(2) by blast
  with assms(1) show ?thesis
    by (auto simp: add_item_to_object_cs_def add_child_def add_item_to_object_def free_unless_null_def free_block_def
      bindR_eq_Inr_iff)
qed

section \<open>Properties\<close>

text \<open>
  C15: Parsing leaks nothing. Let the escapes of a terminated text be complete. When \<open>cJSON_ParseWithOpts\<close> returns a null pointer,
  at whatever place the text is wrong and however deep the tree was then, all memory that it has allocated is free
  again; when it returns a tree, \<open>cJSON_Delete\<close> frees its nodes, names and strings, each once, and
  then everything is free again.
\<close>

theorem cJSON_Parse_memory:
  assumes "text_ok json" and "length json < fuel" and "memory_ok m"
  shows "\<exists>d m'. cJSON_ParseWithOpts_mem fuel json require_null_terminated m = Inr (Some (d, m')) \<and>
    (case d of
       None \<Rightarrow> (\<exists>ep. cJSON_ParseWithOpts fuel json require_null_terminated = Inr (Failed ep)) \<and> live m' = live m
     | Some n \<Rightarrow> (\<exists>rest. cJSON_ParseWithOpts fuel json require_null_terminated = Inr (Parsed (tree_of n) rest)) \<and>
         (\<exists>m''. cJSON_Delete [n] m' = Inr m'' \<and> live m'' = live m))"
proof -
  obtain r where plain: "cJSON_ParseWithOpts fuel json require_null_terminated = Inr r" "r \<noteq> NoFuel"
    using parse_memory_safe [OF assms(1,2)] by force
  obtain c m1 where new: "new_item m = (c, m1)" by force
  have c: "fresh c" "j_item c = cJSON_New_Item" "owned (live m) (owns c + {#}) m1"
    using fresh_new [OF new] owned_new [OF owned_start [OF assms(3)] new] by simp_all
  obtain s where s: "skip json = Inr s"
    using plain(1) by (auto simp: cJSON_ParseWithOpts_def skipped_def bindR_eq_Inr_iff)
  have "parse_sim (live m) {#} (\<lambda>n' c. tree_of n' = c) (parse_value fuel cJSON_New_Item s) (parse_value_mem fuel c s m1)"
    using parser_sim [of "live m" fuel] c unfolding value_sim_def by metis
  then consider ep n m2 where "parse_value fuel cJSON_New_Item s = Inr (Failed ep)"
      "parse_value_mem fuel c s m1 = Inr (Some (False, n, ep, m2))" "owned (live m) (owns n) m2"
    | rest n m2 where "parse_value fuel cJSON_New_Item s = Inr (Parsed (tree_of n) rest)"
      "parse_value_mem fuel c s m1 = Inr (Some (True, n, rest, m2))" "owned (live m) (owns n) m2"
    using plain s by (auto simp: parse_sim_def cJSON_ParseWithOpts_def skipped_def split: sum.splits parsed.splits)
  then show ?thesis
  proof cases
    case 1
    with jt.free_alone [OF 1(3)] s new show ?thesis
      by (auto simp: cJSON_ParseWithOpts_def cJSON_ParseWithOpts_mem_def skipped_def bindF_def)
  next
    case 2
    from jt.free_alone [OF 2(3)] obtain m3 where m3: "cJSON_Delete [n] m2 = Inr m3" "live m3 = live m" by blast
    show ?thesis
    proof (cases require_null_terminated)
      case False
      with 2 m3 s new show ?thesis
        by (auto simp: cJSON_ParseWithOpts_def cJSON_ParseWithOpts_mem_def skipped_def bindF_def)
    next
      case True
      with 2 s plain(1) obtain q d where "skip rest = Inr q" "rd q 0 = Inr d"
        by (auto simp: cJSON_ParseWithOpts_def skipped_def bindR_eq_Inr_iff)
      with True 2 m3 s new show ?thesis
        by (cases "d = 0") (auto simp: cJSON_ParseWithOpts_def cJSON_ParseWithOpts_mem_def skipped_def bindF_def)
    qed
  qed
qed

text \<open>A text that is wrong after an object with a name, an array and a string has been begun\<close>

definition broken_text :: "byte list" where
  "broken_text = [123, 34, 97, 34, 58, 91, 49, 44, 34, 98, 34, 44, 125, 0]"

theorem cJSON_Parse_memory_witness:
  "\<exists>m'. cJSON_ParseWithOpts_mem 100 broken_text False \<lparr>live = {}, next_block = 0\<rparr> = Inr (Some (None, m')) \<and> live m' = {}"
proof -
  have "case cJSON_ParseWithOpts 100 broken_text False of Inr (Failed ep) \<Rightarrow> True | _ \<Rightarrow> False" by code_simp
  moreover have "text_ok broken_text" "length broken_text < 100" by code_simp+
  then obtain d m' where
    "cJSON_ParseWithOpts_mem 100 broken_text False \<lparr>live = {}, next_block = 0\<rparr> = Inr (Some (d, m'))"
    "case d of
       None \<Rightarrow> (\<exists>ep. cJSON_ParseWithOpts 100 broken_text False = Inr (Failed ep)) \<and> live m' = live \<lparr>live = {}, next_block = 0\<rparr>
     | Some n \<Rightarrow> (\<exists>rest. cJSON_ParseWithOpts 100 broken_text False = Inr (Parsed (tree_of n) rest)) \<and>
         (\<exists>m''. cJSON_Delete [n] m' = Inr m'' \<and> live m'' = live \<lparr>live = {}, next_block = 0\<rparr>)"
    using cJSON_Parse_memory [of broken_text 100 "\<lparr>live = {}, next_block = 0\<rparr>" False] by (auto simp: memory_ok_def)
  ultimately show ?thesis by (cases d) auto
qed

text \<open>
  A reference does not own. Let a reference to a node be added to an array. Then the array and the node can be
  deleted in either order; deleting the array leaves every block of the node, and after both nothing is left of
  them and nothing has been freed twice.
\<close>

theorem cJSON_reference_borrows:
  assumes "owned base (owns arr + owns n) m" and "\<not> is_reference (j_item arr)"
    and "cJSON_AddItemReferenceToArray arr n m = (arr', m1)"
  shows "(\<exists>m2 m3. cJSON_Delete [arr'] m1 = Inr m2 \<and> live m2 = base \<union> set_mset (owns n) \<and>
      cJSON_Delete [n] m2 = Inr m3 \<and> live m3 = base) \<and>
    (\<exists>m2 m3. cJSON_Delete [n] m1 = Inr m2 \<and> cJSON_Delete [arr'] m2 = Inr m3 \<and> live m3 = base)"
proof -
  obtain r where r: "create_reference n m = (r, m1)" "arr' = add_child arr r"
    using assms(3) by (auto simp: cJSON_AddItemReferenceToArray_def split: prod.splits)
  have o: "owned base (owns arr' + owns n) m1"
    using owns_reference(1) [OF r(1) assms(1)] assms(2) r(2) by (simp add: owns_add_child ac_simps)
  moreover have "owned base (owns n + owns arr') m1" using o by (simp add: ac_simps)
  ultimately show ?thesis using jt.free_two by meson
qed

text \<open>A string, and an array that is empty\<close>

theorem cJSON_reference_borrows_witness:
  "let arr = JNode 0 (cJSON_New_Item\<lparr>item_type := cJSON_Array\<rparr>) None None [];
       n = JNode 1 (cJSON_New_Item\<lparr>item_type := cJSON_String, valuestring := Some [98, 0]\<rparr>) (Some 2) None []
   in case cJSON_AddItemReferenceToArray arr n \<lparr>live = {0, 1, 2}, next_block = 3\<rparr> of (arr', m1) \<Rightarrow>
        \<exists>m2 m3. cJSON_Delete [n] m1 = Inr m2 \<and> cJSON_Delete [arr'] m2 = Inr m3 \<and> live m3 = {}"
proof -
  let ?arr = "JNode 0 (cJSON_New_Item\<lparr>item_type := cJSON_Array\<rparr>) None None []"
  let ?n = "JNode 1 (cJSON_New_Item\<lparr>item_type := cJSON_String, valuestring := Some [98, 0]\<rparr>) (Some 2) None []"
  let ?m = "\<lparr>live = {0, 1, 2}, next_block = 3\<rparr>"
  have flags: "\<not> is_reference (j_item ?arr)" "\<not> is_reference (j_item ?n)" "\<not> is_const_name (j_item ?arr)" "\<not> is_const_name (j_item ?n)"
    by (simp_all add: no_flags_type cJSON_Array_def cJSON_String_def)
  then have o: "owned {} (owns ?arr + owns ?n) ?m" by (auto simp: owned_def)
  obtain arr' m1 where new: "cJSON_AddItemReferenceToArray ?arr ?n ?m = (arr', m1)" by force
  from cJSON_reference_borrows [OF o flags(1) new] show ?thesis unfolding Let_def new prod.case by (elim conjE)
qed

end
