(* ===== verification/SoapMemory.thy ===== *)
theory SoapMemory
  imports Soap XmlMemory
begin

text \<open>
  The memory of a response (\<open>get_soap_content\<close> and \<open>analysis_soap_response\<close> in \<^verbatim>\<open>proxy_server/xml/analysis_soap.c\<close>): the
  document that is parsed, the copy of the name of a node, and what is freed on which path. What is read from the
  response is as in \<open>Soap\<close>.
\<close>

section \<open>The functions\<close>

text \<open>
  While a document is allocated its nodes may be read; a reading function of the source reads some of them, the
  model checks all of them before.
\<close>

fun read_hnode :: "hnode \<Rightarrow> memory \<Rightarrow> unit res"
  and read_hnodes :: "hnode list \<Rightarrow> memory \<Rightarrow> unit res" where
  "read_hnode (HNode a name content arr cells) m =
     bindR (read_block a m) (\<lambda>_.
     bindR (read_block (fst name) m) (\<lambda>_.
     bindR (case content of None \<Rightarrow> Inr () | Some c \<Rightarrow> read_block (fst c) m) (\<lambda>_.
     bindR (read_block arr m) (\<lambda>_. read_hnodes cells m))))"
| "read_hnodes [] m = Inr ()"
| "read_hnodes (c # cells) m = bindR (read_hnode c m) (\<lambda>_. read_hnodes cells m)"

text \<open>
  The two branches of \<open>get_soap_content\<close>: no length after an early return, and \<open>content\<close>. The copy of the
  name is an object of its own.
\<close>

definition result_content_mem :: "xml_node \<Rightarrow> byte list \<Rightarrow> memory \<Rightarrow> ((int option \<times> byte list) \<times> memory) res" where
  "result_content_mem body_node content m =
     (case xml_node_child body_node 0 of
        None \<Rightarrow> Inr ((None, content), m)
      | Some rsp_node \<Rightarrow>
          (case xml_node_child rsp_node 0 of
             None \<Rightarrow> Inr ((None, content), m)
           | Some rst_node \<Rightarrow> (case malloc_block m of (sznode_name, m) \<Rightarrow>
               bindR (name_is rst_node ''result'') (\<lambda>b.
               bindR (if b then copy_content rst_node content else Inr (0, content)) (\<lambda>(len, content).
               bindR (free_block sznode_name m) (\<lambda>m. Inr ((Some len, content), m)))))))"

definition fault_content_mem :: "xml_node \<Rightarrow> byte list \<Rightarrow> memory \<Rightarrow> ((int option \<times> byte list) \<times> memory) res" where
  "fault_content_mem body_node content m =
     (case xml_node_child body_node 0 of
        None \<Rightarrow> Inr ((None, content), m)
      | Some fault_node \<Rightarrow>
          (case (case xml_node_child fault_node 2 of Some n \<Rightarrow> Some n | None \<Rightarrow> xml_node_child fault_node 1) of
             None \<Rightarrow> Inr ((None, content), m)
           | Some detail_node \<Rightarrow> (case malloc_block m of (sznode_name, m) \<Rightarrow>
               bindR (name_is detail_node ''faultstring'') (\<lambda>f.
               bindR (if f then Inr True else name_is detail_node ''detail'') (\<lambda>b.
               bindR (if b then copy_content detail_node content else Inr (0, content)) (\<lambda>(len, content).
               bindR (free_block sznode_name m) (\<lambda>m. Inr ((Some len, content), m))))))))"

text \<open>
  The text is an array of the caller: its address is stored in the document and not used. The
  early returns leave the document as it is.
\<close>

definition get_soap_content_mem :: "byte list \<Rightarrow> bool \<Rightarrow> byte list \<Rightarrow> memory \<Rightarrow> ((nat \<times> byte list) \<times> memory) res" where
  "get_soap_content_mem soap isOK content m =
     bindR (strlen soap) (\<lambda>n.
     bindR (strncpy (replicate MAX_BUF_SIZE 0) 0 soap n) (\<lambda>szBuf.
     bindR (xml_parse_document_mem (2 * n) soap 0 n m) (\<lambda>r.
     case r of
       Some (Some document, m) \<Rightarrow>
         bindR (read_block (document_addr document) m) (\<lambda>_.
         bindR (read_hnode (root_node document) m) (\<lambda>_.
         case xml_node_child (erase (root_node document)) 0 of
           None \<Rightarrow> Inr ((to_size_t (-1), content), m)
         | Some body_node \<Rightarrow>
             bindR ((if isOK then result_content_mem else fault_content_mem) body_node content m) (\<lambda>((len, content), m).
               case len of
                 None \<Rightarrow> Inr ((to_size_t (-1), content), m)
               | Some len \<Rightarrow> bindR (xml_document_free document False m) (\<lambda>m. Inr ((to_size_t len, content), m)))))
     | Some (None, m) \<Rightarrow> Inr ((to_size_t (-1), content), m)
     | None \<Rightarrow> Inr ((to_size_t (-1), content), m))))"

definition analysis_soap_response_mem ::
    "byte list option \<Rightarrow> nat \<Rightarrow> byte list \<Rightarrow> nat \<Rightarrow> memory \<Rightarrow> ((bool \<times> byte list \<times> nat) \<times> memory) res" where
  "analysis_soap_response_mem rsp rsp_len rst rst_len m =
     (if rsp = None \<or> rst_len = 0 then Inr ((False, rst, rst_len), m)
      else bindR (memcpy rst 0 (replicate rst_len 0) rst_len) (\<lambda>rst.
        let soap = replicate (MAX_BUF_SIZE * 3) 0; http_header = replicate MAX_BUF_SIZE 0
        in bindR (partition_response rsp rsp_len http_header soap) (\<lambda>(ok, http_header, soap).
           if \<not> ok then Inr ((False, rst, rst_len), m)
           else bindR (strlen http_header) (\<lambda>n.
                bindR (get_http_status http_header n) (\<lambda>isOpOK.
                bindR (get_soap_content_mem soap isOpOK (replicate (MAX_BUF_SIZE * 4) 0) m) (\<lambda>((size, content), m).
                if size > 0 \<and> size \<le> rst_len
                then bindR (strncpy rst 0 content size) (\<lambda>rst. Inr ((isOpOK, rst, size), m))
                else Inr ((isOpOK, rst, rst_len), m)))))))"

section \<open>What is left\<close>

text \<open>The node whose text is the result, or the message of the fault; and the number of blocks of a node\<close>

definition soap_element :: "xml_node \<Rightarrow> bool \<Rightarrow> xml_node option" where
  "soap_element root isOK =
     (case xml_node_child root 0 of
        None \<Rightarrow> None
      | Some body_node \<Rightarrow>
          (case xml_node_child body_node 0 of
             None \<Rightarrow> None
           | Some n \<Rightarrow>
               if isOK then xml_node_child n 0
               else (case xml_node_child n 2 of Some d \<Rightarrow> Some d | None \<Rightarrow> xml_node_child n 1)))"

fun node_blocks :: "xml_node \<Rightarrow> nat" where
  "node_blocks (XmlNode name content children) =
     3 + (if content = None then 0 else 1) + sum_list (map node_blocks children)"

text \<open>The blocks that are left of a response: those of the document, when it has no such node\<close>

definition content_leaks :: "byte list \<Rightarrow> bool \<Rightarrow> nat" where
  "content_leaks soap isOK =
     (case strlen soap of
        Inl _ \<Rightarrow> 0
      | Inr n \<Rightarrow>
          (case xml_parse_document (2 * n) soap n of
             Inr (Some (Some document)) \<Rightarrow>
               if soap_element (xml_document_root document) isOK = None
               then node_blocks (xml_document_root document) + 1 else 0
           | _ \<Rightarrow> 0))"

definition response_leaks :: "byte list \<Rightarrow> nat \<Rightarrow> nat" where
  "response_leaks rsp rsp_len =
     (case partition_response (Some rsp) rsp_len (replicate MAX_BUF_SIZE 0) (replicate (MAX_BUF_SIZE * 3) 0) of
        Inr (True, http_header, soap) \<Rightarrow>
          (case bindR (strlen http_header) (get_http_status http_header) of
             Inr isOpOK \<Rightarrow> content_leaks soap isOpOK
           | Inl _ \<Rightarrow> 0)
      | _ \<Rightarrow> 0)"

lemma size_blocks: "size (blocks h) = node_blocks (erase h)"
proof (induction h)
  case (HNode a name content arr cells)
  have "size (sum_list (map blocks cells)) = sum_list (map (\<lambda>h. node_blocks (erase h)) cells)"
    using HNode by (induction cells) auto
  then show ?case by (cases content) (simp_all add: comp_def)
qed

lemma read_hnode_ok:
  "owned base (blocks h + B) m \<Longrightarrow> read_hnode h m = Inr ()"
  "owned base (sum_list (map blocks hs) + B) m \<Longrightarrow> read_hnodes hs m = Inr ()"
proof (induction h m and hs m arbitrary: B and B rule: read_hnode_read_hnodes.induct)
  case (1 a name content arr cells m)
  from "1.prems" have "owned base (sum_list (map blocks cells) + ({#a, fst name, arr#} + held content + B)) m"
    by (simp add: ac_simps add_mset_commute)
  from "1.IH" [OF _ _ _ _ this] owned_read [OF "1.prems"] show ?case
    by (cases content) auto
next
  case (2 m)
  show ?case by simp
next
  case (3 c cells m)
  have "owned base (blocks c + (sum_list (map blocks cells) + B)) m"
    "owned base (sum_list (map blocks cells) + (blocks c + B)) m" using "3.prems" by (simp_all add: ac_simps)
  with "3.IH" show ?case by simp
qed

text \<open>The branches: an early return is one without the node, and leaves nothing of its own.\<close>

definition early_post :: "nat set \<Rightarrow> nat multiset \<Rightarrow> (int \<times> byte list) res \<Rightarrow> bool \<Rightarrow> ((int option \<times> byte list) \<times> memory) res \<Rightarrow> bool" where
  "early_post base B plain early r \<longleftrightarrow>
     (case plain of
        Inl e \<Rightarrow> r = Inl e
      | Inr (n, content) \<Rightarrow> \<exists>m. r = Inr ((if early then None else Some n, content), m) \<and> (early \<longrightarrow> n = -1) \<and> owned base B m)"

lemma name_copy_post:
  assumes "owned base B m" and "malloc_block m = (a, m')"
  shows "early_post base B p False (bindR p (\<lambda>(len, content). bindR (free_block a m') (\<lambda>m. Inr ((Some len, content), m))))"
proof -
  from frees_block [OF owned_malloc [OF assms]] obtain m2 where "free_block a m' = Inr m2" "owned base B m2"
    by (auto simp: frees_def)
  then show ?thesis by (cases p) (auto simp: early_post_def)
qed

lemma early_post_step:
  "(\<And>x. p = Inr x \<Longrightarrow> early_post base B (f x) early (g x)) \<Longrightarrow> early_post base B (bindR p f) early (bindR p g)"
  by (cases p) (simp_all add: early_post_def)

lemma content_early: "owned base B m \<Longrightarrow> early_post base B (Inr (-1, content)) True (Inr ((None, content), m))"
  by (simp add: early_post_def)

lemma result_content_post:
  assumes "owned base B m"
  shows "early_post base B (result_content body content)
    ((case xml_node_child body 0 of None \<Rightarrow> None | Some n \<Rightarrow> xml_node_child n 0) = None) (result_content_mem body content m)"
proof -
  obtain a m' where m': "malloc_block m = (a, m')" by force
  show ?thesis
    by (auto simp: result_content_def result_content_mem_def m' content_early [OF assms] split: option.split
      intro!: early_post_step name_copy_post [OF assms m'])
qed

lemma fault_content_post:
  assumes "owned base B m"
  shows "early_post base B (fault_content body content)
    ((case xml_node_child body 0 of
        None \<Rightarrow> None
      | Some n \<Rightarrow> (case xml_node_child n 2 of Some d \<Rightarrow> Some d | None \<Rightarrow> xml_node_child n 1)) = None) (fault_content_mem body content m)"
proof -
  obtain a m' where m': "malloc_block m = (a, m')" by force
  show ?thesis
    by (auto simp: fault_content_def fault_content_mem_def m' content_early [OF assms] split: option.split
      intro!: early_post_step name_copy_post [OF assms m'])
qed

lemma branch_post:
  assumes "owned base B m" and "xml_node_child root 0 = Some body"
  shows "early_post base B ((if isOK then result_content else fault_content) body content)
    (soap_element root isOK = None) ((if isOK then result_content_mem else fault_content_mem) body content m)"
  using result_content_post [OF assms(1), of body content] fault_content_post [OF assms(1), of body content] assms(2)
  by (cases isOK; cases "xml_node_child body 0") (simp_all add: soap_element_def)

lemma strlen_inside: "strlen s = Inr n \<Longrightarrow> n < length s"
  by (induction s arbitrary: n) (auto simp: bindR_eq_Inr_iff split: if_splits)

lemma content_leaves:
  assumes "owned base B m"
  shows "leaves base B (get_soap_content soap isOK content) (content_leaks soap isOK) (get_soap_content_mem soap isOK content m)"
  unfolding get_soap_content_def get_soap_content_mem_def
proof (rule leaves_step, rule leaves_step)
  fix n szBuf assume n: "strlen soap = Inr n"
  obtain d m' where d: "xml_parse_document_mem (2 * n) soap 0 n m = Inr (Some (d, m'))"
      "xml_parse_document (2 * n) soap n = Inr (Some (map_option (document_of soap n) d))"
    and own: "case d of None \<Rightarrow> owned base B m' | Some d \<Rightarrow> owned base (add_mset (document_addr d) (blocks (root_node d) + B)) m'"
    using parse_document_owns [OF assms strlen_inside [OF n] order_refl, of 0] by (fastforce split: option.splits)
  let ?plain = "bindR (xml_parse_document (2 * n) soap n) (\<lambda>r. bindR (case r of
         Some (Some document) \<Rightarrow>
           (case xml_node_child (xml_document_root document) 0 of
              None \<Rightarrow> Inr (-1, content)
            | Some body_node \<Rightarrow>
                if isOK then result_content body_node content else fault_content body_node content)
       | _ \<Rightarrow> Inr (-1, content)) (\<lambda>(size, content). Inr (to_size_t size, content)))"
  let ?mem = "bindR (xml_parse_document_mem (2 * n) soap 0 n m) (\<lambda>r. case r of
       Some (Some document, m) \<Rightarrow>
         bindR (read_block (document_addr document) m) (\<lambda>_.
         bindR (read_hnode (root_node document) m) (\<lambda>_.
         case xml_node_child (erase (root_node document)) 0 of
           None \<Rightarrow> Inr ((to_size_t (-1), content), m)
         | Some body_node \<Rightarrow>
             bindR ((if isOK then result_content_mem else fault_content_mem) body_node content m) (\<lambda>((len, content), m).
               case len of
                 None \<Rightarrow> Inr ((to_size_t (-1), content), m)
               | Some len \<Rightarrow> bindR (xml_document_free document False m) (\<lambda>m. Inr ((to_size_t len, content), m)))))
     | Some (None, m) \<Rightarrow> Inr ((to_size_t (-1), content), m)
     | None \<Rightarrow> Inr ((to_size_t (-1), content), m))"
  show "leaves base B ?plain (content_leaks soap isOK) ?mem"
  proof (cases d)
    case None
    with d n own show ?thesis by (simp add: content_leaks_def leaves_none)
  next
    case (Some h)
    let ?root = "erase (root_node h)" and ?D = "add_mset (document_addr h) (blocks (root_node h))"
    have o: "owned base (?D + B) m'" using own Some by simp
    then have read: "read_block (document_addr h) m' = Inr ()" "read_hnode (root_node h) m' = Inr ()"
      using owned_read [OF o] read_hnode_ok(1) [of base "root_node h" "add_mset (document_addr h) B"] by (simp_all add: ac_simps)
    have doc: "xml_parse_document (2 * n) soap n = Inr (Some (Some (document_of soap n h)))"
      "xml_document_root (document_of soap n h) = ?root"
      using d(2) Some by (simp_all add: xml_document_root_def document_of_def)
    have k: "content_leaks soap isOK = (if soap_element ?root isOK = None then size ?D else 0)"
      using n doc by (simp add: content_leaks_def size_blocks)
    show ?thesis
    proof (cases "xml_node_child ?root 0")
      case None
      then have "content_leaks soap isOK = size ?D" by (simp add: k soap_element_def)
      with leaves_result [OF o, of "Suc (size (blocks (root_node h)))"] None d(1) Some doc read show ?thesis by simp
    next
      case (Some body)
      note post = branch_post [OF o Some, of isOK content]
      show ?thesis
      proof (cases "(if isOK then result_content else fault_content) body content")
        case (Inl e)
        with post Some \<open>d = Some h\<close> d(1) doc read show ?thesis by (cases isOK) (simp_all add: early_post_def)
      next
        case (Inr x)
        obtain len result_text where x: "x = (len, result_text)" by force
        with post Inr obtain m2 where m2: "(if isOK then result_content_mem else fault_content_mem) body content m' =
            Inr ((if soap_element ?root isOK = None then None else Some len, result_text), m2)"
          "soap_element ?root isOK = None \<longrightarrow> len = -1" "owned base (?D + B) m2"
          by (auto simp: early_post_def)
        from document_frees [of base h False B m2] m2(3) obtain m3 where
          m3: "xml_document_free h False m2 = Inr m3" "owned base B m3" by (auto simp: frees_def)
        show ?thesis
          using k m2 m3 Inr x Some \<open>d = Some h\<close> d(1) doc read
          leaves_result [OF m2(3), of "Suc (size (blocks (root_node h)))"]
          by (cases isOK; cases "soap_element ?root isOK = None") (auto simp: leaves_none)
      qed
    qed
  qed
qed

lemma response_leaves:
  assumes "owned base B m"
  shows "leaves base B (analysis_soap_response (Some rsp) rsp_len rst rst_len)
    (if rst_len = 0 then 0 else response_leaks rsp rsp_len) (analysis_soap_response_mem (Some rsp) rsp_len rst rst_len m)"
proof (cases "rst_len = 0")
  case True
  with assms show ?thesis by (simp add: analysis_soap_response_def analysis_soap_response_mem_def leaves_none)
next
  case False
  let ?part = "partition_response (Some rsp) rsp_len (replicate MAX_BUF_SIZE 0) (replicate (MAX_BUF_SIZE * 3) 0)"
  have go: "leaves base B
      (if \<not> ok then Inr (False, rst, rst_len)
       else bindR (strlen http_header) (\<lambda>n. bindR (get_http_status http_header n) (\<lambda>isOpOK.
            bindR (get_soap_content soap isOpOK (replicate (MAX_BUF_SIZE * 4) 0)) (\<lambda>(size, content).
            if size > 0 \<and> size \<le> rst_len then bindR (strncpy rst 0 content size) (\<lambda>rst. Inr (isOpOK, rst, size))
            else Inr (isOpOK, rst, rst_len)))))
      (response_leaks rsp rsp_len)
      (if \<not> ok then Inr ((False, rst, rst_len), m)
       else bindR (strlen http_header) (\<lambda>n. bindR (get_http_status http_header n) (\<lambda>isOpOK.
            bindR (get_soap_content_mem soap isOpOK (replicate (MAX_BUF_SIZE * 4) 0) m) (\<lambda>((size, content), m).
            if size > 0 \<and> size \<le> rst_len then bindR (strncpy rst 0 content size) (\<lambda>rst. Inr ((isOpOK, rst, size), m))
            else Inr ((isOpOK, rst, rst_len), m)))))"
    if part: "?part = Inr (ok, http_header, soap)" for ok http_header soap rst
  proof (cases ok)
    case False
    with assms part show ?thesis by (simp add: response_leaks_def leaves_none)
  next
    case True
    then have "\<not> \<not> ok" by simp
    show ?thesis unfolding if_not_P [OF \<open>\<not> \<not> ok\<close>]
    proof (rule leaves_step, rule leaves_step)
      fix n isOpOK assume "strlen http_header = Inr n" "get_http_status http_header n = Inr isOpOK"
      with part True have k: "response_leaks rsp rsp_len = content_leaks soap isOpOK + 0" by (simp add: response_leaks_def)
      show "leaves base B
          (bindR (get_soap_content soap isOpOK (replicate (MAX_BUF_SIZE * 4) 0)) (\<lambda>(size, content).
            if size > 0 \<and> size \<le> rst_len then bindR (strncpy rst 0 content size) (\<lambda>rst. Inr (isOpOK, rst, size))
            else Inr (isOpOK, rst, rst_len)))
          (response_leaks rsp rsp_len)
          (bindR (get_soap_content_mem soap isOpOK (replicate (MAX_BUF_SIZE * 4) 0) m) (\<lambda>((size, content), m).
            if size > 0 \<and> size \<le> rst_len then bindR (strncpy rst 0 content size) (\<lambda>rst. Inr ((isOpOK, rst, size), m))
            else Inr ((isOpOK, rst, rst_len), m)))"
        unfolding k by (rule leaves_bind [OF content_leaves [OF assms]]) (auto intro!: leaves_step leaves_none)
    qed
  qed
  show ?thesis
    unfolding analysis_soap_response_def analysis_soap_response_mem_def Let_def using False
    by (auto intro!: leaves_step go)
qed

section \<open>Properties\<close>

text \<open>
  C17: What is left of a response. \<open>get_soap_content_mem\<close> has the fault or the result of \<open>get_soap_content\<close>. It frees
  nothing but what it has allocated, nothing twice, and reads nothing that it has freed. When the document has the element
  that is asked for, or cannot be parsed, everything is free again; otherwise one of the early returns is taken,
  and the document and all its nodes and strings are lost.
\<close>

theorem get_soap_content_memory:
  assumes "memory_ok m"
  shows "case get_soap_content soap isOK content of
      Inl e \<Rightarrow> get_soap_content_mem soap isOK content m = Inl e
    | Inr x \<Rightarrow> \<exists>m'. get_soap_content_mem soap isOK content m = Inr (x, m') \<and> live m \<subseteq> live m' \<and>
        finite (live m' - live m) \<and> card (live m' - live m) = content_leaks soap isOK"
  by (rule leaves_live [OF content_leaves [OF owned_start [OF assms]]])

text \<open>An answer whose body is empty: two nodes of three blocks each, and the document\<close>

definition empty_body :: "byte list" where
  "empty_body = bytes_of ''<a><b></b></a>'' @ [0]"

lemma empty_body_parsed:
  "\<exists>d. xml_parse_document 28 empty_body 14 = Inr (Some (Some d)) \<and> node_blocks (xml_document_root d) = 6 \<and>
    soap_element (xml_document_root d) True = None \<and>
    (case xml_node_child (xml_document_root d) 0 of None \<Rightarrow> False | Some b \<Rightarrow> xml_node_child b 0 = None)"
proof -
  have "case xml_parse_document 28 empty_body 14 of
      Inr (Some (Some d)) \<Rightarrow> node_blocks (xml_document_root d) = 6 \<and> soap_element (xml_document_root d) True = None \<and>
        (case xml_node_child (xml_document_root d) 0 of None \<Rightarrow> False | Some b \<Rightarrow> xml_node_child b 0 = None)
    | _ \<Rightarrow> False" by code_simp
  then show ?thesis by (auto split: sum.splits option.splits)
qed

lemma empty_body_result: "get_soap_content empty_body True [7] = Inr (2 ^ 64 - 1, [7])" "content_leaks empty_body True = 7"
proof -
  have n: "strlen empty_body = Inr 14" by code_simp
  have "strncpy_bytes empty_body 14 = Inr (take 14 empty_body)" by code_simp
  then obtain z where z: "strncpy (replicate MAX_BUF_SIZE 0) 0 empty_body 14 = Inr z"
    by (simp add: strncpy_def memcpy_def MAX_BUF_SIZE_def empty_body_def)
  from empty_body_parsed n z show "get_soap_content empty_body True [7] = Inr (2 ^ 64 - 1, [7])"
    by (auto simp: get_soap_content_def result_content_def split: option.splits)
  from empty_body_parsed n show "content_leaks empty_body True = 7" by (auto simp: content_leaks_def)
qed

theorem get_soap_content_memory_witness:
  "\<exists>m'. get_soap_content_mem empty_body True [7] \<lparr>live = {}, next_block = 0\<rparr> = Inr ((2 ^ 64 - 1, [7]), m') \<and>
    card (live m') = 7"
  using get_soap_content_memory [of "\<lparr>live = {}, next_block = 0\<rparr>" empty_body True "[7]"]
  by (auto simp: memory_ok_def empty_body_result)

end
