(* ===== verification/JobMemory.thy ===== *)
theory JobMemory
  imports Requests CJsonMemory SoapMemory
begin


text \<open>
  The memory of the jobs (\<^verbatim>\<open>proxy_server/threadpool/aidsock.c\<close>): the buffers of a message, its tree, the strings of its
  commands, the tree and the text of an answer, and the data of the job itself, with the places where they are
  freed. What is read, sent and executed is as in \<open>Message\<close> and \<open>Requests\<close>.
\<close>

section \<open>Trees that are read and built\<close>

text \<open>Before a tree is read it is checked that all of it is still allocated.\<close>

definition read_optional :: "nat option \<Rightarrow> memory \<Rightarrow> unit res" where
  "read_optional a m = (case a of None \<Rightarrow> Inr () | Some a \<Rightarrow> read_block a m)"

fun read_items :: "jnode list \<Rightarrow> memory \<Rightarrow> unit res" where
  "read_items [] m = Inr ()"
| "read_items (JNode a i v n cs # next_items) m =
     bindR (read_block a m) (\<lambda>_.
     bindR (if is_reference i then Inr () else bindR (read_items cs m) (\<lambda>_. read_optional v m)) (\<lambda>_.
     bindR (if is_const_name i then Inr () else read_optional n m) (\<lambda>_. read_items next_items m)))"

definition create_node :: "cJSON \<Rightarrow> memory \<Rightarrow> jnode \<times> memory" where
  "create_node c m = (case malloc_block m of (a, m) \<Rightarrow> (JNode a (cJSON.fields c) None None [], m))"

definition create_string :: "byte list option \<Rightarrow> memory \<Rightarrow> (jnode \<times> memory) res" where
  "create_string string m =
     (case malloc_block m of (a, m) \<Rightarrow>
      bindR (cJSON_strdup string) (\<lambda>s.
      case malloc_block m of (v, m) \<Rightarrow>
        Inr (JNode a (cJSON_New_Item\<lparr>item_type := cJSON_String, valuestring := Some s\<rparr>) (Some v) None [], m)))"

section \<open>A message\<close>

text \<open>
  The commands of a message: the addresses of the arrays \<open>resp\<close>, \<open>cmds\<close> and \<open>is2Pipe\<close>, and the entries; a string has
  its address.
\<close>

datatype allocated =
    NoCommands
  | AllocatedCommands nat nat nat "(int \<times> (nat \<times> byte list) option \<times> bool) list"

fun parse_objects_mem :: "Table hash_head \<Rightarrow> jnode \<Rightarrow> cJSON \<Rightarrow> cJSON \<Rightarrow> nat \<Rightarrow> nat \<Rightarrow> nat \<Rightarrow> nat \<Rightarrow> nat \<Rightarrow>
    (int \<times> (nat \<times> byte list) option \<times> bool) list \<Rightarrow> memory \<Rightarrow> (allocated \<times> memory) res" where
  "parse_objects_mem command_table root cmdsArray keysArray rs values_arr fs i 0 parsed m =
     bindR (cJSON_Delete [root] m) (\<lambda>m. Inr (AllocatedCommands rs values_arr fs parsed, m))"
| "parse_objects_mem command_table root cmdsArray keysArray rs values_arr fs i (Suc n) parsed m =
     bindR (read_items [root] m) (\<lambda>_.
     bindR (parse_object_cmd command_table (cJSON_GetArrayItem cmdsArray (int i)) (cJSON_GetArrayItem keysArray (int i)))
       (\<lambda>(r, v, f).
     case (case v of None \<Rightarrow> (None, m) | Some s \<Rightarrow> (case malloc_block m of (a, m) \<Rightarrow> (Some (a, s), m))) of (v, m) \<Rightarrow>
     bindR (read_block values_arr m) (\<lambda>_.
     bindR (read_block fs m) (\<lambda>_.
     bindR (read_block rs m) (\<lambda>_.
       if r < 0 then
         bindR (cJSON_Delete [root] m) (\<lambda>m.
         bindR (free_block rs m) (\<lambda>m.
         bindR (free_block fs m) (\<lambda>m.
         bindR (free_block values_arr m) (\<lambda>m. Inr (NoCommands, m)))))
       else parse_objects_mem command_table root cmdsArray keysArray rs values_arr fs (Suc i) n (parsed @ [(r, v, f)]) m)))))"

text \<open>\<open>analysis_message\<close> from the tree on\<close>

definition commands_of_tree_mem :: "Table hash_head \<Rightarrow> jnode \<Rightarrow> memory \<Rightarrow> (allocated \<times> memory) res" where
  "commands_of_tree_mem command_table root m =
     bindR (read_items [root] m) (\<lambda>_.
     bindR (cJSON_GetObjectItem (tree_of root) (Some (lit (bytes_of ''values'')))) (\<lambda>cmdsArray.
     bindR (cJSON_GetObjectItem (tree_of root) (Some (lit (bytes_of ''keys'')))) (\<lambda>keysArray.
     case (cmdsArray, keysArray) of
       (Some cmdsArray, Some keysArray) \<Rightarrow>
         let cmdSize = cJSON_GetArraySize cmdsArray;
             keySize = cJSON_GetArraySize keysArray
         in if keySize = 0 \<or> cmdSize = 0 then bindR (cJSON_Delete [root] m) (\<lambda>m. Inr (NoCommands, m))
            else case malloc_block m of (rs, m) \<Rightarrow>
                 case malloc_block m of (values_arr, m) \<Rightarrow>
                 case malloc_block m of (fs, m) \<Rightarrow>
                   parse_objects_mem command_table root cmdsArray keysArray rs values_arr fs 0 (min keySize cmdSize) [] m
     | _ \<Rightarrow> bindR (cJSON_Delete [root] m) (\<lambda>m. Inr (NoCommands, m)))))"

text \<open>
  \<open>original_msg\<close> is the address and the contents of the buffer. \<open>calloc\<close> returns null for a body length of
  \<open>SIZE_MAX\<close>.
\<close>

definition analysis_message_mem ::
    "Table hash_head \<Rightarrow> (nat \<times> byte list) option \<Rightarrow> nat \<Rightarrow> memory \<Rightarrow> (allocated \<times> memory) res" where
  "analysis_message_mem command_table original_msg nbytes m =
     (case original_msg of
        None \<Rightarrow> Inr (NoCommands, m)
      | Some (addr, msg) \<Rightarrow>
          if nbytes = 0 then Inr (NoCommands, m)
          else let len = int nbytes - int HEADSIZE;
                   reject = (\<lambda>paddr m. bindR (free_unless_null paddr m) (\<lambda>m. Inr (NoCommands, m)))
               in case (if len < 0 then (None, m) else case malloc_block m of (p, m) \<Rightarrow> (Some p, m)) of (paddr, m) \<Rightarrow>
                  bindR (read_block addr m) (\<lambda>_.
                  bindR (reverse_crc_data (Some (drop HEADSIZE msg)) len (if len < 0 then None else Some (replicate (nat len) 0)))
                    (\<lambda>(r, podata).
                  if r \<noteq> 0 then reject paddr m
                  else case podata of
                    None \<Rightarrow> Inl NullDeref
                  | Some podata \<Rightarrow>
                      bindR (read_optional paddr m) (\<lambda>_.
                      bindR (cJSON_ParseWithOpts_mem (length podata + 1) podata False m) (\<lambda>parsed.
                      case parsed of
                        None \<Rightarrow> reject paddr m
                      | Some (None, m) \<Rightarrow> reject paddr m
                      | Some (Some root, m) \<Rightarrow>
                          bindR (free_unless_null paddr m) (commands_of_tree_mem command_table root))))))"

text \<open>\<open>free_command\<close>; the strings are the entries of the array \<open>cmds\<close>, a null pointer is skipped.\<close>

fun free_strings :: "nat \<Rightarrow> nat option list \<Rightarrow> nat \<Rightarrow> memory \<Rightarrow> memory res" where
  "free_strings arr cells 0 m = Inr m"
| "free_strings arr [] (Suc num) m = Inl OobRead"
| "free_strings arr (c # cells) (Suc num) m =
     bindR (read_block arr m) (\<lambda>_. bindR (free_unless_null c m) (free_strings arr cells num))"

definition free_command :: "nat option \<Rightarrow> (nat \<times> nat option list) option \<Rightarrow> nat option \<Rightarrow> nat \<Rightarrow> memory \<Rightarrow> memory res" where
  "free_command resp cmds pipes num m =
     (case (resp, cmds, pipes) of
        (Some resp, Some (arr, cells), Some pipes) \<Rightarrow>
          bindR (free_strings arr cells num m) (\<lambda>m.
          bindR (free_block resp m) (\<lambda>m.
          bindR (free_block pipes m) (free_block arr)))
      | _ \<Rightarrow> Inr m)"

section \<open>An answer\<close>

text \<open>
  \<open>sockData\<close> is the address of the data of the job. The text of the answer is one block (what the printer frees again
  before it returns is not counted); the early returns do not free it.
\<close>

definition reply_object_mem :: "nat \<Rightarrow> bool \<Rightarrow> byte list option \<Rightarrow> memory \<Rightarrow> (jnode \<times> memory) res" where
  "reply_object_mem sockData isOpOk msg m =
     (case create_node cJSON_CreateObject m of (root, m) \<Rightarrow>
      bindR (read_block sockData m) (\<lambda>_.
      case create_node (cJSON_CreateBool isOpOk) m of (b, m) \<Rightarrow>
      bindR (add_item_to_object root (lit (bytes_of ''isopok'')) b m) (\<lambda>(root, m).
      bindR (create_string msg m) (\<lambda>(s, m).
        add_item_to_object root (lit (bytes_of ''message'')) s m))))"

text \<open>The text of the answer is \<open>json_str\<close> at the address \<open>j\<close>.\<close>

definition send_text_mem ::
    "nat \<Rightarrow> int \<Rightarrow> jnode \<Rightarrow> nat \<Rightarrow> byte list \<Rightarrow> upstream \<Rightarrow> memory \<Rightarrow> (upstream \<times> memory) res" where
  "send_text_mem sockData client_fd root j json_str st m =
     bindR (strlen json_str) (\<lambda>n.
     if n > BUF4 then bindR (cJSON_Delete [root] m) (\<lambda>m. Inr (st, m))
     else bindR (crc_data (Some json_str) (int n) (replicate (BUF4 - HEADSIZE) 0)) (\<lambda>(len, body).
          if len = -1 then bindR (cJSON_Delete [root] m) (\<lambda>m. Inr (st, m))
          else bindR (convert_int_to_hex (word_of_int len) (replicate HEADSIZE 0 @ body)) (\<lambda>(_, buf).
               bindR (read_block sockData m) (\<lambda>_.
               case writen_fd client_fd (take (nat len + HEADSIZE) buf) st of (_, _, st) \<Rightarrow>
                 bindR (free_block j m) (\<lambda>m. bindR (cJSON_Delete [root] m) (\<lambda>m. Inr (st, m)))))))"

definition write_sock_func_mem ::
    "nat \<Rightarrow> int \<Rightarrow> bool \<Rightarrow> byte list option \<Rightarrow> upstream \<Rightarrow> memory \<Rightarrow> (upstream \<times> memory) res" where
  "write_sock_func_mem sockData client_fd isOpOk msg st m =
     bindR (reply_object_mem sockData isOpOk msg m) (\<lambda>(root, m).
     bindR (read_items [root] m) (\<lambda>_.
     bindR (cJSON_Print (tree_of root)) (\<lambda>json_str.
     case json_str of
       None \<Rightarrow> Inl NullDeref
     | Some json_str \<Rightarrow> (case malloc_block m of (j, m) \<Rightarrow> send_text_mem sockData client_fd root j json_str st m))))"

definition write_fd_error_message_mem :: "nat \<Rightarrow> int \<Rightarrow> int \<Rightarrow> upstream \<Rightarrow> memory \<Rightarrow> (upstream \<times> memory) res" where
  "write_fd_error_message_mem sockData client_fd err st m =
     bindR (read_block sockData m) (\<lambda>_.
     write_sock_func_mem sockData client_fd False
       (if err = 1 then Some (lit (bytes_of ''connect to wow server failed''))
        else if err = 2 then Some (lit (bytes_of ''Broken Pipe'')) else None) st m)"

section \<open>A command for the SOAP server\<close>

text \<open>
  What \<open>write_pipe_or_sock\<close> does until it has read from the server: what \<open>readn_fd\<close> returned and the buffer, or
  nothing when it could not connect or write.
\<close>

definition soap_exchange ::
    "byte list option \<Rightarrow> byte list \<Rightarrow> nat \<Rightarrow> upstream \<Rightarrow> ((int \<times> byte list) option \<times> upstream) res" where
  "soap_exchange auth command n st =
     (case make_soap_socket st of (sock_fd, st) \<Rightarrow>
      if sock_fd \<le> 0 then Inr (None, st)
      else bindR (strlen command) (\<lambda>l.
           bindR (make_soap_request (Some (take l command)) n auth BUF4) (\<lambda>(len, request).
           let szBuf = (case request of None \<Rightarrow> replicate BUF4 0 | Some r \<Rightarrow> r @ replicate (BUF4 - length r) 0)
           in case writen_fd sock_fd (take len szBuf) st of (ret, fd_write, st) \<Rightarrow>
              if ret \<le> 0 then Inr (None, st)
              else bindR (readn_fd fd_write szBuf st) (\<lambda>(nbytes, szBuf, st). Inr (Some (nbytes, szBuf), st)))))"

text \<open>The text of the answer is put over the response in its buffer.\<close>

definition put_answer :: "byte list \<Rightarrow> bool \<times> byte list \<times> nat \<Rightarrow> (bool \<times> byte list) res" where
  "put_answer szBuf answer =
     (case answer of (isOpOk, szrst, rst_len) \<Rightarrow>
       bindR (memcpy szBuf 0 szrst rst_len) (\<lambda>szBuf. bindR (wr szBuf rst_len 0) (\<lambda>szBuf. Inr (isOpOk, szBuf))))"

definition write_pipe_or_sock_mem :: "nat \<Rightarrow> byte list option \<Rightarrow> int \<Rightarrow> int \<Rightarrow> byte list \<Rightarrow> nat \<Rightarrow> upstream \<Rightarrow> memory \<Rightarrow>
    (upstream \<times> memory) res" where
  "write_pipe_or_sock_mem sockData auth client_fd resp command n st m =
     bindR (soap_exchange auth command n st) (\<lambda>(read, st).
     case read of
       None \<Rightarrow> write_fd_error_message_mem sockData client_fd 1 st m
     | Some (nbytes, szBuf) \<Rightarrow>
         if resp = 1 \<and> nbytes > 0
         then bindR (analysis_soap_response_mem (Some szBuf) (nat nbytes) (replicate BUF4 0) BUF4 m) (\<lambda>(answer, m).
              bindR (read_block sockData m) (\<lambda>_.
              bindR (put_answer szBuf answer) (\<lambda>(isOpOk, szBuf).
                write_sock_func_mem sockData client_fd isOpOk (Some szBuf) st m)))
         else Inr (st, m))"

section \<open>The job\<close>

fun run_commands_mem :: "nat \<Rightarrow> proxy \<Rightarrow> int \<Rightarrow> nat \<Rightarrow> nat \<times> nat \<times> nat \<Rightarrow> (int \<times> (nat \<times> byte list) option \<times> bool) list \<Rightarrow>
    conn option \<Rightarrow> upstream \<Rightarrow> memory \<Rightarrow> ((conn option \<times> upstream) \<times> memory) res" where
  "run_commands_mem sockData px fd nbytes arrs [] db st m = Inr ((db, st), m)"
| "run_commands_mem sockData px fd nbytes (rs, values_arr, fs) ((resp, command, pipe) # cs) db st m =
     bindR (read_block rs m) (\<lambda>_.
     bindR (read_block values_arr m) (\<lambda>_.
     bindR (if resp \<ge> 0 then
              (case command of
                 None \<Rightarrow> Inr ((db, st), m)
               | Some (a, c) \<Rightarrow>
                   bindR (read_block fs m) (\<lambda>_.
                   bindR (read_block a m) (\<lambda>_.
                   if pipe
                   then bindR (strnlen c nbytes) (\<lambda>n.
                        bindR (write_pipe_or_sock_mem sockData (px_auth px) fd resp c n st m) (\<lambda>(st, m). Inr ((db, st), m)))
                   else bindR (write_db (px_sql px) (px_cwd px) (Some c) db) (\<lambda>db. Inr ((db, st), m)))))
            else Inr ((db, st), m))
       (\<lambda>((db, st), m). run_commands_mem sockData px fd nbytes (rs, values_arr, fs) cs db st m)))"

text \<open>The buffer that \<open>read_normal_sock\<close> hands over is a block.\<close>

definition read_normal_sock_mem :: "rx list \<Rightarrow> memory \<Rightarrow> ((int \<times> (nat \<times> byte list) option \<times> rx list) \<times> memory) res" where
  "read_normal_sock_mem s m =
     (let (nbytes, hd, s1) = recv_peek s HEADSIZE;
          szHeadBuf = hd @ replicate (HEADSIZE + 1 - length hd) 0
      in if nbytes \<le> 0 then Inr ((nbytes, None, s1), m)
         else bindR (convert_hex_to_int szHeadBuf HEADSIZE) (\<lambda>nLeft.
           if nLeft \<le> 0 then Inr ((-1, None, s1), m)
           else case malloc_block m of (p, m) \<Rightarrow>
                let nLeft' = nat nLeft + HEADSIZE;
                    (nRead, bs, s2) = readn s1 nLeft'
                in Inr ((nRead, Some (p, bs @ replicate (nLeft' - length bs) 0), s2), m)))"

lemma read_normal_sock_mem_eq:
  "read_normal_sock_mem s m = bindR (read_normal_sock s) (\<lambda>(n, buf, s'). case buf of
     None \<Rightarrow> Inr ((n, None, s'), m)
   | Some b \<Rightarrow> (case malloc_block m of (p, m) \<Rightarrow> Inr ((n, Some (p, b), s'), m)))"
proof -
  obtain nbytes hd s1 where p: "recv_peek s HEADSIZE = (nbytes, hd, s1)" by (metis prod_cases3)
  show ?thesis
  proof (cases "convert_hex_to_int (hd @ replicate (HEADSIZE + 1 - length hd) 0) HEADSIZE")
    case (Inl e)
    with p show ?thesis by (simp add: read_normal_sock_mem_def read_normal_sock_def)
  next
    case (Inr n)
    obtain r bs s2 where "readn s1 (nat n + HEADSIZE) = (r, bs, s2)" by (metis prod_cases3)
    with p Inr show ?thesis by (simp add: read_normal_sock_mem_def read_normal_sock_def Let_def split: prod.split)
  qed
qed

lemma read_normal_sock_plain:
  "read_normal_sock_mem s m = Inr ((n, buf, s'), m') \<Longrightarrow> read_normal_sock s = Inr (n, map_option snd buf, s')"
  by (cases "malloc_block m") (auto simp: read_normal_sock_mem_eq bindR_eq_Inr_iff split: option.splits)

lemma allocated_commands: "analysis_message_mem t buf n m = Inr (AllocatedCommands a b c cs, m') \<Longrightarrow> 0 < n \<and> buf \<noteq> None"
  by (cases buf; cases "n = 0") (auto simp: analysis_message_mem_def)

text \<open>The loop frees the buffer of a message in each turn, and the commands after they have been sent.\<close>

function read_loop_func_mem :: "nat \<Rightarrow> proxy \<Rightarrow> int \<Rightarrow> rx list \<Rightarrow> conn option \<Rightarrow> upstream \<Rightarrow> memory \<Rightarrow>
    ((rx list \<times> conn option \<times> upstream) \<times> memory) res" where
  "read_loop_func_mem sockData px fd s db st m =
     bindR (read_normal_sock_mem s m) (\<lambda>((nbytes, pszBuf, s'), m').
       if nbytes < 0 then bindR (free_unless_null (map_option fst pszBuf) m') (\<lambda>m'. Inr ((s', db, st), m'))
       else bindR (analysis_message_mem (px_commands px) pszBuf (nat nbytes) m') (\<lambda>(r, m').
            bindR (free_unless_null (map_option fst pszBuf) m') (\<lambda>m'.
            case r of
              NoCommands \<Rightarrow> Inr ((s', db, st), m')
            | AllocatedCommands rs values_arr fs cs \<Rightarrow>
                bindR (run_commands_mem sockData px fd (nat nbytes) (rs, values_arr, fs) cs db st m') (\<lambda>((db, st), m').
                bindR (free_command (Some rs) (Some (values_arr, map (\<lambda>(_, v, _). map_option fst v) cs)) (Some fs)
                  (length cs) m') (\<lambda>m'.
                  read_loop_func_mem sockData px fd s' db st m')))))"
  by pat_completeness auto
termination
  by (relation "measure (\<lambda>(sd, px, fd, s, db, st, m). rx_size s)")
    (auto dest!: allocated_commands read_normal_sock_plain intro: read_normal_sock_shorter)

declare read_loop_func_mem.simps [simp del]

definition read_sock_func_mem :: "nat \<Rightarrow> proxy \<Rightarrow> int \<Rightarrow> rx list \<Rightarrow> upstream \<Rightarrow> memory \<Rightarrow> ((rx list \<times> upstream) \<times> memory) res" where
  "read_sock_func_mem sockData px fd s st m =
     bindR (read_block sockData m) (\<lambda>_.
     bindR (read_loop_func_mem sockData px fd s None st m) (\<lambda>((s, db, st), m).
     bindR (free_block sockData m) (\<lambda>m.
     bindR (close_db db) (\<lambda>_. Inr ((s, st), m)))))"

section \<open>What is left\<close>

text \<open>An answer whose text is longer than the buffer leaves the text.\<close>

definition reply_leaks :: "bool \<Rightarrow> byte list option \<Rightarrow> nat" where
  "reply_leaks isOpOk msg =
     (case bindR (reply_object isOpOk msg) cJSON_Print of
        Inr (Some json_str) \<Rightarrow> (case strlen json_str of Inr n \<Rightarrow> if n > BUF4 then 1 else 0 | Inl _ \<Rightarrow> 0)
      | _ \<Rightarrow> 0)"

text \<open>A command leaves what its response leaves, and the text of its answer.\<close>

definition exchange_leaks :: "byte list option \<Rightarrow> int \<Rightarrow> byte list \<Rightarrow> nat \<Rightarrow> upstream \<Rightarrow> nat" where
  "exchange_leaks auth resp command n st =
     (case soap_exchange auth command n st of
        Inr (Some (nbytes, szBuf), _) \<Rightarrow>
          if resp = 1 \<and> nbytes > 0
          then response_leaks szBuf (nat nbytes) +
            (case bindR (analysis_soap_response (Some szBuf) (nat nbytes) (replicate BUF4 0) BUF4) (put_answer szBuf) of
               Inr (isOpOk, szBuf) \<Rightarrow> reply_leaks isOpOk (Some szBuf)
             | Inl _ \<Rightarrow> 0)
          else 0
      | _ \<Rightarrow> 0)"

definition command_leaks :: "proxy \<Rightarrow> nat \<Rightarrow> int \<times> byte list option \<times> bool \<Rightarrow> upstream \<Rightarrow> nat" where
  "command_leaks px nbytes c st =
     (case c of
        (resp, Some command, True) \<Rightarrow>
          if resp \<ge> 0
          then (case strnlen command nbytes of Inr n \<Rightarrow> exchange_leaks (px_auth px) resp command n st | Inl _ \<Rightarrow> 0) else 0
      | _ \<Rightarrow> 0)"

fun commands_leak :: "proxy \<Rightarrow> int \<Rightarrow> nat \<Rightarrow> (int \<times> byte list option \<times> bool) list \<Rightarrow> conn option \<Rightarrow> upstream \<Rightarrow> nat" where
  "commands_leak px fd nbytes [] db st = 0"
| "commands_leak px fd nbytes (c # cs) db st =
     command_leaks px nbytes c st +
       (case run_commands px fd nbytes [c] db st of Inr (db, st) \<Rightarrow> commands_leak px fd nbytes cs db st | Inl _ \<Rightarrow> 0)"

text \<open>A message that is rejected leaves the strings that were printed before; with it the job ends.\<close>

function loop_leaks :: "proxy \<Rightarrow> int \<Rightarrow> rx list \<Rightarrow> conn option \<Rightarrow> upstream \<Rightarrow> nat" where
  "loop_leaks px fd s db st =
     (case read_normal_sock s of
        Inl _ \<Rightarrow> 0
      | Inr (nbytes, pszBuf, s') \<Rightarrow>
          if nbytes < 0 then 0
          else (case analysis_message (px_commands px) pszBuf (nat nbytes) of
                  Inl _ \<Rightarrow> 0
                | Inr (Rejected vs) \<Rightarrow> length vs
                | Inr (Commands cs) \<Rightarrow>
                    commands_leak px fd (nat nbytes) cs db st +
                      (case run_commands px fd (nat nbytes) cs db st of
                         Inl _ \<Rightarrow> 0
                       | Inr (db, st) \<Rightarrow> loop_leaks px fd s' db st)))"
  by pat_completeness auto
termination
  by (relation "measure (\<lambda>(px, fd, s, db, st). rx_size s)")
    (auto dest!: analysed_commands intro: read_normal_sock_shorter)

declare loop_leaks.simps [simp del]

section \<open>Trees\<close>

lemma read_optional_ok: "owned base (at_addr a + B) m \<Longrightarrow> read_optional a m = Inr ()"
  using owned_read [of base "at_addr a + B" m] by (cases a) (simp_all add: read_optional_def)

lemma read_items_ok: "owned base (sum_list (map owns ns) + B) m \<Longrightarrow> read_items ns m = Inr ()"
proof (induction ns m arbitrary: B rule: read_items.induct)
  case (2 a i v n cs xs m)
  have o: "owned base (add_mset a ((if is_const_name i then {#} else at_addr n) +
      (if is_reference i then {#} else at_addr v + sum_list (map owns cs)) + (sum_list (map owns xs) + B))) m"
    using "2.prems" by (simp add: ac_simps)
  have a: "read_block a m = Inr ()" using owned_read [OF o] by simp
  have children: "read_items cs m = Inr ()" "read_optional v m = Inr ()" if "\<not> is_reference i"
  proof -
    from that o have "owned base (sum_list (map owns cs) + (add_mset a ((if is_const_name i then {#} else at_addr n) + at_addr v +
        (sum_list (map owns xs) + B)))) m" "owned base (at_addr v + (add_mset a ((if is_const_name i then {#} else at_addr n) +
        sum_list (map owns cs) + (sum_list (map owns xs) + B)))) m"
      by (simp_all add: ac_simps)
    with "2.IH"(1) [OF a that] read_optional_ok show "read_items cs m = Inr ()" "read_optional v m = Inr ()" by blast+
  qed
  have name: "read_optional n m = Inr ()" if "\<not> is_const_name i"
    using that o by (intro read_optional_ok [of base n "add_mset a ((if is_reference i then {#} else at_addr v +
      sum_list (map owns cs)) + (sum_list (map owns xs) + B))"]) (simp add: ac_simps)
  have "owned base (sum_list (map owns xs) + (add_mset a ((if is_const_name i then {#} else at_addr n) +
      (if is_reference i then {#} else at_addr v + sum_list (map owns cs)) + B))) m"
    using o by (simp add: ac_simps)
  from "2.IH"(2) [OF a _ _ this] a children name show ?case by (cases "is_reference i"; cases "is_const_name i") simp_all
qed simp

lemma read_tree_ok: "owned base (owns n + B) m \<Longrightarrow> read_items [n] m = Inr ()"
  by (rule read_items_ok [of base "[n]"]) simp

text \<open>The parser, and the freeing of a block among others\<close>

lemma parse_tree_owns:
  assumes "owned base B m"
  shows "case cJSON_Parse fuel text_bytes of
      Inl e \<Rightarrow> cJSON_ParseWithOpts_mem fuel text_bytes False m = Inl e
    | Inr NoFuel \<Rightarrow> cJSON_ParseWithOpts_mem fuel text_bytes False m = Inr None
    | Inr (Failed ep) \<Rightarrow> \<exists>m'. cJSON_ParseWithOpts_mem fuel text_bytes False m = Inr (Some (None, m')) \<and> owned base B m'
    | Inr (Parsed c rest) \<Rightarrow> \<exists>n m'. cJSON_ParseWithOpts_mem fuel text_bytes False m = Inr (Some (Some n, m')) \<and>
        tree_of n = c \<and> owned base (owns n + B) m'"
proof -
  obtain c m1 where new: "new_item m = (c, m1)" by force
  have c: "fresh c" "j_item c = cJSON_New_Item" "owned base (owns c + B) m1"
    using fresh_new [OF new] owned_new [OF assms new] by simp_all
  show ?thesis
  proof (cases "skip text_bytes")
    case (Inl e)
    with new show ?thesis
      by (simp add: cJSON_Parse_def cJSON_ParseWithOpts_def cJSON_ParseWithOpts_mem_def skipped_def)
  next
    case (Inr s)
    have sim: "parse_sim base B (\<lambda>n' c. tree_of n' = c) (parse_value fuel cJSON_New_Item s) (parse_value_mem fuel c s m1)"
      using parser_sim [of base fuel] c unfolding value_sim_def by metis
    show ?thesis
    proof (cases "parse_value fuel cJSON_New_Item s")
      case e: (Inl e)
      with sim Inr new show ?thesis
        by (simp add: parse_sim_def cJSON_Parse_def cJSON_ParseWithOpts_def cJSON_ParseWithOpts_mem_def skipped_def bindF_def)
    next
      case p: (Inr p)
      show ?thesis
      proof (cases p)
        case (Failed ep)
        with sim p obtain n m2 where m2: "parse_value_mem fuel c s m1 = Inr (Some (False, n, ep, m2))" "owned base (owns n + B) m2"
          by (auto simp: parse_sim_def)
        from delete_frees [of base "[n]" B m2] m2(2) obtain m3 where "cJSON_Delete [n] m2 = Inr m3" "owned base B m3"
          by (auto simp: frees_def)
        with m2 Failed p Inr new show ?thesis
          by (simp add: cJSON_Parse_def cJSON_ParseWithOpts_def cJSON_ParseWithOpts_mem_def skipped_def bindF_def)
      qed (use sim p Inr new in \<open>auto simp: parse_sim_def cJSON_Parse_def cJSON_ParseWithOpts_def
          cJSON_ParseWithOpts_mem_def skipped_def bindF_def\<close>)
    qed
  qed
qed

lemma delete_tree:
  assumes "owned base (owns n + B) m"
  obtains m' where "cJSON_Delete [n] m = Inr m'" "owned base B m'"
  using delete_frees [of base "[n]" B m] assms by (auto simp: frees_def)

lemma free_one:
  assumes "owned base (add_mset a B) m"
  obtains m' where "free_block a m = Inr m'" "owned base B m'"
  using frees_block [OF assms] by (auto simp: frees_def)

lemma free_optional:
  assumes "owned base (at_addr a + B) m"
  obtains m' where "free_unless_null a m = Inr m'" "owned base B m'"
  using frees_at_addr [OF assms] by (auto simp: frees_def)

section \<open>Messages\<close>

definition plain_command :: "int \<times> (nat \<times> byte list) option \<times> bool \<Rightarrow> int \<times> byte list option \<times> bool" where
  "plain_command c = (case c of (r, v, f) \<Rightarrow> (r, map_option snd v, f))"

lemma plain_command_simps [simp]: "plain_command (r, v, f) = (r, map_option snd v, f)"
  by (simp add: plain_command_def)

text \<open>The blocks of the strings\<close>

definition string_blocks :: "(int \<times> (nat \<times> byte list) option \<times> bool) list \<Rightarrow> nat multiset" where
  "string_blocks cs = sum_list (map (\<lambda>(_, v, _). at_addr (map_option fst v)) cs)"

lemma string_blocks_simps [simp]:
  "string_blocks [] = {#}"
  "string_blocks ((r, v, f) # cs) = at_addr (map_option fst v) + string_blocks cs"
  "string_blocks (cs @ [(r, v, f)]) = string_blocks cs + at_addr (map_option fst v)"
  by (simp_all add: string_blocks_def)

lemma strings_size: "size (string_blocks cs) = length (List.map_filter (\<lambda>(_, v, _). v) (map plain_command cs))"
proof (induction cs)
  case (Cons c cs)
  then show ?case by (cases c; cases "fst (snd c)") (simp_all add: plain_command_def map_filter_simps)
qed (simp add: map_filter_simps)

definition message_post :: "nat set \<Rightarrow> nat multiset \<Rightarrow> analysed res \<Rightarrow> (allocated \<times> memory) res \<Rightarrow> bool" where
  "message_post base B p r \<longleftrightarrow>
     (case p of
        Inl e \<Rightarrow> r = Inl e
      | Inr (Rejected vs) \<Rightarrow> \<exists>K m. r = Inr (NoCommands, m) \<and> size K = length vs \<and> owned base (K + B) m
      | Inr (Commands cs) \<Rightarrow> \<exists>rs values_arr fs acs m. r = Inr (AllocatedCommands rs values_arr fs acs, m) \<and>
          map plain_command acs = cs \<and> owned base ({#rs, values_arr, fs#} + string_blocks acs + B) m)"

lemma message_fault [simp]: "message_post base B (Inl e) r \<longleftrightarrow> r = Inl e"
  by (simp add: message_post_def)

lemma message_step:
  "(\<And>x. p = Inr x \<Longrightarrow> message_post base B (f x) (g x)) \<Longrightarrow> message_post base B (bindR p f) (bindR p g)"
  by (cases p) simp_all

lemma message_rejected: "owned base B m \<Longrightarrow> message_post base B (Inr (Rejected [])) (Inr (NoCommands, m))"
  by (auto simp: message_post_def intro!: exI [of _ "{#}"])

definition ensures :: "('a \<Rightarrow> bool) \<Rightarrow> 'a res \<Rightarrow> bool" where
  "ensures P r \<longleftrightarrow> (\<forall>x. r = Inr x \<longrightarrow> P x)"

lemma ensures_bind: "(\<And>x. ensures P (f x)) \<Longrightarrow> ensures P (bindR p f)"
  by (auto simp: ensures_def bindR_eq_Inr_iff)

lemma ensures_result: "P x \<Longrightarrow> ensures P (Inr x)"
  by (simp add: ensures_def)

lemma printed_value: "parse_object_cmd t c k = Inr (r, Some v, f) \<Longrightarrow> 0 \<le> r"
proof -
  have "ensures (\<lambda>(r, v, f). v = None \<or> 0 \<le> r) (parse_object_cmd t c k)"
    unfolding parse_object_cmd_def Let_def
    by (auto split: option.split prod.split intro!: ensures_bind ensures_result)
  then show "parse_object_cmd t c k = Inr (r, Some v, f) \<Longrightarrow> 0 \<le> r" by (auto simp: ensures_def)
qed

lemma objects_post:
  assumes "owned base ({#rs, values_arr, fs#} + string_blocks parsed + owns root + B) m"
  shows "message_post base B (parse_objects t ca ka i n (map plain_command parsed))
    (parse_objects_mem t root ca ka rs values_arr fs i n parsed m)"
  using assms
proof (induction n arbitrary: i parsed m)
  case 0
  then have "owned base (owns root + ({#rs, values_arr, fs#} + string_blocks parsed + B)) m" by (simp add: ac_simps)
  then show ?case by (rule delete_tree) (auto simp: message_post_def)
next
  case (Suc n)
  let ?A = "{#rs, values_arr, fs#} + string_blocks parsed"
  have o: "owned base (owns root + (?A + B)) m" using Suc.prems by (simp add: ac_simps)
  show ?case
    unfolding parse_objects.simps parse_objects_mem.simps read_tree_ok [OF o] bindR_simps
  proof (rule message_step, clarify)
    fix r v f assume p: "parse_object_cmd t (cJSON_GetArrayItem ca (int i)) (cJSON_GetArrayItem ka (int i)) = Inr (r, v, f)"
    obtain w m1 where w: "(case v of None \<Rightarrow> (None, m) | Some s \<Rightarrow> (case malloc_block m of (a, m) \<Rightarrow> (Some (a, s), m))) = (w, m1)"
      by (metis surj_pair)
    have v: "map_option snd w = v" using w by (auto split: option.splits prod.splits)
    have o1: "owned base (at_addr (map_option fst w) + (owns root + (?A + B))) m1"
      using w o owned_malloc [OF o] by (auto simp: add_mset_commute split: option.splits prod.splits)
    then have read: "read_block values_arr m1 = Inr ()" "read_block fs m1 = Inr ()" "read_block rs m1 = Inr ()"
      using owned_read [OF o1] by simp_all
    show "message_post base B
        (if r < 0 then Inr (Rejected (List.map_filter (\<lambda>(_, v, _). v) (map plain_command parsed)))
         else parse_objects t ca ka (Suc i) n (map plain_command parsed @ [(r, v, f)]))
        (case (case v of None \<Rightarrow> (None, m) | Some s \<Rightarrow> (case malloc_block m of (a, m) \<Rightarrow> (Some (a, s), m))) of (v, m) \<Rightarrow>
          bindR (read_block values_arr m) (\<lambda>_. bindR (read_block fs m) (\<lambda>_. bindR (read_block rs m) (\<lambda>_.
            if r < 0 then
              bindR (cJSON_Delete [root] m) (\<lambda>m. bindR (free_block rs m) (\<lambda>m. bindR (free_block fs m) (\<lambda>m.
              bindR (free_block values_arr m) (\<lambda>m. Inr (NoCommands, m)))))
            else parse_objects_mem t root ca ka rs values_arr fs (Suc i) n (parsed @ [(r, v, f)]) m))))"
    proof (cases "r < 0")
      case True
      with p printed_value have "v = None" by (cases v) fastforce+
      with w have "m1 = m" "w = None" by simp_all
      from delete_tree [OF o] obtain m2 where
        m2: "cJSON_Delete [root] m = Inr m2" "owned base (add_mset rs (add_mset fs (add_mset values_arr (string_blocks parsed + B)))) m2"
        by (auto simp: ac_simps add_mset_commute)
      from free_one [OF m2(2)] obtain m3 where
        m3: "free_block rs m2 = Inr m3" "owned base (add_mset fs (add_mset values_arr (string_blocks parsed + B))) m3" .
      from free_one [OF m3(2)] obtain m4 where
        m4: "free_block fs m3 = Inr m4" "owned base (add_mset values_arr (string_blocks parsed + B)) m4" .
      from free_one [OF m4(2)] obtain m5 where
        m5: "free_block values_arr m4 = Inr m5" "owned base (string_blocks parsed + B) m5" .
      with m2(1) m3(1) m4(1) w read True \<open>m1 = m\<close> show ?thesis
        by (auto simp: message_post_def strings_size intro!: exI [of _ "string_blocks parsed"])
    next
      case False
      have "owned base ({#rs, values_arr, fs#} + string_blocks (parsed @ [(r, w, f)]) + owns root + B) m1"
        using o1 by (simp add: ac_simps)
      from Suc.IH [OF this, of "Suc i"] False w read v show ?thesis by simp
    qed
  qed
qed

text \<open>The same steps without memory\<close>

definition commands_of_tree :: "Table hash_head \<Rightarrow> cJSON \<Rightarrow> analysed res" where
  "commands_of_tree t root =
     bindR (cJSON_GetObjectItem root (Some (lit (bytes_of ''values'')))) (\<lambda>cmdsArray.
     bindR (cJSON_GetObjectItem root (Some (lit (bytes_of ''keys'')))) (\<lambda>keysArray.
     case (cmdsArray, keysArray) of
       (Some cmdsArray, Some keysArray) \<Rightarrow>
         let cmdSize = cJSON_GetArraySize cmdsArray; keySize = cJSON_GetArraySize keysArray
         in if keySize = 0 \<or> cmdSize = 0 then Inr (Rejected [])
            else parse_objects t cmdsArray keysArray 0 (min keySize cmdSize) []
     | _ \<Rightarrow> Inr (Rejected [])))"

definition commands_of_data :: "Table hash_head \<Rightarrow> int \<times> byte list option \<Rightarrow> analysed res" where
  "commands_of_data t d =
     (if fst d \<noteq> 0 then Inr (Rejected [])
      else case snd d of
        None \<Rightarrow> Inl NullDeref
      | Some podata \<Rightarrow> bindR (cJSON_Parse (length podata + 1) podata) (\<lambda>root.
          case root of Parsed root _ \<Rightarrow> commands_of_tree t root | _ \<Rightarrow> Inr (Rejected [])))"

lemma analysis_message_steps:
  "n \<noteq> 0 \<Longrightarrow> analysis_message t (Some msg) n =
     (let len = int n - int HEADSIZE in
      bindR (reverse_crc_data (Some (drop HEADSIZE msg)) len (if len < 0 then None else Some (replicate (nat len) 0)))
        (commands_of_data t))"
  unfolding analysis_message_def commands_of_data_def commands_of_tree_def Let_def
  by (auto intro!: arg_cong2 [where f = bindR])

lemma tree_owns:
  assumes "owned base (owns root + B) m"
  shows "message_post base B (commands_of_tree t (tree_of root)) (commands_of_tree_mem t root m)"
proof -
  obtain m' where m': "cJSON_Delete [root] m = Inr m'" "owned base B m'" by (rule delete_tree [OF assms])
  obtain rs m4 where m4: "malloc_block m = (rs, m4)" by force
  obtain va m5 where m5: "malloc_block m4 = (va, m5)" by force
  obtain fs m6 where m6: "malloc_block m5 = (fs, m6)" by force
  have "owned base ({#rs, va, fs#} + string_blocks [] + owns root + B) m6"
    using owned_malloc [OF owned_malloc [OF owned_malloc [OF assms m4] m5] m6] by (simp add: add_mset_commute)
  note objects = objects_post [OF this, where i = 0, unfolded list.map]
  show ?thesis
    unfolding commands_of_tree_def commands_of_tree_mem_def bindR_simps read_tree_ok [OF assms]
    by (rule message_step, rule message_step)
      (auto simp: m'(1) m4 m5 m6 Let_def split: option.split intro: message_rejected [OF m'(2)] objects)
qed

lemma message_owns:
  assumes "owned base (at_addr (map_option fst buf) + B) m"
  shows "message_post base (at_addr (map_option fst buf) + B) (analysis_message t (map_option snd buf) n) (analysis_message_mem t buf n m)"
proof (cases "buf = None \<or> n = 0")
  case True
  with assms show ?thesis
    by (cases buf) (auto simp: analysis_message_def analysis_message_mem_def intro!: message_rejected)
next
  case False
  then obtain addr msg where buf: "buf = Some (addr, msg)" and n: "n \<noteq> 0" by auto
  let ?len = "int n - int HEADSIZE" and ?B = "add_mset addr B"
  obtain paddr m1 where p: "(if ?len < 0 then (None, m) else case malloc_block m of (p, m) \<Rightarrow> (Some p, m)) = (paddr, m1)"
    by (metis surj_pair)
  have o: "owned base (at_addr paddr + ?B) m1"
    using p assms owned_malloc [of base ?B m] buf by (auto simp: add_mset_commute split: if_splits prod.splits)
  then have addr: "read_block addr m1 = Inr ()" using owned_read by simp
  have podata: "read_optional paddr m1 = Inr ()" by (rule read_optional_ok [OF o])
  have reject: "message_post base ?B (Inr (Rejected [])) (bindR (free_unless_null paddr m') (\<lambda>m. Inr (NoCommands, m)))"
    if "owned base (at_addr paddr + ?B) m'" for m'
    by (rule free_optional [OF that]) (simp add: message_rejected)
  have tree: "message_post base ?B (commands_of_tree t (tree_of root)) (bindR (free_unless_null paddr m') (commands_of_tree_mem t root))"
    if "owned base (owns root + (at_addr paddr + ?B)) m'" for root m'
  proof -
    have "owned base (at_addr paddr + (owns root + ?B)) m'" using that by (simp add: ac_simps)
    then show ?thesis by (rule free_optional) (simp add: tree_owns)
  qed
  have "message_post base ?B (analysis_message t (Some msg) n) (analysis_message_mem t buf n m)"
    unfolding analysis_message_steps [OF n] analysis_message_mem_def buf option.case prod.case Let_def if_not_P [OF n] p addr
      bindR_simps
  proof (rule message_step, goal_cases)
    case (1 d)
    show ?case
    proof (cases "fst d = 0 \<and> snd d \<noteq> None")
      case True
      then obtain podata where d: "d = (0, Some podata)" by (cases d) auto
      note parse = parse_tree_owns [OF o, of "length podata + 1" podata]
      show ?thesis
      proof (cases "cJSON_Parse (length podata + 1) podata")
        case (Inl e)
        with parse d podata show ?thesis by (simp add: commands_of_data_def)
      next
        case (Inr q)
        with parse d podata tree reject o show ?thesis by (cases q) (auto simp: commands_of_data_def)
      qed
    next
      case False
      with reject [OF o] show ?thesis by (cases d) (auto simp: commands_of_data_def)
    qed
  qed
  with buf show ?thesis by simp
qed

section \<open>Answers\<close>

definition tree_post :: "nat set \<Rightarrow> nat multiset \<Rightarrow> cJSON res \<Rightarrow> (jnode \<times> memory) res \<Rightarrow> bool" where
  "tree_post base B p r \<longleftrightarrow>
     (case p of
        Inl e \<Rightarrow> r = Inl e
      | Inr t \<Rightarrow> \<exists>n m. r = Inr (n, m) \<and> tree_of n = t \<and> j_name n = None \<and> \<not> is_reference (j_item n) \<and>
          \<not> is_const_name (j_item n) \<and> owned base (owns n + B) m)"

lemma tree_bind:
  assumes "tree_post base C p r"
    and "\<And>n m. j_name n = None \<Longrightarrow> \<not> is_reference (j_item n) \<Longrightarrow> \<not> is_const_name (j_item n) \<Longrightarrow> owned base (owns n + C) m \<Longrightarrow>
      p = Inr (tree_of n) \<Longrightarrow> tree_post base B (f (tree_of n)) (g (n, m))"
  shows "tree_post base B (bindR p f) (bindR r g)"
  using assms by (cases p) (auto simp: tree_post_def [of base C] tree_post_def [of _ _ "Inl _"])

lemma create_node_post:
  assumes "owned base B m" and "item_type i \<le> 6" and "create_node (Node i []) m = (n, m')"
  shows "tree_post base B (Inr (Node i [])) (Inr (n, m'))"
proof -
  obtain a where "malloc_block m = (a, m')" "n = JNode a i None None []"
    using assms(3) by (auto simp: create_node_def split: prod.splits)
  with owned_malloc [OF assms(1), of a m'] no_flags_type [OF assms(2)] show ?thesis by (simp add: tree_post_def)
qed

lemma create_string_post:
  assumes "owned base B m"
  shows "tree_post base B (cJSON_CreateString msg) (create_string msg m)"
proof -
  obtain a m1 where m1: "malloc_block m = (a, m1)" by force
  obtain v m2 where m2: "malloc_block m1 = (v, m2)" by force
  have "owned base (add_mset a (add_mset v B)) m2"
    using owned_malloc [OF owned_malloc [OF assms m1] m2] by (simp add: add_mset_commute)
  with m1 m2 no_flags_type [of "cJSON_New_Item\<lparr>item_type := cJSON_String, valuestring := Some s\<rparr>" for s]
  show ?thesis
    by (cases "cJSON_strdup msg") (simp_all add: create_string_def cJSON_CreateString_def tree_post_def cJSON_String_def)
qed

lemma add_item_post:
  assumes "owned base (owns n + (owns ob + B)) m" and "j_name n = None" and "\<not> is_const_name (j_item n)"
    and "j_name ob = None" and "\<not> is_reference (j_item ob)" and "\<not> is_const_name (j_item ob)"
  shows "tree_post base B (cJSON_AddItemToObject (tree_of ob) (Some name) (Some (tree_of n))) (add_item_to_object ob name n m)"
proof (cases "cJSON_strdup (Some name)")
  case (Inl e)
  with assms(2) show ?thesis
    by (cases n) (simp add: cJSON_AddItemToObject_def add_item_to_object_def free_unless_null_def tree_post_def)
next
  case (Inr t)
  obtain a m1 where m1: "malloc_block m = (a, m1)" by force
  obtain na ni nv cs where n: "n = JNode na ni nv None cs" using assms(2) by (cases n) simp
  obtain oa oi ov os where ob: "ob = JNode oa oi ov None os" using assms(4) by (cases ob) simp
  have flags: "is_const_name (ni\<lparr>item_string := x\<rparr>) = is_const_name ni" "is_reference (ni\<lparr>item_string := x\<rparr>) = is_reference ni" for x
    by (simp_all add: is_const_name_def is_reference_def)
  have "owned base (add_mset a (owns n + (owns ob + B))) m1" by (rule owned_malloc [OF assms(1) m1])
  then have own: "owned base (owns (add_child ob (JNode na (ni\<lparr>item_string := Some t\<rparr>) nv (Some a) cs)) + B) m1"
    using assms(3) unfolding owns_add_child [OF assms(5)] by (simp add: n flags ac_simps add_mset_commute)
  have step: "add_item_to_object ob name n m = Inr (add_child ob (JNode na (ni\<lparr>item_string := Some t\<rparr>) nv (Some a) cs), m1)"
    "cJSON_AddItemToObject (tree_of ob) (Some name) (Some (tree_of n)) =
      Inr (tree_of (add_child ob (JNode na (ni\<lparr>item_string := Some t\<rparr>) nv (Some a) cs)))"
    using Inr m1 by (simp_all add: n ob cJSON_AddItemToObject_def add_item_to_object_def free_unless_null_def
      cJSON_AddItemToArray_def with_children_def add_child_def)
  show ?thesis unfolding step using own assms(4-6) by (simp add: tree_post_def add_child_def)
qed

lemma reply_object_owns:
  assumes "owned base (add_mset sd B) m"
  shows "tree_post base (add_mset sd B) (reply_object ok msg) (reply_object_mem sd ok msg m)"
proof -
  obtain root m1 where m1: "create_node cJSON_CreateObject m = (root, m1)" by force
  obtain b m2 where m2: "create_node (cJSON_CreateBool ok) m1 = (b, m2)" by force
  have root: "tree_post base (add_mset sd B) (Inr cJSON_CreateObject) (Inr (root, m1))"
    using create_node_post [OF assms] m1 by (simp add: cJSON_CreateObject_def of_type_def cJSON_Object_def)
  then have o1: "owned base (owns root + add_mset sd B) m1" by (simp add: tree_post_def)
  have b: "tree_post base (owns root + add_mset sd B) (Inr (cJSON_CreateBool ok)) (Inr (b, m2))"
    using create_node_post [OF o1] m2 by (simp add: cJSON_CreateBool_def of_type_def cJSON_True_def cJSON_False_def)
  have read: "read_block sd m1 = Inr ()" using owned_read [OF o1] by simp
  have "tree_post base (add_mset sd B) (cJSON_AddItemToObject (tree_of root) (Some (lit (bytes_of ''isopok''))) (Some (tree_of b)))
      (add_item_to_object root (lit (bytes_of ''isopok'')) b m2)"
    using root b by (intro add_item_post) (simp_all add: tree_post_def)
  then have "tree_post base (add_mset sd B)
      (bindR (cJSON_AddItemToObject (tree_of root) (Some (lit (bytes_of ''isopok''))) (Some (tree_of b))) (\<lambda>root.
       bindR (cJSON_CreateString msg) (\<lambda>s. cJSON_AddItemToObject root (Some (lit (bytes_of ''message''))) (Some s))))
      (bindR (add_item_to_object root (lit (bytes_of ''isopok'')) b m2) (\<lambda>(root, m).
       bindR (create_string msg m) (\<lambda>(s, m). add_item_to_object root (lit (bytes_of ''message'')) s m)))"
  proof (rule tree_bind, unfold prod.case)
    fix r m3 assume r: "j_name r = None" "\<not> is_reference (j_item r)" "\<not> is_const_name (j_item r)" "owned base (owns r + add_mset sd B) m3"
    show "tree_post base (add_mset sd B)
        (bindR (cJSON_CreateString msg) (\<lambda>s. cJSON_AddItemToObject (tree_of r) (Some (lit (bytes_of ''message''))) (Some s)))
        (bindR (create_string msg m3) (\<lambda>(s, m). add_item_to_object r (lit (bytes_of ''message'')) s m))"
      by (rule tree_bind [OF create_string_post [OF r(4)]]) (simp add: add_item_post r(1-3))
  qed
  with root b m1 m2 read show ?thesis by (simp add: reply_object_def reply_object_mem_def tree_post_def [of _ _ "Inr _"])
qed

lemma crc_data_length: "crc_data (Some v) (int n) buf = Inr (len, body) \<Longrightarrow> len = int n + 1"
  by (auto simp: crc_data_def bindR_eq_Inr_iff)

text \<open>The sending without memory\<close>

definition send_text :: "int \<Rightarrow> byte list \<Rightarrow> upstream \<Rightarrow> upstream res" where
  "send_text client_fd json_str st =
     bindR (strlen json_str) (\<lambda>n.
     if n > BUF4 then Inr st
     else bindR (crc_data (Some json_str) (int n) (replicate (BUF4 - HEADSIZE) 0)) (\<lambda>(len, body).
          if len = -1 then Inr st
          else bindR (convert_int_to_hex (word_of_int len) (replicate HEADSIZE 0 @ body)) (\<lambda>(_, buf).
               case writen_fd client_fd (take (nat len + HEADSIZE) buf) st of (_, _, st) \<Rightarrow> Inr st)))"

lemma write_sock_func_send:
  "write_sock_func client_fd isOpOk msg st =
     bindR (reply_object isOpOk msg) (\<lambda>root.
     bindR (cJSON_Print root) (\<lambda>json_str. case json_str of None \<Rightarrow> Inl NullDeref | Some j \<Rightarrow> send_text client_fd j st))"
  unfolding write_sock_func_def send_text_def ..

lemma send_text_leaves:
  assumes "owned base (add_mset ja (owns root + add_mset sd B)) m"
  shows "leaves base (add_mset sd B) (send_text fd j st)
    (case strlen j of Inr n \<Rightarrow> if n > BUF4 then 1 else 0 | Inl _ \<Rightarrow> 0) (send_text_mem sd fd root ja j st m)"
proof -
  have "owned base (owns root + ({#ja#} + add_mset sd B)) m" using assms by (simp add: ac_simps add_mset_commute)
  then obtain m3 where m3: "cJSON_Delete [root] m = Inr m3" "owned base ({#ja#} + add_mset sd B) m3" by (rule delete_tree)
  obtain m4 where m4: "free_block ja m = Inr m4" "owned base (owns root + add_mset sd B) m4" by (rule free_one [OF assms])
  obtain m5 where m5: "cJSON_Delete [root] m4 = Inr m5" "owned base (add_mset sd B) m5" by (rule delete_tree [OF m4(2)])
  have read: "read_block sd m = Inr ()" using owned_read [OF assms] by simp
  show ?thesis unfolding send_text_def send_text_mem_def
    using leaves_result [OF m3(2), of 1 st] m3(1) m4(1) m5 read
    by (auto split: prod.split intro!: leaves_step leaves_none [OF m5(2)] dest!: crc_data_length)
qed

lemma write_sock_leaves:
  assumes "owned base (add_mset sd B) m"
  shows "leaves base (add_mset sd B) (write_sock_func fd ok msg st) (reply_leaks ok msg) (write_sock_func_mem sd fd ok msg st m)"
proof (cases "reply_object ok msg")
  case (Inl e)
  with reply_object_owns [OF assms, of ok msg] show ?thesis
    by (simp add: write_sock_func_def write_sock_func_mem_def tree_post_def)
next
  case (Inr t)
  with reply_object_owns [OF assms, of ok msg] obtain root m1 where
    m1: "reply_object_mem sd ok msg m = Inr (root, m1)" "tree_of root = t" "owned base (owns root + add_mset sd B) m1"
    by (auto simp: tree_post_def)
  obtain ja m2 where m2: "malloc_block m1 = (ja, m2)" by force
  show ?thesis
    unfolding write_sock_func_send write_sock_func_mem_def Inr m1(1) bindR_simps prod.case read_tree_ok [OF m1(3)] m1(2) m2
  proof (rule leaves_step)
    fix p assume "cJSON_Print t = Inr p"
    with send_text_leaves [OF owned_malloc [OF m1(3) m2]] Inr
    show "leaves base (add_mset sd B) (case p of None \<Rightarrow> Inl NullDeref | Some j \<Rightarrow> send_text fd j st) (reply_leaks ok msg)
        (case p of None \<Rightarrow> Inl NullDeref | Some j \<Rightarrow> send_text_mem sd fd root ja j st m2)"
      by (cases p) (simp_all add: reply_leaks_def)
  qed
qed

section \<open>Commands\<close>

lemma reply_leaks_text:
  assumes "c_content msg"
  shows "reply_leaks ok (Some (msg @ 0 # r)) = (if length (reply_text ok msg) > 4096 then 1 else 0)"
proof -
  have "cJSON_Print (reply_tree ok msg) = Inr (Some (reply_text ok msg @ [0]))" "c_content (reply_text ok msg)"
    using print_renders(1) [OF reply_tree_ok(1) [OF assms] integers_numbers_ok [OF reply_tree_ok(2) [OF assms]],
        where depth = 0 and fmt = True]
    by (simp_all add: cJSON_Print_def render_reply)
  then show ?thesis
    using strlen_content [of "reply_text ok msg" "[]"] by (simp add: reply_leaks_def reply_object_tree [OF assms] BUF4_eq)
qed

lemma error_reply_leaks: "reply_leaks False (Some (lit (bytes_of ''connect to wow server failed''))) = 0"
proof -
  have "c_content (bytes_of ''connect to wow server failed'')" by code_simp
  moreover have "length (reply_text False (bytes_of ''connect to wow server failed'')) \<le> 4096" by code_simp
  ultimately show ?thesis using reply_leaks_text [of "bytes_of ''connect to wow server failed''" False "[]"] by (simp add: lit_def)
qed

lemma write_pipe_or_sock_exchange:
  "write_pipe_or_sock auth client_fd resp command n st =
     bindR (soap_exchange auth command n st) (\<lambda>(r, st). case r of
       None \<Rightarrow> write_fd_error_message client_fd 1 st
     | Some (nbytes, szBuf) \<Rightarrow>
         if resp = 1 \<and> nbytes > 0
         then bindR (analysis_soap_response (Some szBuf) (nat nbytes) (replicate BUF4 0) BUF4) (\<lambda>answer.
              bindR (put_answer szBuf answer) (\<lambda>(isOpOk, szBuf). write_sock_func client_fd isOpOk (Some szBuf) st))
         else Inr st)"
proof -
  obtain sock st1 where a: "make_soap_socket st = (sock, st1)" by force
  note defs = write_pipe_or_sock_def soap_exchange_def a prod.case
  show ?thesis
  proof (cases "sock \<le> 0")
    case False
    show ?thesis
    proof (cases "bindR (strlen command) (\<lambda>l. make_soap_request (Some (take l command)) n auth BUF4)")
      case (Inl e)
      with False show ?thesis by (auto simp: defs bindR_eq_Inl_iff)
    next
      case (Inr r)
      then obtain l len request where b: "strlen command = Inr l"
        "make_soap_request (Some (take l command)) n auth BUF4 = Inr (len, request)"
        by (cases r) (auto simp: bindR_eq_Inr_iff)
      let ?buf = "case request of None \<Rightarrow> replicate BUF4 0 | Some r \<Rightarrow> r @ replicate (BUF4 - length r) 0"
      obtain ret fdw st2 where c: "writen_fd sock (take len ?buf) st1 = (ret, fdw, st2)" by (rule prod_cases3)
      note steps = defs b c bindR_simps prod.case Let_def if_not_P [OF False]
      show ?thesis
      proof (cases "ret \<le> 0")
        case True
        then show ?thesis unfolding steps by simp
      next
        case ret: False
        show ?thesis
        proof (cases "readn_fd fdw ?buf st2")
          case (Inl e)
          then show ?thesis unfolding steps if_not_P [OF ret] by simp
        next
          case (Inr x)
          obtain k buf st3 where x: "x = (k, buf, st3)" by (cases x)
          show ?thesis unfolding steps if_not_P [OF ret] Inr x option.case
            by (cases "analysis_soap_response (Some buf) (nat k) (replicate BUF4 0) BUF4")
              (auto simp: put_answer_def bindR_assoc)
        qed
      qed
    qed
  qed (simp add: defs)
qed

lemma error_message_leaves:
  assumes "owned base (add_mset sd B) m"
  shows "leaves base (add_mset sd B) (write_fd_error_message fd 1 st) 0 (write_fd_error_message_mem sd fd 1 st m)"
  using write_sock_leaves [OF assms, of fd False "Some (lit (bytes_of ''connect to wow server failed''))" st,
      unfolded error_reply_leaks] owned_read [OF assms, of sd]
  by (simp add: write_fd_error_message_def write_fd_error_message_mem_def)

lemma write_pipe_leaves:
  assumes "owned base (add_mset sd B) m"
  shows "leaves base (add_mset sd B) (write_pipe_or_sock auth fd resp command n st) (exchange_leaks auth resp command n st)
    (write_pipe_or_sock_mem sd auth fd resp command n st m)"
proof (cases "soap_exchange auth command n st")
  case (Inl e)
  then show ?thesis by (simp add: write_pipe_or_sock_exchange write_pipe_or_sock_mem_def)
next
  case (Inr x)
  obtain r st' where x: "x = (r, st')" by force
  note steps = write_pipe_or_sock_exchange write_pipe_or_sock_mem_def Inr x bindR_simps prod.case
  show ?thesis
  proof (cases "\<exists>nbytes szBuf. r = Some (nbytes, szBuf) \<and> resp = 1 \<and> nbytes > 0")
    case False
    then show ?thesis unfolding steps
      using error_message_leaves [OF assms, of fd st'] leaves_none [OF assms, of st']
      by (auto simp: exchange_leaks_def Inr x split: option.split)
  next
    case True
    then obtain nbytes szBuf where r: "r = Some (nbytes, szBuf)" "resp = 1 \<and> nbytes > 0" by blast
    let ?answer = "analysis_soap_response (Some szBuf) (nat nbytes) (replicate BUF4 0) BUF4"
    let ?reply = "case bindR ?answer (put_answer szBuf) of
        Inr (isOpOk, szBuf) \<Rightarrow> reply_leaks isOpOk (Some szBuf) | Inl _ \<Rightarrow> 0"
    have k: "exchange_leaks auth resp command n st = response_leaks szBuf (nat nbytes) + ?reply"
      using r by (simp add: exchange_leaks_def Inr x)
    have "leaves base (add_mset sd B) ?answer (response_leaks szBuf (nat nbytes))
        (analysis_soap_response_mem (Some szBuf) (nat nbytes) (replicate BUF4 0) BUF4 m)"
      using response_leaves [OF assms, of szBuf "nat nbytes" "replicate BUF4 0" BUF4] by (simp add: BUF4_eq)
    then show ?thesis
      unfolding steps r(1) option.case if_P [OF r(2)] k
    proof (rule leaves_bind, unfold prod.case)
      fix a K m1 assume a: "?answer = Inr a" "owned base (K + add_mset sd B) m1"
      then have o: "owned base (add_mset sd (K + B)) m1" by simp
      have read: "read_block sd m1 = Inr ()" using owned_read [OF o] by simp
      have "leaves base (add_mset sd (K + B)) (bindR (put_answer szBuf a) (\<lambda>(isOpOk, szBuf). write_sock_func fd isOpOk (Some szBuf) st'))
          ?reply (bindR (put_answer szBuf a) (\<lambda>(isOpOk, szBuf). write_sock_func_mem sd fd isOpOk (Some szBuf) st' m1))"
      proof (rule leaves_step)
        fix y assume "put_answer szBuf a = Inr y"
        with a(1) write_sock_leaves [OF o] show "leaves base (add_mset sd (K + B))
            (case y of (isOpOk, szBuf) \<Rightarrow> write_sock_func fd isOpOk (Some szBuf) st') ?reply
            (case y of (isOpOk, szBuf) \<Rightarrow> write_sock_func_mem sd fd isOpOk (Some szBuf) st' m1)"
          by (cases y) simp
      qed
      with read show "leaves base (K + add_mset sd B)
          (bindR (put_answer szBuf a) (\<lambda>(isOpOk, szBuf). write_sock_func fd isOpOk (Some szBuf) st')) ?reply
          (bindR (read_block sd m1) (\<lambda>_. bindR (put_answer szBuf a) (\<lambda>(isOpOk, szBuf).
            write_sock_func_mem sd fd isOpOk (Some szBuf) st' m1)))"
        by simp
    qed
  qed
qed

text \<open>What a job reads while it sends the commands\<close>

definition reads_ok :: "nat \<Rightarrow> nat \<times> nat \<times> nat \<Rightarrow> (int \<times> (nat \<times> byte list) option \<times> bool) list \<Rightarrow> nat multiset \<Rightarrow> bool" where
  "reads_ok sd arrs cs B \<longleftrightarrow> sd \<in># B \<and> (case arrs of (rs, values_arr, fs) \<Rightarrow> rs \<in># B \<and> values_arr \<in># B \<and> fs \<in># B) \<and>
     set_mset (string_blocks cs) \<subseteq> set_mset B"

lemma reads_ok_Cons: "reads_ok sd arrs (c # cs) B \<Longrightarrow> reads_ok sd arrs [c] B \<and> reads_ok sd arrs cs (K + B)"
  by (cases c) (auto simp: reads_ok_def)

lemma bindR_pairs: "bindR p (\<lambda>(x, y). Inr (x, y)) = p" "bindR q (\<lambda>((x, y), z). Inr ((x, y), z)) = q"
  by (cases p; auto) (cases q; auto)

lemma run_commands_split:
  "run_commands px fd nbytes (c # cs) db st = bindR (run_commands px fd nbytes [c] db st) (\<lambda>(db, st). run_commands px fd nbytes cs db st)"
proof (cases c)
  case (fields r v p)
  show ?thesis unfolding fields run_commands.simps bindR_pairs ..
qed

lemma run_commands_mem_split:
  "run_commands_mem sd px fd nbytes arrs (c # cs) db st m =
     bindR (run_commands_mem sd px fd nbytes arrs [c] db st m) (\<lambda>((db, st), m). run_commands_mem sd px fd nbytes arrs cs db st m)"
proof (cases c; cases arrs)
  fix r v p rs va fs assume c: "c = (r, v, p)" "arrs = (rs, va, fs)"
  show ?thesis unfolding c run_commands_mem.simps bindR_pairs unfolding bindR_assoc ..
qed

lemma one_command_leaves:
  assumes "owned base B m" and "reads_ok sd arrs [c] B"
  shows "leaves base B (run_commands px fd nbytes [plain_command c] db st) (command_leaks px nbytes (plain_command c) st)
    (run_commands_mem sd px fd nbytes arrs [c] db st m)"
proof -
  obtain resp v pipe where c: "c = (resp, v, pipe)" by (cases c)
  obtain rs va fs where arrs: "arrs = (rs, va, fs)" by (cases arrs)
  have read: "read_block rs m = Inr ()" "read_block va m = Inr ()" "read_block fs m = Inr ()"
    "v = Some (a, t) \<Longrightarrow> read_block a m = Inr ()" for a t
    using assms owned_read [OF assms(1)] by (auto simp: reads_ok_def c arrs)
  obtain D where D: "B = add_mset sd D" using assms(2) by (auto simp: reads_ok_def dest: multi_member_split)
  show ?thesis
  proof (cases "resp \<ge> 0 \<and> v \<noteq> None")
    case False
    then show ?thesis using read leaves_none [OF assms(1)] by (cases v; cases pipe) (auto simp: c arrs command_leaks_def)
  next
    case True
    then obtain a t where v: "v = Some (a, t)" by auto
    show ?thesis
    proof (cases pipe)
      case False
      with True v read leaves_none [OF assms(1)] show ?thesis
        by (cases "write_db (px_sql px) (px_cwd px) (Some t) db") (simp_all add: c arrs command_leaks_def)
    next
      case pipe: True
      show ?thesis
      proof (cases "strnlen t nbytes")
        case (Inl e)
        with True v pipe read show ?thesis by (simp add: c arrs)
      next
        case (Inr n)
        have "leaves base B (write_pipe_or_sock (px_auth px) fd resp t n st) (exchange_leaks (px_auth px) resp t n st)
            (write_pipe_or_sock_mem sd (px_auth px) fd resp t n st m)"
          using write_pipe_leaves [of base sd D m] assms(1) by (simp add: D)
        then have "leaves base B (bindR (write_pipe_or_sock (px_auth px) fd resp t n st) (\<lambda>st. Inr (db, st)))
            (exchange_leaks (px_auth px) resp t n st + 0)
            (bindR (write_pipe_or_sock_mem sd (px_auth px) fd resp t n st m) (\<lambda>(st, m). Inr ((db, st), m)))"
          by (rule leaves_bind) (simp add: leaves_none)
        with True v pipe Inr read show ?thesis
          unfolding c arrs plain_command_simps run_commands.simps run_commands_mem.simps bindR_pairs
          by (simp add: command_leaks_def)
      qed
    qed
  qed
qed

lemma commands_leaves:
  assumes "owned base B m" and "reads_ok sd arrs cs B"
  shows "leaves base B (run_commands px fd nbytes (map plain_command cs) db st) (commands_leak px fd nbytes (map plain_command cs) db st)
    (run_commands_mem sd px fd nbytes arrs cs db st m)"
  using assms
proof (induction cs arbitrary: B m db st)
  case Nil
  then show ?case by (simp add: leaves_none)
next
  case (Cons c cs)
  have one: "reads_ok sd arrs [c] B" and more: "reads_ok sd arrs cs (K + B)" for K
    using reads_ok_Cons [OF Cons.prems(2)] by blast+
  show ?case
    unfolding list.map run_commands_split [of px fd nbytes "plain_command c" "map plain_command cs"]
      run_commands_mem_split [of sd px fd nbytes arrs c cs]
      commands_leak.simps
    by (rule leaves_bind [OF one_command_leaves [OF Cons.prems(1) one]])
      (use Cons.IH [OF _ more] in auto)
qed

section \<open>The job\<close>

lemma free_strings_frees:
  "owned base (string_blocks cs + B) m \<Longrightarrow> arr \<in># B \<Longrightarrow>
     frees base B (free_strings arr (map (\<lambda>(_, v, _). map_option fst v) cs) (length cs) m)"
proof (induction cs arbitrary: m)
  case Nil
  then show ?case by (simp add: frees_done)
next
  case (Cons c cs)
  obtain r v f where c: "c = (r, v, f)" by (cases c)
  have o: "owned base (at_addr (map_option fst v) + (string_blocks cs + B)) m" using Cons.prems(1) by (simp add: c ac_simps)
  have "frees base B (bindR (free_unless_null (map_option fst v) m)
      (free_strings arr (map (\<lambda>(_, v, _). map_option fst v) cs) (length cs)))"
    by (rule frees_bind [OF frees_at_addr [OF o]]) (rule Cons.IH [OF _ Cons.prems(2)])
  moreover have "read_block arr m = Inr ()" using owned_read [OF o] Cons.prems(2) by simp
  ultimately show ?case by (simp add: c)
qed

lemma free_command_frees:
  assumes "owned base ({#rs, values_arr, fs#} + string_blocks cs + B) m"
  shows "frees base B (free_command (Some rs) (Some (values_arr, map (\<lambda>(_, v, _). map_option fst v) cs)) (Some fs) (length cs) m)"
proof -
  have "owned base (string_blocks cs + add_mset rs (add_mset fs (add_mset values_arr B))) m"
    using assms by (simp add: ac_simps add_mset_commute)
  then have "frees base (add_mset rs (add_mset fs (add_mset values_arr B)))
      (free_strings values_arr (map (\<lambda>(_, v, _). map_option fst v) cs) (length cs) m)"
    by (rule free_strings_frees) simp
  then show ?thesis
    unfolding free_command_def option.case prod.case
    by (intro frees_bind) (assumption, erule frees_block, erule frees_block, erule frees_block)
qed

text \<open>What follows in a turn of the loop when the message has commands: they are sent and freed, and the loop goes on.\<close>

lemma turn_leaves:
  assumes "owned base ({#rs, values_arr, fs#} + string_blocks acs + add_mset sd B) m"
    and next_turn: "\<And>db st K m. owned base (add_mset sd (K + B)) m \<Longrightarrow>
      leaves base (add_mset sd (K + B)) (read_loop_func px fd s db st) (loop_leaks px fd s db st) (read_loop_func_mem sd px fd s db st m)"
  shows "leaves base (add_mset sd B)
    (bindR (run_commands px fd n (map plain_command acs) db st) (\<lambda>(db, st). read_loop_func px fd s db st))
    (commands_leak px fd n (map plain_command acs) db st +
      (case run_commands px fd n (map plain_command acs) db st of Inl _ \<Rightarrow> 0 | Inr (db, st) \<Rightarrow> loop_leaks px fd s db st))
    (bindR (run_commands_mem sd px fd n (rs, values_arr, fs) acs db st m) (\<lambda>((db, st), m).
     bindR (free_command (Some rs) (Some (values_arr, map (\<lambda>(_, v, _). map_option fst v) acs)) (Some fs) (length acs) m)
       (read_loop_func_mem sd px fd s db st)))"
proof (rule leaves_bind [OF commands_leaves [OF assms(1)]], goal_cases)
  case 1
  show ?case by (auto simp: reads_ok_def)
next
  case (2 x K m)
  note r = 2(1,3)
  obtain db' st' where x: "x = (db', st')" by force
  have "owned base ({#rs, values_arr, fs#} + string_blocks acs + (add_mset sd (K + B))) m"
    using r(2) by (simp add: ac_simps add_mset_commute)
  from free_command_frees [OF this] obtain m2 where
    m2: "free_command (Some rs) (Some (values_arr, map (\<lambda>(_, v, _). map_option fst v) acs)) (Some fs) (length acs) m = Inr m2"
      "owned base (add_mset sd (K + B)) m2"
    by (auto simp: frees_def)
  from next_turn [OF m2(2), of db' st'] m2(1) r(1) show ?case by (simp add: x)
qed

lemma buffer_owned:
  assumes "owned base B m"
  obtains abuf m' where "(case buf of None \<Rightarrow> Inr ((n, None, s'), m)
      | Some b \<Rightarrow> (case malloc_block m of (p, m) \<Rightarrow> Inr ((n, Some (p, b), s'), m))) = (Inr ((n, abuf, s'), m') :: (_ \<times> memory) res)"
    "map_option snd abuf = buf" "owned base (at_addr (map_option fst abuf) + B) m'"
  using assms owned_malloc [OF assms] by (cases buf; cases "malloc_block m") auto

lemma buffer_freed:
  assumes "owned base (D + (at_addr a + B)) m"
  shows "\<exists>m'. free_unless_null a m = Inr m' \<and> owned base (D + B) m'"
proof -
  have "owned base (at_addr a + (D + B)) m" using assms by (simp add: ac_simps)
  then show ?thesis by (rule free_optional) blast
qed

lemma loop_leaves:
  "owned base (add_mset sd B) m \<Longrightarrow>
     leaves base (add_mset sd B) (read_loop_func px fd s db st) (loop_leaks px fd s db st) (read_loop_func_mem sd px fd s db st m)"
proof (induction "rx_size s" arbitrary: s db st B m rule: less_induct)
  case less
  note defs = read_loop_func.simps [of px fd s] read_loop_func_mem.simps [of sd px fd s] loop_leaks.simps [of px fd s] read_normal_sock_mem_eq
  show ?case
  proof (cases "read_normal_sock s")
    case (Inr x)
    obtain nbytes buf s' where x: "x = (nbytes, buf, s')" by (cases x)
    obtain abuf m1 where m1: "(case buf of None \<Rightarrow> Inr ((nbytes, None, s'), m)
        | Some b \<Rightarrow> (case malloc_block m of (p, m) \<Rightarrow> Inr ((nbytes, Some (p, b), s'), m))) =
          (Inr ((nbytes, abuf, s'), m1) :: (_ \<times> memory) res)"
      "map_option snd abuf = buf" "owned base (at_addr (map_option fst abuf) + add_mset sd B) m1"
      by (rule buffer_owned [OF less.prems])
    note steps = defs Inr x bindR_simps prod.case m1(1)
    note post = message_owns [OF m1(3), of "px_commands px" "nat nbytes", unfolded m1(2)]
    show ?thesis
    proof (cases "nbytes < 0")
      case True
      obtain m2 where "free_unless_null (map_option fst abuf) m1 = Inr m2" "owned base (add_mset sd B) m2"
        by (rule free_optional [OF m1(3)])
      with True show ?thesis unfolding steps by (simp add: leaves_none)
    next
      case False
      show ?thesis
      proof (cases "analysis_message (px_commands px) buf (nat nbytes)")
        case (Inl e)
        with post False show ?thesis unfolding steps by simp
      next
        case a: (Inr a)
        show ?thesis
        proof (cases a)
          case (Rejected vs)
          with post a obtain K m2 where m2: "analysis_message_mem (px_commands px) abuf (nat nbytes) m1 = Inr (NoCommands, m2)"
            "size K = length vs" "owned base (K + (at_addr (map_option fst abuf) + add_mset sd B)) m2" by (auto simp: message_post_def)
          from buffer_freed [OF m2(3)] m2(1,2) a Rejected False show ?thesis unfolding steps
            by (auto intro!: leaves_result)
        next
          case (Commands cs)
          with post a obtain rs va fs acs m2 where
            m2: "analysis_message_mem (px_commands px) abuf (nat nbytes) m1 = Inr (AllocatedCommands rs va fs acs, m2)"
            "cs = map plain_command acs"
            "owned base ({#rs, va, fs#} + string_blocks acs + (at_addr (map_option fst abuf) + add_mset sd B)) m2"
            by (auto simp: message_post_def)
          obtain m3 where m3: "free_unless_null (map_option fst abuf) m2 = Inr m3"
            "owned base ({#rs, va, fs#} + string_blocks acs + add_mset sd B) m3"
            using buffer_freed [OF m2(3)] by blast
          have "rx_size s' < rx_size s"
            using read_normal_sock_shorter [of s nbytes _ s'] analysed_commands [of _ buf "nat nbytes" cs] Inr x a Commands by auto
          from turn_leaves [OF m3(2) less.hyps [OF this]] m2(1,2) m3(1) a Commands False show ?thesis unfolding steps by simp
        qed
      qed
    qed
  qed (simp add: defs)
qed

section \<open>A message that is rejected in its middle\<close>

text \<open>The second object has no member for its keys.\<close>

definition half_json :: "byte list" where
  "half_json = bytes_of ''{\"values\":[{\"op\":\"7\",\"who\":\"Bob\"},{}],\"keys\":[[\"op\",\"who\"],[\"op\",\"who\"]]}''"

definition half_message :: "byte list" where
  "half_message = [0, of_nat (length half_json + 1)] @ half_json @ [crc8_of half_json]"

definition array_node :: "cJSON list \<Rightarrow> string \<Rightarrow> cJSON" where
  "array_node cs name = Node (cJSON_New_Item\<lparr>item_type := cJSON_Array, item_string := Some (lit (bytes_of name))\<rparr>) cs"

definition half_tree :: cJSON where
  "half_tree = Node (cJSON.fields cJSON_CreateObject)
     [array_node [sample_cmds, cJSON_CreateObject] ''values'', array_node [sample_keys, sample_keys] ''keys'']"

lemma half_length: "length half_json = 73"
  by code_simp

lemma half_parsed: "cJSON_Parse 75 (half_json @ [0]) = Inr (Parsed half_tree [0])"
  by code_simp

lemma half_arrays:
  "cJSON_GetObjectItem half_tree (Some (lit (bytes_of ''values''))) = Inr (Some (array_node [sample_cmds, cJSON_CreateObject] ''values''))"
  "cJSON_GetObjectItem half_tree (Some (lit (bytes_of ''keys''))) = Inr (Some (array_node [sample_keys, sample_keys] ''keys''))"
  by code_simp+

lemma first_object:
  assumes "value_for_key d 7 = Inr (Some (command_of sample_command))"
  shows "\<exists>v. parse_object_cmd d (Some sample_cmds) (Some sample_keys) = Inr (1, Some v, True)"
proof -
  have c: "paramNum (command_of sample_command) = 1" "\<not> deprecated (command_of sample_command)"
    "needRsp (command_of sample_command)" "is2Pipe (command_of sample_command)" by (simp_all add: sample_command_def command_of_def)
  have n: "cJSON_GetArraySize sample_keys = 2" by code_simp
  have op: "vaild_item sample_cmds sample_keys 0 = Inr (0, Some (lit (bytes_of ''7'')))" by code_simp
  have key: "atoi (lit (bytes_of ''7'')) = Inr 7" by code_simp
  have ps: "take_params sample_cmds sample_keys 1 [] = Inr (0, [lit (bytes_of ''Bob'')])" by code_simp
  have "format_text (cmd_value (command_of sample_command)) [lit (bytes_of ''Bob'')] = Inr (bytes_of ''pinfo Bob'')" by code_simp
  then have out: "snprintf (MAX_BUF_SIZE * 2) (cmd_value (command_of sample_command)) [lit (bytes_of ''Bob'')] =
      Inr (take (MAX_BUF_SIZE * 2 - 1) (bytes_of ''pinfo Bob''))" by (simp add: snprintf_def)
  show ?thesis
    unfolding parse_object_cmd_def option.case prod.case n Let_def op bindR_simps key assms
    using c ps out by (simp add: op key assms)
qed

lemma second_object: "parse_object_cmd d (Some cJSON_CreateObject) (Some sample_keys) = Inr (PARAMTYPEERR, None, False)"
proof -
  have "cJSON_GetArraySize sample_keys = 2" "vaild_item cJSON_CreateObject sample_keys 0 = Inr (PARAMTYPEERR, None)" by code_simp+
  then show ?thesis by (simp add: parse_object_cmd_def)
qed

lemma half_rejected:
  assumes "value_for_key d 7 = Inr (Some (command_of sample_command))"
  shows "\<exists>v. analysis_message d (Some half_message) 76 = Inr (Rejected [v])"
proof -
  have crc: "crc8_of (half_json @ [crc8_of half_json]) = 0" by (rule crc8_of_append_crc)
  have body: "drop HEADSIZE half_message = half_json @ [crc8_of half_json]" by (simp add: half_message_def HEADSIZE_def)
  have "reverse_crc_data (Some (half_json @ [crc8_of half_json])) (int 74) (Some (replicate 74 0)) = Inr (0, Some (half_json @ [0]))"
    by (subst reverse_crc_data_longer) (simp_all add: half_length crc)
  moreover have items: "cJSON_GetArrayItem (array_node [sample_cmds, cJSON_CreateObject] ''values'') (int 0) = Some sample_cmds"
    "cJSON_GetArrayItem (array_node [sample_cmds, cJSON_CreateObject] ''values'') (int 1) = Some cJSON_CreateObject"
    "cJSON_GetArrayItem (array_node [sample_keys, sample_keys] ''keys'') (int 0) = Some sample_keys"
    "cJSON_GetArrayItem (array_node [sample_keys, sample_keys] ''keys'') (int 1) = Some sample_keys"
    "cJSON_GetArraySize (array_node [sample_cmds, cJSON_CreateObject] ''values'') = 2"
    "cJSON_GetArraySize (array_node [sample_keys, sample_keys] ''keys'') = 2"
    by (simp_all add: array_node_def cJSON_GetArrayItem_def cJSON_GetArraySize_def)
  moreover obtain v where v: "parse_object_cmd d (Some sample_cmds) (Some sample_keys) = Inr (1, Some v, True)"
    using first_object [OF assms] by blast
  have "parse_objects d (array_node [sample_cmds, cJSON_CreateObject] ''values'') (array_node [sample_keys, sample_keys] ''keys'')
      0 (min 2 2) [] = Inr (Rejected [v])"
    using items by (simp add: numeral_2_eq_2 v second_object PARAMTYPEERR_def map_filter_simps)
  then have "commands_of_tree d half_tree = Inr (Rejected [v])"
    unfolding commands_of_tree_def half_arrays bindR_simps prod.case option.case items(5,6) Let_def by simp
  moreover have "length (half_json @ [0 :: byte]) + 1 = 75" by (simp add: half_length)
  ultimately have "commands_of_data d (0, Some (half_json @ [0])) = Inr (Rejected [v])"
    unfolding commands_of_data_def by (simp add: half_length half_parsed)
  then show ?thesis
    using \<open>reverse_crc_data _ _ _ = _\<close> body by (simp add: analysis_message_steps HEADSIZE_def)
qed

section \<open>Properties\<close>

text \<open>
  C16: What is left of a message. \<open>analysis_message_mem\<close> has the fault or the result of \<open>analysis_message\<close>, and
  reads and frees only what is allocated. When the message is rejected at once, by its checksum, its JSON text or its
  arrays, everything that was allocated for it is free again. When it is rejected because of one of its objects, exactly the
  strings of the objects before that one are lost. When it has commands, the three arrays and the strings of the commands
  are all that is left, and \<open>free_command\<close> frees them.
\<close>

theorem analysis_message_memory:
  assumes "memory_ok m" and "a \<in> live m"
  shows "case analysis_message d (Some msg) n of
      Inl e \<Rightarrow> analysis_message_mem d (Some (a, msg)) n m = Inl e
    | Inr (Rejected vs) \<Rightarrow> \<exists>m'. analysis_message_mem d (Some (a, msg)) n m = Inr (NoCommands, m') \<and>
        live m \<subseteq> live m' \<and> finite (live m' - live m) \<and> card (live m' - live m) = length vs
    | Inr (Commands cs) \<Rightarrow> \<exists>rs values_arr fs acs m' m''.
        analysis_message_mem d (Some (a, msg)) n m = Inr (AllocatedCommands rs values_arr fs acs, m') \<and>
        map plain_command acs = cs \<and>
        free_command (Some rs) (Some (values_arr, map (\<lambda>(_, v, _). map_option fst v) acs)) (Some fs) (length acs) m' = Inr m'' \<and>
        live m'' = live m"
proof -
  let ?base = "live m - {a}"
  have "owned ?base (at_addr (map_option fst (Some (a, msg))) + {#}) m" using assms by (auto simp: owned_def memory_ok_def)
  from message_owns [OF this, of d n]
  have post: "message_post ?base {#a#} (analysis_message d (Some msg) n) (analysis_message_mem d (Some (a, msg)) n m)" by simp
  show ?thesis
  proof (cases "analysis_message d (Some msg) n")
    case (Inr r)
    show ?thesis
    proof (cases r)
      case (Rejected vs)
      with post Inr obtain K m' where m': "analysis_message_mem d (Some (a, msg)) n m = Inr (NoCommands, m')"
        "size K = length vs" "owned ?base (K + {#a#}) m'" by (auto simp: message_post_def)
      from m'(3) have one: "count (K + {#a#}) x \<le> 1" for x by (simp only: owned_def)
      have "count K x \<le> 1" for x using one [of x] by (simp split: if_splits)
      then have "size K = card (set_mset K)" by (rule size_one_each)
      moreover have "a \<notin># K" using one [of a] by (simp add: not_in_iff)
      then have "live m' - live m = set_mset K" "live m \<subseteq> live m'" using m'(3) assms(2) by (auto simp: owned_def)
      ultimately show ?thesis using m' Inr Rejected by simp
    next
      case (Commands cs)
      with post Inr obtain rs va fs acs m' where m': "analysis_message_mem d (Some (a, msg)) n m = Inr (AllocatedCommands rs va fs acs, m')"
        "map plain_command acs = cs" "owned ?base ({#rs, va, fs#} + string_blocks acs + {#a#}) m'" by (auto simp: message_post_def)
      from free_command_frees [OF m'(3)] obtain m'' where
        "free_command (Some rs) (Some (va, map (\<lambda>(_, v, _). map_option fst v) acs)) (Some fs) (length acs) m' = Inr m''"
        "owned ?base {#a#} m''" by (auto simp: frees_def)
      moreover from this(2) have "live m'' = live m" using assms(2) by (auto simp: owned_def)
      ultimately show ?thesis using m'(1,2) Inr Commands by (auto intro!: exI)
    qed
  qed (use post in simp)
qed

theorem analysis_message_memory_witness:
  "\<exists>d m'. value_for_key d 7 = Inr (Some (command_of sample_command)) \<and>
    analysis_message_mem d (Some (0, half_message)) 76 \<lparr>live = {0}, next_block = 1\<rparr> = Inr (NoCommands, m') \<and>
    card (live m' - {0}) = 1"
proof -
  obtain d where d: "value_for_key d 7 = Inr (Some (command_of sample_command))" using sample_command_table by blast
  from half_rejected [OF d] obtain v where "analysis_message d (Some half_message) 76 = Inr (Rejected [v])" ..
  with analysis_message_memory [of "\<lparr>live = {0}, next_block = 1\<rparr>" 0 d half_message 76] d show ?thesis
    by (auto simp: memory_ok_def)
qed

text \<open>
  C6: A job leaves what it must. The job of reading with its memory has the fault or the result of the job without; so it
  never uses or frees a block that is not allocated. When it ends, the buffers of all messages, their
  trees, the arrays and strings of the commands, the trees of the answers and the data of the job have been freed, each once,
  and nothing else. What is left is what \<open>loop_leaks\<close> counts: the strings of a message that was rejected in its
  middle, the document of a response without the element, and the text of an answer that is longer than the buffer.
\<close>

theorem read_sock_memory:
  assumes "memory_ok m" and "sockData \<in> live m"
  shows "case read_sock_func px fd s st of
      Inl e \<Rightarrow> read_sock_func_mem sockData px fd s st m = Inl e
    | Inr x \<Rightarrow> \<exists>m'. read_sock_func_mem sockData px fd s st m = Inr (x, m') \<and>
        live m - {sockData} \<subseteq> live m' \<and> sockData \<notin> live m' \<and> finite (live m' - live m) \<and>
        card (live m' - live m) = loop_leaks px fd s None st"
proof -
  let ?base = "live m - {sockData}"
  have own: "owned ?base (add_mset sockData {#}) m" using assms by (auto simp: owned_def memory_ok_def)
  then have read: "read_block sockData m = Inr ()" using owned_read by simp
  from loop_leaves [OF own, of px fd s None st] show ?thesis
  proof (cases rule: leavesE)
    case (fault e)
    with read show ?thesis by (simp add: read_sock_func_def read_sock_func_mem_def)
  next
    case (result x K m1)
    obtain s' db st' where x: "x = (s', db, st')" by (cases x)
    from result(4) have one: "count (K + {#sockData#}) y \<le> 1" for y by (simp only: owned_def)
    have "count K y \<le> 1" for y using one [of y] by (simp split: if_splits)
    then have k: "size K = card (set_mset K)" by (rule size_one_each)
    have "sockData \<notin># K" using one [of sockData] by (simp add: not_in_iff)
    moreover have "owned ?base (add_mset sockData K) m1" using result(4) by simp
    then obtain m2 where m2: "free_block sockData m1 = Inr m2" "owned ?base K m2" by (rule free_one)
    ultimately have "live m2 - live m = set_mset K" "?base \<subseteq> live m2" "sockData \<notin> live m2" by (auto simp: owned_def)
    with result(1-3) m2(1) read k show ?thesis
      by (cases "close_db db") (simp_all add: read_sock_func_def read_sock_func_mem_def x)
  qed
qed

text \<open>A frame with a wrong checksum: its buffer and the data of the job are freed.\<close>

theorem read_sock_memory_witness:
  "\<exists>m'. read_sock_func_mem 0 sample_proxy 7 [RxData [0, 2, 7, 8]] quiet \<lparr>live = {0, 1}, next_block = 2\<rparr> = Inr (([], quiet), m') \<and>
    live m' = {1}"
proof -
  have "read_normal_sock [RxData [0, 2, 7, 8]] = Inr (4, Some [0, 2, 7, 8], [])" by code_simp
  moreover have "analysis_message (px_commands sample_proxy) (Some [0, 2, 7, 8]) 4 = Inr (Rejected [])" by code_simp
  ultimately have run: "read_sock_func sample_proxy 7 [RxData [0, 2, 7, 8]] quiet = Inr ([], quiet)"
    and leaks: "loop_leaks sample_proxy 7 [RxData [0, 2, 7, 8]] None quiet = 0"
    by (simp_all add: read_sock_func_def read_loop_func.simps loop_leaks.simps close_db_def)
  let ?m = "\<lparr>live = {0, 1}, next_block = 2\<rparr>"
  have ok: "memory_ok ?m" "0 \<in> live ?m" by (simp_all add: memory_ok_def)
  from read_sock_memory [OF ok, of sample_proxy 7 "[RxData [0, 2, 7, 8]]" quiet, unfolded run leaks sum.case] obtain m' where
    m': "read_sock_func_mem 0 sample_proxy 7 [RxData [0, 2, 7, 8]] quiet ?m = Inr (([], quiet), m')"
    "live ?m - {0} \<subseteq> live m'" "0 \<notin> live m'" and rest: "finite (live m' - live ?m)" "card (live m' - live ?m) = 0" by blast
  from rest have "live m' - live ?m = {}" by (simp only: card_0_eq)
  with m'(2,3) have "live m' = {1}" by auto
  with m'(1) show ?thesis by blast
qed

end
