(* ===== verification/UthashSort.thy ===== *)
theory UthashSort
  imports Uthash
begin

text \<open>
  Sorting and insertion in order (\<^verbatim>\<open>common/uthash/uthash.h\<close>). \<open>HASH_SRT\<close> is a merge sort from the bottom up that
  rearranges the doubly linked list of a table in place; it is modelled pointer by pointer. An element and its
  handle have the same address.
\<close>

section \<open>The linked list\<close>

record 'e hh_link =
  hh_next :: "nat option"
  hh_prev :: "nat option"
  hh_item :: 'e

type_synonym 'e link_heap = "nat \<rightharpoonup> 'e hh_link"

definition link_at :: "'e link_heap \<Rightarrow> nat option \<Rightarrow> (nat \<times> 'e hh_link) res" where
  "link_at h p =
     (case p of
        None \<Rightarrow> Inl NullDeref
      | Some a \<Rightarrow> (case h a of None \<Rightarrow> Inl UseAfterFree | Some n \<Rightarrow> Inr (a, n)))"

definition next_of :: "'e link_heap \<Rightarrow> nat option \<Rightarrow> nat option res" where
  "next_of h p = bindR (link_at h p) (\<lambda>(_, n). Inr (hh_next n))"

section \<open>The sort\<close>

text \<open>The loop that finds the second run: \<open>_hs_q\<close> is moved over at most \<open>_hs_insize\<close> elements, and \<open>_hs_psize\<close> counts them.\<close>

primrec find_q :: "'e link_heap \<Rightarrow> nat \<Rightarrow> nat option \<Rightarrow> nat \<Rightarrow> (nat \<times> nat option) res" where
  "find_q h 0 q psize = Inr (psize, q)"
| "find_q h (Suc i) q psize =
     bindR (next_of h q) (\<lambda>q. if q = None then Inr (psize + 1, None) else find_q h i q (psize + 1))"

text \<open>The branches that choose the next element \<open>_hs_e\<close>; with it \<open>_hs_p\<close>, \<open>_hs_q\<close>, \<open>_hs_psize\<close> and \<open>_hs_qsize\<close> afterwards\<close>

definition choose_e :: "('e \<Rightarrow> 'e \<Rightarrow> int) \<Rightarrow> 'e link_heap \<Rightarrow> nat option \<Rightarrow> nat option \<Rightarrow> nat \<Rightarrow> nat \<Rightarrow>
    (nat option \<times> nat option \<times> nat option \<times> nat \<times> nat) res" where
  "choose_e cmp h p q psize qsize =
     (if psize = 0 then bindR (next_of h q) (\<lambda>q'. Inr (q, p, q', psize, qsize - 1))
      else if qsize = 0 \<or> q = None then
        bindR (if p = None then Inr None else next_of h p) (\<lambda>p'. Inr (p, p', q, psize - 1, qsize))
      else bindR (link_at h p) (\<lambda>(_, n).
           bindR (link_at h q) (\<lambda>(_, n').
             if cmp (hh_item n) (hh_item n') \<le> 0 then Inr (p, hh_next n, q, psize - 1, qsize)
             else Inr (q, p, hh_next n', psize, qsize - 1))))"

text \<open>The element is linked behind \<open>_hs_tail\<close>, or becomes the first of \<open>_hs_list\<close>.\<close>

definition attach :: "'e link_heap \<Rightarrow> nat option \<Rightarrow> nat option \<Rightarrow> nat option \<Rightarrow>
    ('e link_heap \<times> nat option \<times> nat option) res" where
  "attach h hs_list tail e =
     bindR (if tail = None then Inr (h, e)
            else bindR (link_at h tail) (\<lambda>(t, n). Inr (h(t \<mapsto> n\<lparr>hh_next := e\<rparr>), hs_list))) (\<lambda>(h, hs_list).
     bindR (if e = None then Inr h
            else bindR (link_at h e) (\<lambda>(a, n). Inr (h(a \<mapsto> n\<lparr>hh_prev := tail\<rparr>)))) (\<lambda>h.
       Inr (h, hs_list, e)))"

lemma choose_e_less:
  "choose_e cmp h p q psize qsize = Inr (e, p', q', psize', qsize') \<Longrightarrow> psize \<noteq> 0 \<or> (qsize \<noteq> 0 \<and> q \<noteq> None) \<Longrightarrow>
     psize' + qsize' < psize + qsize"
  by (auto simp: choose_e_def bindR_eq_Inr_iff split: if_splits)

text \<open>The loop that merges two runs: the heap, \<open>_hs_q\<close>, \<open>_hs_list\<close> and \<open>_hs_tail\<close> at its end\<close>

function merge_runs :: "('e \<Rightarrow> 'e \<Rightarrow> int) \<Rightarrow> 'e link_heap \<Rightarrow> nat option \<Rightarrow> nat option \<Rightarrow> nat \<Rightarrow> nat \<Rightarrow>
    nat option \<Rightarrow> nat option \<Rightarrow> ('e link_heap \<times> nat option \<times> nat option \<times> nat option) res" where
  "merge_runs cmp h p q psize qsize hs_list tail =
     (if psize \<noteq> 0 \<or> (qsize \<noteq> 0 \<and> q \<noteq> None)
      then bindR (choose_e cmp h p q psize qsize) (\<lambda>(e, p, q, psize, qsize).
           bindR (attach h hs_list tail e) (\<lambda>(h, hs_list, tail).
             merge_runs cmp h p q psize qsize hs_list tail))
      else Inr (h, q, hs_list, tail))"
  by pat_completeness auto
termination
  by (relation "measure (\<lambda>(cmp, h, p, q, psize, qsize, l, t). psize + qsize)") (auto dest: choose_e_less)

declare merge_runs.simps [simp del]

text \<open>
  A pass over the list, and the passes with runs of twice the length; without enough fuel there is no result. The length of
  a run wraps at 32 bits; \<open>_hs_nmerges\<close> and \<open>_hs_psize\<close> count elements, of which \<open>num_items\<close> allows fewer than that.
\<close>

fun sort_pass :: "('e \<Rightarrow> 'e \<Rightarrow> int) \<Rightarrow> nat \<Rightarrow> nat \<Rightarrow> 'e link_heap \<Rightarrow> nat option \<Rightarrow> nat option \<Rightarrow> nat option \<Rightarrow> nat \<Rightarrow>
    ('e link_heap \<times> nat option \<times> nat option \<times> nat) option res" where
  "sort_pass cmp fuel insize h None hs_list tail nmerges = Inr (Some (h, hs_list, tail, nmerges))"
| "sort_pass cmp 0 insize h (Some p) hs_list tail nmerges = Inr None"
| "sort_pass cmp (Suc fuel) insize h (Some p) hs_list tail nmerges =
     bindR (find_q h insize (Some p) 0) (\<lambda>(psize, q).
     bindR (merge_runs cmp h (Some p) q psize insize hs_list tail) (\<lambda>(h, q, hs_list, tail).
       sort_pass cmp fuel insize h q hs_list tail (nmerges + 1)))"

fun sort_loop :: "('e \<Rightarrow> 'e \<Rightarrow> int) \<Rightarrow> nat \<Rightarrow> nat \<Rightarrow> nat \<Rightarrow> 'e link_heap \<Rightarrow> nat option \<Rightarrow>
    ('e link_heap \<times> nat option \<times> nat option) option res" where
  "sort_loop cmp n 0 insize h hs_list = Inr None"
| "sort_loop cmp n (Suc fuel) insize h hs_list =
     bindF (sort_pass cmp n insize h hs_list None None 0) (\<lambda>(h, hs_list, tail, nmerges).
     bindR (if tail = None then Inr h
            else bindR (link_at h tail) (\<lambda>(t, n). Inr (h(t \<mapsto> n\<lparr>hh_next := None\<rparr>)))) (\<lambda>h.
     if nmerges \<le> 1 then Inr (Some (h, hs_list, tail))
     else sort_loop cmp n fuel ((insize * 2) mod 2 ^ 32) h hs_list))"

text \<open>The heap, the head of the table and its \<open>tail\<close>; a null head is left alone.\<close>

definition HASH_SRT :: "('e \<Rightarrow> 'e \<Rightarrow> int) \<Rightarrow> nat \<Rightarrow> 'e link_heap \<Rightarrow> nat option \<Rightarrow>
    ('e link_heap \<times> nat option \<times> nat option) option res" where
  "HASH_SRT cmp fuel h head =
     (if head = None then Inr (Some (h, None, None)) else sort_loop cmp fuel fuel 1 h head)"

section \<open>Merging and sorting lists\<close>

fun merged :: "('a \<Rightarrow> 'a \<Rightarrow> bool) \<Rightarrow> 'a list \<Rightarrow> 'a list \<Rightarrow> 'a list" where
  "merged le [] ys = ys"
| "merged le (x # xs) [] = x # xs"
| "merged le (x # xs) (y # ys) = (if le x y then x # merged le xs (y # ys) else y # merged le (x # xs) ys)"

function pass :: "('a \<Rightarrow> 'a \<Rightarrow> bool) \<Rightarrow> nat \<Rightarrow> 'a list \<Rightarrow> 'a list" where
  "pass le n xs =
     (if n = 0 \<or> xs = [] then xs
      else merged le (take n xs) (take n (drop n xs)) @ pass le n (drop n (drop n xs)))"
  by pat_completeness auto
termination
  by (relation "measure (\<lambda>(le, n, xs). length xs)") auto

declare pass.simps [simp del]

lemma merged_Nil [simp]: "merged le xs [] = xs"
  by (cases xs) simp_all

lemma mset_merged [simp]: "mset (merged le xs ys) = mset xs + mset ys"
  by (induction le xs ys rule: merged.induct) simp_all

lemma set_merged [simp]: "set (merged le xs ys) = set xs \<union> set ys"
  by (induction le xs ys rule: merged.induct) auto

lemma sorted_merged:
  fixes f :: "'a \<Rightarrow> 'k :: linorder"
  shows "sorted (map f xs) \<Longrightarrow> sorted (map f ys) \<Longrightarrow> sorted (map f (merged (\<lambda>x y. f x \<le> f y) xs ys))"
  by (induction "\<lambda>x y. f x \<le> f y" xs ys rule: merged.induct) auto

text \<open>A merge of sorted lists keeps the order of the elements with the same key.\<close>

lemma stable_merged:
  fixes f :: "'a \<Rightarrow> 'k :: linorder"
  shows "sorted (map f xs) \<Longrightarrow> sorted (map f ys) \<Longrightarrow>
    filter (\<lambda>x. f x = k) (merged (\<lambda>x y. f x \<le> f y) xs ys) = filter (\<lambda>x. f x = k) xs @ filter (\<lambda>x. f x = k) ys"
proof (induction "\<lambda>x y. f x \<le> f y" xs ys rule: merged.induct)
  case (3 x xs y ys)
  have "filter (\<lambda>z. f z = k) (x # xs) = []" if "f y = k" "\<not> f x \<le> f y"
    using 3(3) that by (fastforce simp: filter_empty_conv)
  with 3 show ?case by auto
qed simp_all

text \<open>The runs of a list: each but the last has the length \<open>n\<close>, and each is sorted.\<close>

definition runs_sorted :: "('a \<Rightarrow> 'k :: linorder) \<Rightarrow> nat \<Rightarrow> 'a list \<Rightarrow> bool" where
  "runs_sorted f n xs \<longleftrightarrow> (\<forall>i. sorted (map f (take n (drop (i * n) xs))))"

lemma runs_sorted_first: "runs_sorted f n xs \<Longrightarrow> sorted (map f (take n xs))"
  by (auto simp: runs_sorted_def dest: spec [of _ 0])

lemma runs_sorted_drop: "runs_sorted f n xs \<Longrightarrow> runs_sorted f n (drop n xs)"
  unfolding runs_sorted_def by (metis add.commute drop_drop mult_Suc)

lemma pass_mset: "mset (pass le n xs) = mset xs"
proof (induction le n xs rule: pass.induct)
  case (1 le n xs)
  show ?case
  proof (cases "n = 0 \<or> xs = []")
    case False
    have "mset xs = mset (take n xs) + (mset (take n (drop n xs)) + mset (drop n (drop n xs)))"
      by (metis append_take_drop_id mset_append)
    with 1 [OF False] False show ?thesis by (simp add: pass.simps [of le n xs] add.assoc)
  qed (simp add: pass.simps)
qed

lemma pass_stable:
  fixes f :: "'a \<Rightarrow> 'k :: linorder"
  assumes "runs_sorted f n xs"
  shows "filter (\<lambda>x. f x = k) (pass (\<lambda>x y. f x \<le> f y) n xs) = filter (\<lambda>x. f x = k) xs"
  using assms
proof (induction "\<lambda>x y. f x \<le> f y" n xs rule: pass.induct)
  case (1 n xs)
  show ?case
  proof (cases "n = 0 \<or> xs = []")
    case False
    note r = runs_sorted_first [OF 1(2)] runs_sorted_first [OF runs_sorted_drop [OF 1(2)]]
    have "xs = take n xs @ take n (drop n xs) @ drop n (drop n xs)"
      by (metis append_take_drop_id)
    then have "filter (\<lambda>x. f x = k) xs = filter (\<lambda>x. f x = k) (take n xs) @ filter (\<lambda>x. f x = k) (take n (drop n xs)) @
        filter (\<lambda>x. f x = k) (drop n (drop n xs))" by (metis filter_append)
    with 1(1) [OF False runs_sorted_drop [OF runs_sorted_drop [OF 1(2)]]] False stable_merged [OF r] show ?thesis
      by (simp add: pass.simps [of _ n xs])
  qed (simp add: pass.simps)
qed

lemma length_merged [simp]: "length (merged le xs ys) = length xs + length ys"
  by (induction le xs ys rule: merged.induct) simp_all

lemma runs_sorted_append:
  assumes "sorted (map f ys)" and "length ys = n \<or> (length ys \<le> n \<and> xs = [])" and "runs_sorted f n xs"
  shows "runs_sorted f n (ys @ xs)"
  unfolding runs_sorted_def
proof
  fix i
  show "sorted (map f (take n (drop (i * n) (ys @ xs))))"
  proof (cases i)
    case 0
    with assms(1,2) show ?thesis by auto
  next
    case (Suc j)
    from assms(2) show ?thesis
    proof
      assume "length ys = n"
      then have "drop (i * n) (ys @ xs) = drop (j * n) xs" using Suc by simp
      with assms(3) show ?thesis by (simp add: runs_sorted_def)
    next
      assume "length ys \<le> n \<and> xs = []"
      then have "drop (i * n) (ys @ xs) = []" using Suc by simp
      then show ?thesis by simp
    qed
  qed
qed

lemma pass_runs:
  fixes f :: "'a \<Rightarrow> 'k :: linorder"
  assumes "runs_sorted f n xs"
  shows "runs_sorted f (2 * n) (pass (\<lambda>x y. f x \<le> f y) n xs)"
  using assms
proof (induction "\<lambda>x y. f x \<le> f y" n xs rule: pass.induct)
  case (1 n xs)
  show ?case
  proof (cases "n = 0 \<or> xs = []")
    case True
    then show ?thesis by (auto simp: pass.simps runs_sorted_def)
  next
    case False
    note r = runs_sorted_first [OF 1(2)] runs_sorted_first [OF runs_sorted_drop [OF 1(2)]]
    let ?rest = "pass (\<lambda>x y. f x \<le> f y) n (drop n (drop n xs))"
    have "?rest = []" if "length xs < 2 * n" using that by (simp add: pass.simps)
    with 1(1) [OF False runs_sorted_drop [OF runs_sorted_drop [OF 1(2)]]] False sorted_merged [OF r] show ?thesis
      by (subst pass.simps) (auto intro!: runs_sorted_append)
  qed
qed

text \<open>Passes with runs of twice the length, until one run is left, sort the list and keep equal elements in order.\<close>

lemma pass_length [simp]: "length (pass le n xs) = length xs"
  by (metis pass_mset size_mset)

lemma sorted_by_passes:
  fixes f :: "'a \<Rightarrow> 'k :: linorder"
  assumes "runs_sorted f n xs" and "length xs \<le> 2 * n"
  shows "pass (\<lambda>x y. f x \<le> f y) n xs = sort_key f xs"
proof -
  let ?ys = "pass (\<lambda>x y. f x \<le> f y) n xs"
  have "sorted (map f ?ys)" using runs_sorted_first [OF pass_runs [OF assms(1)]] assms(2) by simp
  then show ?thesis
    using pass_stable [OF assms(1)] pass_mset [of _ n xs]
    by (intro properties_for_sort_key [symmetric]) (simp_all add: eq_commute)
qed

lemma sort_key_pass:
  fixes f :: "'a \<Rightarrow> 'k :: linorder"
  assumes "runs_sorted f n xs"
  shows "sort_key f (pass (\<lambda>x y. f x \<le> f y) n xs) = sort_key f xs"
proof (rule properties_for_sort_key)
  fix y
  have "(\<lambda>x. f y = f x) = (\<lambda>x. f x = f y)" by auto
  then show "filter (\<lambda>x. f y = f x) (sort_key f xs) = filter (\<lambda>x. f y = f x) (pass (\<lambda>x y. f x \<le> f y) n xs)"
    by (simp only: sort_key_stable pass_stable [OF assms])
qed (simp_all add: pass_mset)

section \<open>The list in the heap\<close>

text \<open>A path along \<open>next\<close>, and a list with both links; the \<open>next\<close> of its last element may be anything.\<close>

primrec path :: "'e link_heap \<Rightarrow> nat option \<Rightarrow> nat list \<Rightarrow> nat option \<Rightarrow> bool" where
  "path h p [] r \<longleftrightarrow> p = r"
| "path h p (a # as) r \<longleftrightarrow> p = Some a \<and> (\<exists>n. h a = Some n \<and> path h (hh_next n) as r)"

fun linked :: "'e link_heap \<Rightarrow> nat option \<Rightarrow> nat list \<Rightarrow> bool" where
  "linked h b [] \<longleftrightarrow> True"
| "linked h b [a] \<longleftrightarrow> (\<exists>n. h a = Some n \<and> hh_prev n = b)"
| "linked h b (a # a' # as) \<longleftrightarrow>
     (\<exists>n. h a = Some n \<and> hh_prev n = b \<and> hh_next n = Some a') \<and> linked h (Some a) (a' # as)"

definition first_of :: "nat list \<Rightarrow> nat option" where
  "first_of as = (if as = [] then None else Some (hd as))"

definition last_of :: "nat list \<Rightarrow> nat option" where
  "last_of as = (if as = [] then None else Some (last as))"

definition holds_items :: "(nat \<Rightarrow> 'e) \<Rightarrow> 'e link_heap \<Rightarrow> bool" where
  "holds_items item h \<longleftrightarrow> (\<forall>a n. h a = Some n \<longrightarrow> hh_item n = item a)"

lemma ends_simps [simp]:
  "first_of [] = None" "last_of [] = None" "first_of (a # as) = Some a" "last_of (as @ [a]) = Some a" "last_of [a] = Some a"
  "first_of (as @ [a]) = (case first_of as of None \<Rightarrow> Some a | Some b \<Rightarrow> Some b)"
  "last_of as = None \<longleftrightarrow> as = []" "first_of as = None \<longleftrightarrow> as = []"
  by (simp_all add: first_of_def last_of_def)

lemma path_append: "path h p (as @ bs) r \<longleftrightarrow> (\<exists>m. path h p as m \<and> path h m bs r)"
  by (induction as arbitrary: p) auto

lemma path_cong: "(\<And>a. a \<in> set as \<Longrightarrow> h' a = h a) \<Longrightarrow> path h' p as r = path h p as r"
  by (induction as arbitrary: p) auto

lemma path_None [simp]: "path h None as r \<longleftrightarrow> as = [] \<and> r = None"
  by (cases as) auto

lemma path_null: "path h p as None \<Longrightarrow> p = None \<longleftrightarrow> as = []"
  by (cases as) auto

lemma linked_cong: "(\<And>a. a \<in> set as \<Longrightarrow> h' a = h a) \<Longrightarrow> linked h' b as = linked h b as"
  by (induction h b as rule: linked.induct) auto

lemma linked_last: "linked h b as \<Longrightarrow> as \<noteq> [] \<Longrightarrow> \<exists>n. h (last as) = Some n"
  by (induction h b as rule: linked.induct) auto

text \<open>Setting the \<open>next\<close> of the last element does not matter to the list before it; an element can be linked behind it.\<close>

lemma linked_set_next:
  assumes "linked h b as" and "as \<noteq> []" and "distinct as" and "h (last as) = Some n"
  shows "linked (h(last as \<mapsto> n\<lparr>hh_next := r\<rparr>)) b as"
  using assms
proof (induction h b as rule: linked.induct)
  case (3 h b a a' as)
  then have "a \<noteq> last (a' # as)" "last (a # a' # as) = last (a' # as)" by (metis distinct.simps(2) last_in_set list.distinct(1), simp)
  with 3 show ?case by simp
qed simp_all

lemma linked_snoc:
  assumes "linked h b as" and "as \<noteq> []" and "distinct (as @ [e])" and "h (last as) = Some n" and "hh_next n = Some e"
    and "h e = Some m" and "hh_prev m = Some (last as)"
  shows "linked h b (as @ [e])"
  using assms by (induction h b as rule: linked.induct) (auto split: if_splits)

section \<open>The sort in the heap\<close>

text \<open>What was merged so far is the list \<open>out\<close>; \<open>l\<close> and \<open>t\<close> are its first and its last element.\<close>

definition merged_so_far ::
    "(nat \<Rightarrow> 'e) \<Rightarrow> 'e link_heap \<Rightarrow> nat list \<Rightarrow> nat option \<Rightarrow> nat option \<Rightarrow> bool" where
  "merged_so_far item h out l t \<longleftrightarrow>
     holds_items item h \<and> linked h None out \<and> l = first_of out \<and> t = last_of out"

lemma holds_items_upd [simp]:
  "holds_items item h \<Longrightarrow> h a = Some n \<Longrightarrow> holds_items item (h(a \<mapsto> n\<lparr>hh_next := r\<rparr>))"
  "holds_items item h \<Longrightarrow> h a = Some n \<Longrightarrow> holds_items item (h(a \<mapsto> n\<lparr>hh_prev := r\<rparr>))"
  by (auto simp: holds_items_def)

lemma attach_ok:
  assumes m: "merged_so_far item h out l t" and d: "distinct (out @ [e])" and e: "h e = Some n"
  shows "\<exists>h' l'. attach h l t (Some e) = Inr (h', l', Some e) \<and> merged_so_far item h' (out @ [e]) l' (Some e) \<and>
    (\<forall>a. a \<notin> set (out @ [e]) \<longrightarrow> h' a = h a)"
proof (cases "out = []")
  case True
  with m e show ?thesis by (auto simp: attach_def merged_so_far_def link_at_def)
next
  case False
  let ?t = "last out"
  from m False obtain n' where n': "h ?t = Some n'" using linked_last by (fastforce simp: merged_so_far_def)
  have ne: "?t \<noteq> e" "t = Some ?t" using d m False by (auto simp: merged_so_far_def last_of_def)
  let ?h = "h(?t \<mapsto> n'\<lparr>hh_next := Some e\<rparr>)" and ?n = "n\<lparr>hh_prev := Some ?t\<rparr>"
  let ?h' = "?h(e \<mapsto> ?n)"
  have "linked ?h None out" using linked_set_next [of h None out] m d False n' by (simp add: merged_so_far_def)
  then have "linked ?h' None out" by (rule linked_cong [THEN iffD2, rotated]) (use d in auto)
  then have "linked ?h' None (out @ [e])"
    using linked_snoc [of ?h' None out e "n'\<lparr>hh_next := Some e\<rparr>" ?n] False d ne by simp
  moreover have "holds_items item ?h'" using m n' e ne by (simp add: merged_so_far_def)
  moreover have "attach h l t (Some e) = Inr (?h', l, Some e)" using n' ne e by (simp add: attach_def link_at_def)
  ultimately show ?thesis using m False by (auto simp: merged_so_far_def split: option.split)
qed

lemma choose_e_ok:
  fixes cmp :: "'e \<Rightarrow> 'e \<Rightarrow> int"
  defines "le item \<equiv> \<lambda>a b. cmp (item a) (item b) \<le> 0"
  assumes "path h p ps r" and "path h q qs None" and "ps \<noteq> [] \<or> (qsize \<noteq> 0 \<and> qs \<noteq> [])" and "holds_items item h"
  shows "\<exists>e p' q' ps' qs' qsize'. choose_e cmp h p q (length ps) qsize = Inr (Some e, p', q', length ps', qsize') \<and>
    path h p' ps' r \<and> path h q' qs' None \<and>
    (ps = e # ps' \<and> qs' = qs \<and> qsize' = qsize \<or> qs = e # qs' \<and> ps' = ps \<and> qsize = Suc qsize') \<and>
    merged (le item) ps (take qsize qs) = e # merged (le item) ps' (take qsize' qs')"
proof (cases ps)
  case Nil
  with assms obtain b qs' k where "qs = b # qs'" "qsize = Suc k" by (cases qs; cases qsize) auto
  with Nil assms show ?thesis
    by (intro exI [of _ b] exI [of _ p] exI [of _ "hh_next (the (h b))"] exI [of _ "[]"] exI [of _ qs'] exI [of _ k])
      (auto simp: choose_e_def next_of_def link_at_def)
next
  case (Cons a ps')
  show ?thesis
  proof (cases "qsize = 0 \<or> qs = []")
    case True
    then have "qsize = 0 \<or> q = None" "take qsize qs = []" using assms(3) by auto
    with Cons assms show ?thesis
      by (intro exI [of _ a] exI [of _ "hh_next (the (h a))"] exI [of _ q] exI [of _ ps'] exI [of _ qs] exI [of _ qsize])
        (auto simp: choose_e_def next_of_def link_at_def)
  next
    case False
    then obtain b qs' k where q: "qs = b # qs'" "qsize = Suc k" by (cases qs; cases qsize) auto
    show ?thesis
    proof (cases "le item a b")
      case True
      with q Cons assms show ?thesis
        by (intro exI [of _ a] exI [of _ "hh_next (the (h a))"] exI [of _ q] exI [of _ ps'] exI [of _ qs] exI [of _ qsize])
          (auto simp: choose_e_def next_of_def link_at_def holds_items_def)
    next
      case False
      with q Cons assms show ?thesis
        by (intro exI [of _ b] exI [of _ p] exI [of _ "hh_next (the (h b))"] exI [of _ ps] exI [of _ qs'] exI [of _ k])
          (auto simp: choose_e_def next_of_def link_at_def holds_items_def)
    qed
  qed
qed

text \<open>Merging two runs: the first is \<open>ps\<close>, the second the first \<open>qsize\<close> elements of what follows, \<open>qs\<close>.\<close>

lemma merge_runs_ok:
  fixes cmp :: "'e \<Rightarrow> 'e \<Rightarrow> int"
  defines "le item \<equiv> \<lambda>a b. cmp (item a) (item b) \<le> 0"
  assumes "path h p ps r" and "path h q qs None" and "merged_so_far item h out l t" and "distinct (out @ ps @ qs)"
  shows "\<exists>h' q' l' t'. merge_runs cmp h p q (length ps) qsize l t = Inr (h', q', l', t') \<and>
    path h' q' (drop qsize qs) None \<and> merged_so_far item h' (out @ merged (le item) ps (take qsize qs)) l' t' \<and>
    (\<forall>a. a \<notin> set (out @ ps @ qs) \<longrightarrow> h' a = h a)"
  using assms(2-)
proof (induction "length ps + qsize" arbitrary: h p ps q qs qsize out l t rule: less_induct)
  case less
  note step = merge_runs.simps [of cmp h p q "length ps" qsize l t]
  show ?case
  proof (cases "ps \<noteq> [] \<or> (qsize \<noteq> 0 \<and> qs \<noteq> [])")
    case False
    moreover from False less.prems(2) have "qsize = 0 \<or> q = None" by auto
    ultimately show ?thesis using less.prems step by auto
  next
    case True
    have "holds_items item h" using less.prems(3) by (simp add: merged_so_far_def)
    from choose_e_ok [OF less.prems(1,2) True this]
    obtain e p' q' ps' qs' k where e: "choose_e cmp h p q (length ps) qsize = Inr (Some e, p', q', length ps', k)"
        "path h p' ps' r" "path h q' qs' None"
        "ps = e # ps' \<and> qs' = qs \<and> k = qsize \<or> qs = e # qs' \<and> ps' = ps \<and> qsize = Suc k"
        "merged (le item) ps (take qsize qs) = e # merged (le item) ps' (take k qs')"
      unfolding le_def by blast
    then have d: "distinct (out @ [e])" "distinct ((out @ [e]) @ ps' @ qs')" "drop k qs' = drop qsize qs"
        "set (out @ ps @ qs) = set ((out @ [e]) @ ps' @ qs')" "length ps' + k < length ps + qsize"
      using less.prems(4) by auto
    obtain n where "h e = Some n" using e(4) less.prems(1,2) by auto
    from attach_ok [OF less.prems(3) d(1) this] obtain h1 l1 where
      a: "attach h l t (Some e) = Inr (h1, l1, Some e)" "merged_so_far item h1 (out @ [e]) l1 (Some e)"
        "\<forall>a. a \<notin> set (out @ [e]) \<longrightarrow> h1 a = h a" by blast
    have "a \<in> set ps' \<union> set qs' \<Longrightarrow> h1 a = h a" for a using a(3) d(2) by auto
    then have "path h1 p' ps' r" "path h1 q' qs' None"
      using path_cong [of ps' h1 h p' r] path_cong [of qs' h1 h q' None] e(2,3) by simp_all
    from less.hyps [OF d(5) this a(2) d(2)]
    obtain h' q'' l' t' where *: "merge_runs cmp h1 p' q' (length ps') k l1 (Some e) = Inr (h', q'', l', t')"
        "path h' q'' (drop k qs') None" "merged_so_far item h' ((out @ [e]) @ merged (le item) ps' (take k qs')) l' t'"
        "\<forall>a. a \<notin> set ((out @ [e]) @ ps' @ qs') \<longrightarrow> h' a = h1 a"
      by blast
    have "length ps \<noteq> 0 \<or> (qsize \<noteq> 0 \<and> q \<noteq> None)" using True path_null [OF less.prems(2)] by auto
    with step e(1) a(1) *(1) have "merge_runs cmp h p q (length ps) qsize l t = Inr (h', q'', l', t')" by simp
    moreover have "\<forall>a. a \<notin> set (out @ ps @ qs) \<longrightarrow> h' a = h a" using *(4) a(3) d(4) by auto
    ultimately show ?thesis using *(2,3) d(3) e(5) by auto
  qed
qed

text \<open>The second run starts behind the first.\<close>

lemma find_q_ok:
  assumes "path h q as None" and "as \<noteq> []"
  shows "\<exists>q'. find_q h i q k = Inr (k + length (take i as), q') \<and> path h q (take i as) q' \<and> path h q' (drop i as) None"
  using assms
proof (induction i arbitrary: q as k)
  case (Suc i)
  then obtain a as' n where a: "as = a # as'" "q = Some a" "h a = Some n" "path h (hh_next n) as' None"
    by (cases as) auto
  show ?case
  proof (cases as')
    case Nil
    with a show ?thesis by (simp add: next_of_def link_at_def)
  next
    case (Cons b bs)
    with a(4) have "hh_next n = Some b" "as' \<noteq> []" by auto
    with Suc.IH [OF a(4), of "k + 1"] a(1-3) show ?thesis by (simp add: next_of_def link_at_def)
  qed
qed simp

text \<open>A pass merges the runs of length \<open>n\<close> in pairs; it merges at most once when there are at most two.\<close>

lemma sort_pass_ok:
  fixes cmp :: "'e \<Rightarrow> 'e \<Rightarrow> int"
  defines "le item \<equiv> \<lambda>a b. cmp (item a) (item b) \<le> 0"
  assumes "path h p as None" and "merged_so_far item h out l t" and "distinct (out @ as)" and "0 < n"
    and "length as \<le> fuel"
  shows "\<exists>h' l' t' m. sort_pass cmp fuel n h p l t k = Inr (Some (h', l', t', k + m)) \<and>
    merged_so_far item h' (out @ pass (le item) n as) l' t' \<and> (\<forall>a. a \<notin> set (out @ as) \<longrightarrow> h' a = h a) \<and>
    (m = 0 \<longleftrightarrow> as = []) \<and> (m \<le> 1 \<longleftrightarrow> length as \<le> 2 * n)"
  using assms(2-)
proof (induction fuel arbitrary: h p as out l t k)
  case 0
  then show ?case by (auto simp: pass.simps)
next
  case (Suc fuel)
  show ?case
  proof (cases "as = []")
    case True
    with Suc.prems show ?thesis by (auto simp: pass.simps)
  next
    case False
    then obtain a where p: "p = Some a" using Suc.prems(1) by (cases as) auto
    let ?ps = "take n as" and ?qs = "drop n as"
    let ?rest = "drop n ?qs" and ?out = "out @ merged (le item) ?ps (take n ?qs)"
    from find_q_ok [OF Suc.prems(1) False, of n 0] obtain q where
      q: "find_q h n p 0 = Inr (length ?ps, q)" "path h p ?ps q" "path h q ?qs None" by auto
    have s: "set as = set ?ps \<union> set (take n ?qs) \<union> set ?rest" "set as = set ?ps \<union> set ?qs"
      by (metis append_take_drop_id set_append sup_assoc)+
    have d: "distinct (out @ ?ps @ ?qs)" using Suc.prems(3) by (simp only: append_take_drop_id)
    from merge_runs_ok [OF q(2,3) Suc.prems(2) d, of cmp n] obtain h1 q1 l1 t1 where
      m: "merge_runs cmp h p q (length ?ps) n l t = Inr (h1, q1, l1, t1)" "path h1 q1 ?rest None"
        "merged_so_far item h1 ?out l1 t1" "\<forall>a. a \<notin> set (out @ ?ps @ ?qs) \<longrightarrow> h1 a = h a"
      unfolding le_def by blast
    have "mset ?qs = mset (take n ?qs) + mset ?rest" by (metis append_take_drop_id mset_append)
    then have "mset (?out @ ?rest) = mset (out @ ?ps @ ?qs)" unfolding mset_append mset_merged by (simp only: ac_simps)
    with d have d1: "distinct (?out @ ?rest)" by (rule mset_eq_imp_distinct_iff [THEN iffD2, rotated])
    have "length ?rest \<le> fuel" using Suc.prems(4,5) False by (cases as) auto
    from Suc.IH [OF m(2,3) d1 Suc.prems(4) this, of "k + 1"] obtain h' l' t' j where
      r: "sort_pass cmp fuel n h1 q1 l1 t1 (k + 1) = Inr (Some (h', l', t', k + 1 + j))"
        "merged_so_far item h' (?out @ pass (le item) n ?rest) l' t'" "\<forall>a. a \<notin> set (?out @ ?rest) \<longrightarrow> h' a = h1 a"
        "j = 0 \<longleftrightarrow> ?rest = []" by blast
    have "\<forall>a. a \<notin> set (out @ as) \<longrightarrow> h' a = h a" using r(3) m(4) s by auto
    moreover have "Suc j \<le> 1 \<longleftrightarrow> length as \<le> 2 * n" using r(4) by auto
    moreover have "out @ pass (le item) n as = ?out @ pass (le item) n ?rest"
      using False Suc.prems(4) by (simp add: pass.simps [of _ n as])
    moreover have "sort_pass cmp (Suc fuel) n h p l t k = Inr (Some (h', l', t', k + Suc j))"
      using r(1) m(1) q(1) by (simp add: p)
    ultimately show ?thesis using False r(2) by (metis nat.distinct(1))
  qed
qed

text \<open>A doubly linked list, from its first to its last element\<close>

definition dlist :: "'e link_heap \<Rightarrow> nat list \<Rightarrow> bool" where
  "dlist h as \<longleftrightarrow> linked h None as \<and> path h (first_of as) as None"

lemma linked_path:
  "linked h b as \<Longrightarrow> as \<noteq> [] \<Longrightarrow> h (last as) = Some n \<Longrightarrow> hh_next n = None \<Longrightarrow> path h (first_of as) as None"
  by (induction h b as rule: linked.induct) auto

lemma end_list:
  assumes "merged_so_far item h out l t" and "out \<noteq> []" and "distinct out"
  shows "\<exists>n. link_at h t = Inr (last out, n) \<and> holds_items item (h(last out \<mapsto> n\<lparr>hh_next := None\<rparr>)) \<and>
    dlist (h(last out \<mapsto> n\<lparr>hh_next := None\<rparr>)) out"
proof -
  obtain n where n: "h (last out) = Some n" using linked_last assms by (fastforce simp: merged_so_far_def)
  let ?h = "h(last out \<mapsto> n\<lparr>hh_next := None\<rparr>)"
  have l: "linked ?h None out" using linked_set_next [of h None out] assms n by (simp add: merged_so_far_def)
  from l have "path ?h (first_of out) out None" by (rule linked_path [OF _ assms(2)]) (simp, simp)
  with l n assms show ?thesis by (auto simp: merged_so_far_def dlist_def link_at_def last_of_def)
qed

lemma sort_loop_ok:
  fixes f :: "'e \<Rightarrow> 'k :: linorder" and cmp :: "'e \<Rightarrow> 'e \<Rightarrow> int"
  assumes cmp: "\<And>x y. cmp x y \<le> 0 \<longleftrightarrow> f x \<le> f y"
    and "path h p as None" and "holds_items item h" and "distinct as" and "as \<noteq> []"
    and "runs_sorted (\<lambda>a. f (item a)) (2 ^ j) as" and "length as \<le> 2 ^ (j + fuel)" and "0 < fuel"
    and "length as \<le> n" and "length as \<le> 2 ^ 32" and "j < 32"
  shows "\<exists>h' as'. sort_loop cmp n fuel (2 ^ j) h p = Inr (Some (h', first_of as', last_of as')) \<and>
    as' = sort_key (\<lambda>a. f (item a)) as \<and> holds_items item h' \<and> dlist h' as' \<and> (\<forall>a. a \<notin> set as \<longrightarrow> h' a = h a)"
  using assms(2-)
proof (induction fuel arbitrary: h p as j)
  case (Suc fuel)
  let ?le = "\<lambda>a b. f (item a) \<le> f (item b)"
  let ?as = "pass ?le (2 ^ j) as"
  have "merged_so_far item h [] None None" using Suc.prems(2) by (simp add: merged_so_far_def)
  from sort_pass_ok [OF Suc.prems(1) this _ _ Suc.prems(8), of "2 ^ j" cmp 0] Suc.prems(3)
  obtain h1 l1 t1 m where s: "sort_pass cmp n (2 ^ j) h p None None 0 = Inr (Some (h1, l1, t1, m))"
      "merged_so_far item h1 ?as l1 t1" "\<forall>a. a \<notin> set as \<longrightarrow> h1 a = h a" "m \<le> 1 \<longleftrightarrow> length as \<le> 2 * 2 ^ j"
    by (auto simp: cmp)
  have same: "mset ?as = mset as" by (rule pass_mset)
  then have d: "distinct ?as" "set ?as = set as" using Suc.prems(3) by (metis mset_eq_imp_distinct_iff, metis set_mset_mset)
  have ne: "?as \<noteq> []" using same Suc.prems(4) by auto
  from end_list [OF s(2) ne d(1)] obtain n1 where
    e: "link_at h1 t1 = Inr (last ?as, n1)" "holds_items item (h1(last ?as \<mapsto> n1\<lparr>hh_next := None\<rparr>))"
      "dlist (h1(last ?as \<mapsto> n1\<lparr>hh_next := None\<rparr>)) ?as" by blast
  let ?h = "h1(last ?as \<mapsto> n1\<lparr>hh_next := None\<rparr>)"
  have lt: "l1 = first_of ?as" "t1 = last_of ?as" using s(2) by (simp_all add: merged_so_far_def)
  have frame: "\<forall>a. a \<notin> set as \<longrightarrow> ?h a = h a" using s(3) last_in_set [OF ne] d(2) by auto
  have t1: "t1 \<noteq> None" using lt(2) ne by simp
  show ?case
  proof (cases "m \<le> 1")
    case True
    with s(4) have "?as = sort_key (\<lambda>a. f (item a)) as" by (intro sorted_by_passes [OF Suc.prems(5)]) simp
    with True s(1) e(2,3) lt frame t1 e(1) show ?thesis by (auto simp: bindF_def)
  next
    case False
    with s(4) have big: "2 * 2 ^ j < length as" by simp
    then have "(2 :: nat) ^ Suc j < 2 ^ 32" using Suc.prems(9) by simp
    then have j: "Suc j < 32" "(2 ^ j * 2) mod 2 ^ 32 = (2 :: nat) ^ Suc j"
      by (simp only: power_strict_increasing_iff, metis mod_less mult.commute power_Suc)
    have "0 < fuel" using big Suc.prems(6) by (cases fuel) auto
    have p: "path ?h l1 ?as None" using e(3) lt by (simp add: dlist_def)
    have r: "runs_sorted (\<lambda>a. f (item a)) (2 ^ Suc j) ?as" using pass_runs [OF Suc.prems(5)] by simp
    have len: "length ?as \<le> 2 ^ (Suc j + fuel)" "length ?as \<le> n" "length ?as \<le> 2 ^ 32" using Suc.prems(6,8,9) by simp_all
    from Suc.IH [OF p e(2) d(1) ne r len(1) \<open>0 < fuel\<close> len(2,3) j(1)] obtain h' where
      "sort_loop cmp n fuel (2 ^ Suc j) ?h l1 = Inr (Some (h', first_of (sort_key (\<lambda>a. f (item a)) ?as), last_of (sort_key (\<lambda>a. f (item a)) ?as)))"
      "holds_items item h'" "dlist h' (sort_key (\<lambda>a. f (item a)) ?as)" "\<forall>a. a \<notin> set ?as \<longrightarrow> h' a = ?h a" by blast
    moreover have "sort_key (\<lambda>a. f (item a)) ?as = sort_key (\<lambda>a. f (item a)) as" by (rule sort_key_pass [OF Suc.prems(5)])
    ultimately show ?thesis using False s(1) e(1) t1 j(2) frame d(2) by (auto simp: bindF_def)
  qed
qed simp

lemma runs_sorted_one: "runs_sorted f (2 ^ 0) xs"
  unfolding runs_sorted_def
proof
  fix i show "sorted (map f (take (2 ^ 0) (drop (i * 2 ^ 0) xs)))" by (cases "drop i xs") simp_all
qed

text \<open>
  Sorting a list of at most \<open>2 ^ 32\<close> elements, the most that \<open>num_items\<close> can count; as much fuel as there are
  elements is enough.
\<close>

lemma HASH_SRT_ok:
  fixes f :: "'e \<Rightarrow> 'k :: linorder" and cmp :: "'e \<Rightarrow> 'e \<Rightarrow> int"
  assumes cmp: "\<And>x y. cmp x y \<le> 0 \<longleftrightarrow> f x \<le> f y"
    and "dlist h as" and "holds_items item h" and "distinct as" and "length as \<le> 2 ^ 32" and "length as \<le> fuel"
  shows "\<exists>h' as'. HASH_SRT cmp fuel h (first_of as) = Inr (Some (h', first_of as', last_of as')) \<and>
    as' = sort_key (\<lambda>a. f (item a)) as \<and> holds_items item h' \<and> dlist h' as' \<and> (\<forall>a. a \<notin> set as \<longrightarrow> h' a = h a)"
proof (cases "as = []")
  case True
  with assms show ?thesis by (simp add: HASH_SRT_def)
next
  case False
  then have "0 < fuel" using assms(6) by (cases fuel) auto
  moreover have "length as \<le> 2 ^ (0 + fuel)" by (metis add_0 assms(6) less_exp less_imp_le order_trans)
  ultimately show ?thesis
    using sort_loop_ok [OF cmp _ assms(3,4) False runs_sorted_one _ _ assms(6,5), of "first_of as"] assms(2) False
    by (simp add: HASH_SRT_def dlist_def)
qed

section \<open>Adding in order\<close>

text \<open>The loop that moves \<open>_hs_iter\<close>: the elements before it, and those from it on.\<close>

fun HASH_AKBI_INNER_LOOP :: "('x \<Rightarrow> 'x \<Rightarrow> int) \<Rightarrow> 'x \<Rightarrow> 'x list \<Rightarrow> 'x list \<times> 'x list" where
  "HASH_AKBI_INNER_LOOP cmp add [] = ([], [])"
| "HASH_AKBI_INNER_LOOP cmp add (x # xs) =
     (if cmp x add > 0 then ([], x # xs)
      else (case HASH_AKBI_INNER_LOOP cmp add xs of (before, rest) \<Rightarrow> (x # before, rest)))"

definition HASH_ADD_KEYPTR_BYHASHVALUE_INORDER ::
    "('e UT_hash_handle \<Rightarrow> 'e UT_hash_handle \<Rightarrow> int) \<Rightarrow> 'e hash_head \<Rightarrow> byte list \<Rightarrow> 32 word \<Rightarrow> 'e \<Rightarrow> 'e hash_head res" where
  "HASH_ADD_KEYPTR_BYHASHVALUE_INORDER cmp head key hashv e =
     (let x = \<lparr>hh_key = key, hh_hashv = hashv, hh_elem = e\<rparr>;
          t = (case head of
                 None \<Rightarrow> HASH_MAKE_TABLE x
               | Some t \<Rightarrow>
                   (case HASH_AKBI_INNER_LOOP cmp x (app_order t) of
                      (_, []) \<Rightarrow> HASH_APPEND_LIST x t
                    | (before, y # rest) \<Rightarrow> t\<lparr>app_order := before @ x # y # rest\<rparr>))
      in bindR (HASH_ADD_TO_TABLE x t) (\<lambda>t. Inr (Some t)))"

definition HASH_ADD_KEYPTR_INORDER ::
    "('e UT_hash_handle \<Rightarrow> 'e UT_hash_handle \<Rightarrow> int) \<Rightarrow> 'e hash_head \<Rightarrow> byte list \<Rightarrow> 'e \<Rightarrow> 'e hash_head res" where
  "HASH_ADD_KEYPTR_INORDER cmp head key e =
     bindR (HASH_VALUE key) (\<lambda>hashv. HASH_ADD_KEYPTR_BYHASHVALUE_INORDER cmp head key hashv e)"

definition HASH_REPLACE_INORDER ::
    "('e UT_hash_handle \<Rightarrow> 'e UT_hash_handle \<Rightarrow> int) \<Rightarrow> 'e hash_head \<Rightarrow> byte list \<Rightarrow> 'e \<Rightarrow>
      ('e UT_hash_handle option \<times> 'e hash_head) res" where
  "HASH_REPLACE_INORDER cmp head key e =
     bindR (HASH_VALUE key) (\<lambda>hashv.
     bindR (HASH_FIND_BYHASHVALUE head key hashv) (\<lambda>replaced.
     bindR (case replaced of None \<Rightarrow> Inr head | Some x \<Rightarrow> HASH_DELETE head x) (\<lambda>head.
     bindR (HASH_ADD_KEYPTR_BYHASHVALUE_INORDER cmp head key hashv e) (\<lambda>head.
       Inr (replaced, head)))))"

text \<open>The new element comes behind the elements that are not greater, up to the first that is.\<close>

definition placed :: "('x \<Rightarrow> 'x \<Rightarrow> int) \<Rightarrow> 'x \<Rightarrow> 'x list \<Rightarrow> 'x list" where
  "placed cmp x xs = takeWhile (\<lambda>y. cmp y x \<le> 0) xs @ x # dropWhile (\<lambda>y. cmp y x \<le> 0) xs"

lemma inner_loop_eq:
  "HASH_AKBI_INNER_LOOP cmp x xs = (takeWhile (\<lambda>y. cmp y x \<le> 0) xs, dropWhile (\<lambda>y. cmp y x \<le> 0) xs)"
  by (induction xs) auto

lemma mset_placed [simp]: "mset (placed cmp x xs) = add_mset x (mset xs)"
  by (simp add: placed_def) (metis mset_append takeWhile_dropWhile_id)

lemma placed_simps [simp]:
  "set (placed cmp x xs) = insert x (set xs)" "length (placed cmp x xs) = Suc (length xs)" "placed cmp x xs \<noteq> []"
  by (metis mset_placed set_mset_add_mset_insert set_mset_mset, metis mset_placed size_add_mset size_mset,
      simp add: placed_def)

lemma distinct_placed: "distinct (map f (placed cmp x xs)) \<longleftrightarrow> f x \<notin> f ` set xs \<and> distinct (map f xs)"
proof -
  have "mset (map f (placed cmp x xs)) = mset (map f (x # xs))" by (simp only: mset_map mset_placed) simp
  from mset_eq_imp_distinct_iff [OF this] show ?thesis by simp
qed

text \<open>In a sorted list it is the place that a stable sort would give to an element added at the end.\<close>

lemma placed_sorted:
  fixes f :: "'a \<Rightarrow> 'k :: linorder"
  assumes "\<And>x y. cmp x y \<le> 0 \<longleftrightarrow> f x \<le> f y" and "sorted (map f xs)"
  shows "placed cmp x xs = sort_key f (xs @ [x])"
  using assms(2)
proof (induction xs)
  case (Cons y xs)
  show ?case
  proof (cases "f y \<le> f x")
    case True
    have "sort_key f (y # xs @ [x]) = y # sort_key f (xs @ [x])"
      using Cons.prems True by (simp add: insort_is_Cons)
    with True Cons show ?thesis by (simp add: placed_def assms(1))
  next
    case False
    have "sorted (map f (x # y # xs))" using Cons.prems False by auto
    have "sort_key f (y # xs @ [x]) = x # y # xs"
    proof (rule properties_for_sort_key)
      fix k
      have "filter (\<lambda>z. f x = f z) xs = []" using Cons.prems False by (fastforce simp: filter_empty_conv)
      then show "filter (\<lambda>z. f k = f z) (x # y # xs) = filter (\<lambda>z. f k = f z) (y # xs @ [x])"
        using False by (cases "f k = f x") auto
    qed (use Cons.prems False in auto)
    with False show ?thesis by (simp add: placed_def assms(1))
  qed
qed (simp add: placed_def)

lemma add_inorder_ok:
  assumes "hash_ok d" and "key \<notin> hh_key ` set (elems d)" and "HASH_VALUE key = Inr h"
  shows "\<exists>d'. HASH_ADD_KEYPTR_BYHASHVALUE_INORDER cmp d key h e = Inr d' \<and> hash_ok d' \<and>
    elems d' = placed cmp \<lparr>hh_key = key, hh_hashv = h, hh_elem = e\<rparr> (elems d)"
proof (cases d)
  case None
  with add_ok [OF assms, of e] show ?thesis
    by (simp add: HASH_ADD_KEYPTR_BYHASHVALUE_INORDER_def HASH_ADD_KEYPTR_BYHASHVALUE_def placed_def)
next
  case (Some t)
  let ?x = "\<lparr>hh_key = key, hh_hashv = h, hh_elem = e\<rparr>"
  let ?t = "t\<lparr>app_order := placed cmp ?x (app_order t)\<rparr>"
  have t: "table_ok t" using assms(1) Some by (simp add: hash_ok_def)
  have "(case HASH_AKBI_INNER_LOOP cmp ?x (app_order t) of
        (_, []) \<Rightarrow> HASH_APPEND_LIST ?x t
      | (before, y # rest) \<Rightarrow> t\<lparr>app_order := before @ ?x # y # rest\<rparr>) = ?t"
  proof (cases "dropWhile (\<lambda>y. cmp y ?x \<le> 0) (app_order t)")
    case Nil
    then have "takeWhile (\<lambda>y. cmp y ?x \<le> 0) (app_order t) = app_order t"
      by (metis append_Nil2 takeWhile_dropWhile_id)
    with Nil show ?thesis by (simp only: inner_loop_eq placed_def HASH_APPEND_LIST_def prod.case list.case)
  qed (simp add: inner_loop_eq placed_def)
  then have eq: "HASH_ADD_KEYPTR_BYHASHVALUE_INORDER cmp d key h e = bindR (HASH_ADD_TO_TABLE ?x ?t) (\<lambda>t. Inr (Some t))"
    by (simp add: HASH_ADD_KEYPTR_BYHASHVALUE_INORDER_def Some Let_def)
  from add_to_table_ok [of "log2_num_buckets t" ?t "mset (app_order t)" ?x] table_okD [OF t] obtain t' where
    t': "HASH_ADD_TO_TABLE ?x ?t = Inr t'" "app_order t' = placed cmp ?x (app_order t)"
      "num_items t' = length (placed cmp ?x (app_order t))" "num_buckets t' = 2 ^ log2_num_buckets t'"
      "spread (num_buckets t') (buckets t') (mset (app_order t'))" by auto
  have "hash_ok (Some t')"
    using t' assms Some hash_ok_elems [OF assms(1)] by (auto simp: hash_ok_def table_ok_def distinct_placed)
  with eq t' Some show ?thesis by simp
qed

lemma replace_inorder_ok:
  assumes "hash_ok d"
  shows "\<exists>r d' h. HASH_REPLACE_INORDER cmp d key e = Inr (r, d') \<and> hash_ok d' \<and>
    r = find (\<lambda>x. hh_key x = key) (elems d) \<and> HASH_VALUE key = Inr h \<and>
    elems d' = placed cmp \<lparr>hh_key = key, hh_hashv = h, hh_elem = e\<rparr>
      (case r of None \<Rightarrow> elems d | Some x \<Rightarrow> remove1 x (elems d))"
proof -
  obtain h where h: "HASH_VALUE key = Inr h" using HASH_VALUE_ok by blast
  let ?r = "find (\<lambda>x. hh_key x = key) (elems d)"
  have f: "HASH_FIND_BYHASHVALUE d key h = Inr ?r" using find_ok [OF assms, of key] h by (simp add: HASH_FIND_def)
  from delete_found [OF assms refl, of key] obtain d1 where
    d1: "(case ?r of None \<Rightarrow> Inr d | Some x \<Rightarrow> HASH_DELETE d x) = Inr d1" "hash_ok d1"
      "elems d1 = (case ?r of None \<Rightarrow> elems d | Some x \<Rightarrow> remove1 x (elems d))" "key \<notin> hh_key ` set (elems d1)" by blast
  from add_inorder_ok [OF d1(2,4) h, of cmp e] obtain d' where d':
    "HASH_ADD_KEYPTR_BYHASHVALUE_INORDER cmp d1 key h e = Inr d'" "hash_ok d'"
    "elems d' = placed cmp \<lparr>hh_key = key, hh_hashv = h, hh_elem = e\<rparr> (elems d1)" by blast
  have "HASH_REPLACE_INORDER cmp d key e = Inr (?r, d')"
    unfolding HASH_REPLACE_INORDER_def h f bindR_simps d1(1) d'(1) ..
  with d' d1(3) h show ?thesis by (intro exI [of _ ?r] exI [of _ d'] exI [of _ h]) simp
qed

text \<open>
  Replacing in order keeps a sorted table sorted. In a table whose elements are in the order of the comparison,
  \<open>HASH_REPLACE_INORDER\<close> takes out the element that had the key, if any, which it returns, and puts the new one where
  a stable sort would put it, had it been added at the end; \<open>HASH_ADD_KEYPTR_INORDER\<close> does the same for a new key. The
  table stays well formed, the key has the new element, and every other key what it had.
\<close>

theorem uthash_replace_inorder:
  fixes f :: "'e UT_hash_handle \<Rightarrow> 'k :: linorder" and cmp :: "'e UT_hash_handle \<Rightarrow> 'e UT_hash_handle \<Rightarrow> int"
  assumes "\<And>x y. cmp x y \<le> 0 \<longleftrightarrow> f x \<le> f y" and "hash_ok d" and "sorted (map f (elems d))"
  shows "\<exists>r d' x. HASH_REPLACE_INORDER cmp d key e = Inr (r, d') \<and> hash_ok d' \<and> HASH_FSCK d' \<and>
    HASH_FIND d key = Inr r \<and> hh_key x = key \<and> hh_elem x = e \<and>
    elems d' = sort_key f ((case r of None \<Rightarrow> elems d | Some y \<Rightarrow> remove1 y (elems d)) @ [x]) \<and>
    (\<forall>k. HASH_FIND d' k = (if k = key then Inr (Some x) else HASH_FIND d k)) \<and>
    (r = None \<longrightarrow> HASH_ADD_KEYPTR_INORDER cmp d key e = Inr d')"
proof -
  from replace_inorder_ok [OF assms(2), of cmp key e] obtain r d' h where
    s: "HASH_REPLACE_INORDER cmp d key e = Inr (r, d')" "hash_ok d'" "r = find (\<lambda>x. hh_key x = key) (elems d)"
      "HASH_VALUE key = Inr h" and d': "elems d' = placed cmp \<lparr>hh_key = key, hh_hashv = h, hh_elem = e\<rparr>
      (case r of None \<Rightarrow> elems d | Some x \<Rightarrow> remove1 x (elems d))" by blast
  let ?x = "\<lparr>hh_key = key, hh_hashv = h, hh_elem = e\<rparr>"
  let ?rest = "case r of None \<Rightarrow> elems d | Some y \<Rightarrow> remove1 y (elems d)"
  have rest: "set ?rest = {x \<in> set (elems d). hh_key x \<noteq> key}"
    unfolding s(3) by (rule set_without [OF hash_ok_elems(1) [OF assms(2)]])
  have "sorted (map f ?rest)" using assms(3) by (auto simp: sorted_map_remove1 split: option.split)
  then have e: "elems d' = sort_key f (?rest @ [?x])" using placed_sorted [OF assms(1)] by (simp only: d')
  have D: "set (elems d') = insert ?x {x \<in> set (elems d). hh_key x \<noteq> key}" by (simp only: d' placed_simps rest)
  have "HASH_FIND d' k = (if k = key then Inr (Some ?x) else HASH_FIND d k)" for k
  proof (cases "k = key")
    case True
    then have "find (\<lambda>x. hh_key x = k) (elems d') = Some ?x"
      by (simp add: find_distinct [OF hash_ok_elems(1) [OF s(2)]] D)
    with True show ?thesis by (simp add: find_ok [OF s(2)])
  next
    case False
    then have "find (\<lambda>x. hh_key x = k) (elems d') = Some y \<longleftrightarrow> find (\<lambda>x. hh_key x = k) (elems d) = Some y" for y
      unfolding find_distinct [OF hash_ok_elems(1) [OF s(2)]] find_distinct [OF hash_ok_elems(1) [OF assms(2)]] D
      by auto
    then have "find (\<lambda>x. hh_key x = k) (elems d') = find (\<lambda>x. hh_key x = k) (elems d)" by (metis not_Some_eq)
    with False show ?thesis by (simp add: find_ok [OF s(2)] find_ok [OF assms(2)])
  qed
  moreover have "HASH_ADD_KEYPTR_INORDER cmp d key e = Inr d'" if "r = None"
    using that s find_ok [OF assms(2), of key]
    by (auto simp: HASH_ADD_KEYPTR_INORDER_def HASH_REPLACE_INORDER_def HASH_FIND_def bindR_eq_Inr_iff)
  ultimately show ?thesis using s(1-3) e find_ok [OF assms(2), of key] fsck_ok [OF s(2)] by fastforce
qed

section \<open>The table in the heap\<close>

text \<open>The elements of the table are the records at the addresses \<open>as\<close>, linked in the order of the application.\<close>

definition holds_table :: "'e UT_hash_handle link_heap \<Rightarrow> nat list \<Rightarrow> 'e UT_hash_table \<Rightarrow> bool" where
  "holds_table h as t \<longleftrightarrow> dlist h as \<and> distinct as \<and> map (\<lambda>a. hh_item (the (h a))) as = app_order t"

lemma map_sort_key: "map g (sort_key (\<lambda>a. f (g a)) xs) = sort_key f (map g xs)"
proof -
  have "map g (insort_key (\<lambda>a. f (g a)) x ys) = insort_key f (g x) (map g ys)" for x ys
    by (induction ys) simp_all
  then show ?thesis by (induction xs) simp_all
qed

lemma path_defined: "path h p as r \<Longrightarrow> a \<in> set as \<Longrightarrow> \<exists>n. h a = Some n"
  by (induction as arbitrary: p) auto

text \<open>The order of the application can be changed without a change of the buckets.\<close>

lemma table_ok_reorder: "table_ok t \<Longrightarrow> mset xs = mset (app_order t) \<Longrightarrow> table_ok (t\<lparr>app_order := xs\<rparr>)"
  unfolding table_ok_def
  by (auto simp: distinct_map dest: mset_eq_length mset_eq_setD mset_eq_imp_distinct_iff)

lemma hash_ok_reorder:
  assumes "hash_ok (Some t)" and "mset xs = mset (app_order t)"
  shows "hash_ok (Some (t\<lparr>app_order := xs\<rparr>))"
  using assms table_ok_reorder [of t xs] by (auto simp: hash_ok_def)

lemma HASH_FIND_reorder: "HASH_FIND (Some (t\<lparr>app_order := xs\<rparr>)) key = HASH_FIND (Some t) key"
  by (cases "HASH_VALUE key") (simp_all add: HASH_FIND_def HASH_FIND_BYHASHVALUE_def)

text \<open>A table with two elements, the greater first.\<close>

lemma sample_table:
  "\<exists>t x y. hash_ok (Some t) \<and> app_order t = [x, y] \<and> hh_elem x = (2 :: int) \<and> hh_elem y = 1"
proof -
  obtain h h' where h: "HASH_VALUE (int_key 7) = Inr h" "HASH_VALUE (int_key 8) = Inr h'" using HASH_VALUE_ok by blast
  obtain d where d: "hash_ok d" "elems d = [\<lparr>hh_key = int_key 7, hh_hashv = h, hh_elem = 2 :: int\<rparr>]"
    using add_ok [of None "int_key 7" h "2 :: int"] h by (auto simp: hash_ok_def)
  have "int_key 8 \<noteq> int_key 7" by code_simp
  with add_ok [OF d(1), of "int_key 8" h' 1] d(2) h(2) obtain d' where
    d': "hash_ok d'" "elems d' = [\<lparr>hh_key = int_key 7, hh_hashv = h, hh_elem = 2 :: int\<rparr>,
      \<lparr>hh_key = int_key 8, hh_hashv = h', hh_elem = 1\<rparr>]" by auto
  then obtain t where "d' = Some t" by (cases d') auto
  with d' show ?thesis by auto
qed

section \<open>Properties\<close>

text \<open>
  C33: \<open>HASH_SORT\<close> is a stable sort, in place. For a table that the macros have built and whose elements are
  linked in memory, with a comparison that orders the elements by some key, the sort ends and follows no null or
  dangling pointer; the head, the tail and both links of all elements are then those of the same records in sorted
  order, elements that compare equal keep their order, no other memory is written, and the table is as well formed
  as before: its integrity test holds and every key is found as before. The doubling of the run length does not wrap.
\<close>

theorem uthash_sort:
  fixes f :: "'e UT_hash_handle \<Rightarrow> 'k :: linorder" and cmp :: "'e UT_hash_handle \<Rightarrow> 'e UT_hash_handle \<Rightarrow> int"
  assumes "\<And>x y. cmp x y \<le> 0 \<longleftrightarrow> f x \<le> f y" and "hash_ok (Some t)" and "holds_table h as t"
    and "length as \<le> 2 ^ 32"
  shows "\<exists>h' as'. HASH_SRT cmp (length as) h (first_of as) = Inr (Some (h', first_of as', last_of as')) \<and>
    as' = sort_key (\<lambda>a. f (hh_item (the (h a)))) as \<and> (\<forall>a. a \<notin> set as \<longrightarrow> h' a = h a) \<and>
    (\<forall>a. map_option hh_item (h' a) = map_option hh_item (h a)) \<and>
    (let t' = t\<lparr>app_order := sort_key f (app_order t)\<rparr>
     in holds_table h' as' t' \<and> hash_ok (Some t') \<and> HASH_FSCK (Some t') \<and>
        (\<forall>key. HASH_FIND (Some t') key = HASH_FIND (Some t) key))"
proof -
  let ?item = "\<lambda>a. hh_item (the (h a))"
  have "holds_items ?item h" by (simp add: holds_items_def)
  from HASH_SRT_ok [where cmp = cmp and f = f, OF assms(1) _ this _ assms(4) order_refl] assms(3) obtain h' as' where
    s: "HASH_SRT cmp (length as) h (first_of as) = Inr (Some (h', first_of as', last_of as'))"
      "as' = sort_key (\<lambda>a. f (?item a)) as" "holds_items ?item h'" "dlist h' as'" "\<forall>a. a \<notin> set as \<longrightarrow> h' a = h a"
    unfolding holds_table_def by blast
  have "map (\<lambda>a. hh_item (the (h' a))) as' = map ?item as'"
    using s(3,4) path_defined by (fastforce simp: dlist_def holds_items_def)
  also have "\<dots> = sort_key f (app_order t)"
    using assms(3) map_sort_key [of ?item f as] by (simp add: s(2) holds_table_def)
  finally have "holds_table h' as' (t\<lparr>app_order := sort_key f (app_order t)\<rparr>)"
    using s(2,4) assms(3) by (simp add: holds_table_def)
  moreover have "hash_ok (Some (t\<lparr>app_order := sort_key f (app_order t)\<rparr>))" by (rule hash_ok_reorder [OF assms(2)]) simp
  moreover have "map_option hh_item (h' a) = map_option hh_item (h a)" for a
  proof (cases "a \<in> set as")
    case True
    then have "a \<in> set as'" by (simp add: s(2))
    with True s(3,4) assms(3) obtain n n' where "h a = Some n" "h' a = Some n'"
      by (meson path_defined dlist_def holds_table_def)
    with s(3) show ?thesis by (simp add: holds_items_def)
  qed (use s(5) in simp)
  ultimately show ?thesis using s(1,2,5) by (auto simp: Let_def fsck_ok HASH_FIND_reorder)
qed

theorem uthash_sort_witness:
  "\<exists>t h h'. hash_ok (Some t) \<and> map hh_elem (app_order t) = [2, 1 :: int] \<and> holds_table h [10, 20] t \<and>
    HASH_SRT (\<lambda>x y. hh_elem x - hh_elem y) 2 h (Some 10) = Inr (Some (h', Some 20, Some 10)) \<and>
    holds_table h' [20, 10] (t\<lparr>app_order := rev (app_order t)\<rparr>)"
proof -
  obtain t x y where t: "hash_ok (Some t)" "app_order t = [x, y]" "hh_elem x = (2 :: int)" "hh_elem y = 1"
    using sample_table by blast
  let ?h = "[10 \<mapsto> \<lparr>hh_next = Some 20, hh_prev = None, hh_item = x\<rparr>, 20 \<mapsto> \<lparr>hh_next = None, hh_prev = Some 10, hh_item = y\<rparr>]"
  have h: "holds_table ?h [10, 20] t" by (simp add: holds_table_def dlist_def t(2))
  have ends: "first_of [10, 20] = Some 10" "last_of [20, 10] = Some 10" by (simp_all add: last_of_def)
  have len: "length [10, 20 :: nat] \<le> 2 ^ 32" by simp
  from uthash_sort [where cmp = "\<lambda>x y. hh_elem x - hh_elem y" and f = hh_elem, OF _ t(1) h len] obtain h' where
    "HASH_SRT (\<lambda>x y. hh_elem x - hh_elem y) 2 ?h (Some 10) = Inr (Some (h', Some 20, Some 10))"
    "holds_table h' [20, 10] (t\<lparr>app_order := [y, x]\<rparr>)"
    by (auto simp: t ends Let_def numeral_2_eq_2)
  with t h show ?thesis by (intro exI [of _ t] exI [of _ ?h] exI [of _ h']) simp
qed

end
