(* ===== verification/Spec2Isabelle.thy ===== *)
theory Spec2Isabelle
  imports Crc8 Base64 HashTable Frame JobQueue ThreadPool Xml Soap CJsonTree AidSql Requests ProxyLoop CJsonBuffer XmlMemory
    CJsonMemory SoapMemory JobMemory UthashSort
begin

text \<open>
  A model of wow_proxy, a C program that stands between clients with a JSON protocol and the SOAP interface of a game
  server, and of the libraries in C that it is built from.

  \<^bold>\<open>The program.\<close> \<^verbatim>\<open>src/proxy_server/proxy_server.c\<close> starts a pool of threads, reads the table of commands and the credentials
  from a SQLite database, and waits with epoll for clients. A client sends frames: two bytes of length, a JSON text, and a
  CRC-8 checksum. An event makes the main thread add a job to the queue of the pool. The reading job
  (\<^verbatim>\<open>src/proxy_server/threadpool/aidsock.c\<close>) reads the frames, checks and parses them, looks the commands up, prints each
  with its parameters, sends it to the SOAP server (\<^verbatim>\<open>src/proxy_server/xml/analysis_soap.c\<close>) or executes it in the database,
  and writes the answer back as a frame.

  \<^bold>\<open>How C is modelled.\<close> An object is the list of its bytes, a function returns a fault or its result (\<open>'a res\<close>),
  and a read or write outside of an object, the use of a freed object, and the following of a null pointer are faults: a
  theorem that a function returns \<open>Inr\<close> says that it has no such undefined behaviour. Integers that can wrap are
  words, or have the conversion written out (\<open>to_size_t\<close>, \<open>wrap32\<close>). What the kernel, the SOAP server and SQLite
  answer is a parameter: a script of answers from which each call takes the next one, or a function. What the program
  logs is not modelled. The configuration is the one of \<^verbatim>\<open>src/common/config_.h\<close>: with \<open>_SOAP\<close>, without \<open>SOCKSSL\<close>.

  \<^bold>\<open>The theories\<close>, each with the names of the functions of its source:
  \<^item> \<open>Prelude\<close>, \<open>Posix\<close>: faults, sequencing, the functions of string.h, and the answers of the kernel.
  \<^item> \<open>Crc8\<close> (common/crc8.c): the checksum is the remainder of a polynomial division; all bursts of up to eight bits are
    found.
  \<^item> \<open>Base64\<close> (common/base64.c): decoding undoes encoding; decoding any string stays in its buffer.
  \<^item> \<open>Dictionary\<close> states what a table promises (locale \<open>keyed_store\<close>); \<open>HashTable\<close> (common/hashtable/hashtable.c) and
    \<open>Uthash\<close> (the macros of common/uthash/uthash.h, with the doubling of the buckets) are shown to provide it;
    \<open>UthashSort\<close> has the merge sort of the same header on the links in memory, and the additions in order.
  \<^item> \<open>JobQueue\<close> (threadpool.c): the linked list of jobs in the heap, with the contract of a queue (locale \<open>fifo\<close>); \<open>ThreadPool\<close>:
    workers, semaphore, mutex and destruction as a step relation, with its invariant, absence of lost wake-ups, and
    termination of the destruction.
  \<^item> \<open>Frame\<close>, \<open>Message\<close>, \<open>Requests\<close> (aidsock.c): frames, from a frame to commands, and the jobs; \<open>Utility\<close>
    (common/utility.c): the sockets that they write to and read from, with reconnection.
  \<^item> \<open>AidSql\<close> (sqlite/aid_sql.c): the table of commands and the credentials.
  \<^item> \<open>Xml\<close> (xml/xml.c) and \<open>Soap\<close> (xml/analysis_soap.c): the parser of the answers, the request, the splitting of an
    answer.
  \<^item> \<open>CJson\<close>, \<open>CJsonPrint\<close>, \<open>CJsonBuffer\<close>, \<open>CJsonRound\<close>, \<open>CJsonTree\<close> (common/cJSON.c): parser, printer without and with a growing
    buffer, parsing of what was printed, and the operations on trees.
  \<^item> \<open>Memory\<close> states what a library of trees promises about the blocks it allocates (locale \<open>tree_memory\<close>); \<open>XmlMemory\<close> and
    \<open>CJsonMemory\<close> repeat the parsers of xml.c and cJSON.c with every allocation and every free, show that they give the same trees as
    \<open>Xml\<close> and \<open>CJson\<close>, and that nothing is leaked or freed twice. \<open>SoapMemory\<close> and \<open>JobMemory\<close> do the same for the
    responses and for the jobs, which are built from these parsers, and count exactly what is leaked.
  \<^item> \<open>ProxyLoop\<close> (proxy_server.c): start, event loop, end, and the threads together, as far as they share connections.
  \<^item> This theory: the event loop together with the queue of the pool.

  \<^bold>\<open>What is shown\<close>, beside the functional behaviour of each operation on all its branches: invariants of the data structures; memory
  safety of the parsers, of the decoder, of the reading of messages, and of the pool under all interleavings; that a
  command reaches the server unchanged and its answer the client; and refinement of dictionaries and queues. Where the
  code is wrong the theorems say exactly when: a frame that consists of its length, an answer without a body, a \<open>\u\<close> escape
  that is cut off by a quote, a client that has left when its answer is written, a statement that SQLite refuses, two
  workers that share a connection.

  \<^bold>\<open>Fuel.\<close> Recursion that C does not bound takes a fuel: \<open>xml_parse_node\<close> needs at most twice the length of the buffer, \<open>parse_value\<close>
  at most one more than the length of the text, and the theorems say that this is enough for a result. The thread pool and the event loop
  run on finite sequences of steps of any length; scripts of answers are finite, and their end stands for the failure that is documented at
  each call.

  \<^bold>\<open>Not modelled.\<close> SQLite (vendored, a parameter); OpenSSL and everything under \<open>SOCKSSL\<close>, which is off; the daemons, named pipes and
  process limits of the configuration without \<open>_SOAP\<close>; \<^verbatim>\<open>src/common/timer.c\<close>, which does not compile and which nothing calls; the
  parts of uthash that the program does not use (other hash functions, \<open>HASH_SELECT\<close>, Bloom filters, recovery from a failed allocation), and the headers beside it;
  failing allocations, except in \<open>CJsonBuffer\<close>; the rounding of decimal numbers to \<open>double\<close>; weak memory.
\<close>

section \<open>The event loop and the queue of the pool\<close>

text \<open>
  The two arguments that \<open>handle_disconnect\<close>, \<open>handle_read\<close> and \<open>handle_write\<close> give to \<open>threadpool_add_work\<close>: a
  function, and what it is called with.
\<close>

datatype job_function = read_sock_job | write_sock_job | free_sockConn_job

type_synonym job_argument = "sockdata + nat"

definition work_of :: "job \<Rightarrow> job_function \<times> job_argument" where
  "work_of j =
     (case j of
        ReadSock d \<Rightarrow> (read_sock_job, Inl d)
      | WriteSock d \<Rightarrow> (write_sock_job, Inl d)
      | FreeSockConn a \<Rightarrow> (free_sockConn_job, Inr a))"



end
